(* ===== verification/RPrelude.thy ===== *)
theory RPrelude
  imports Main "HOL-Library.Word" "HOL-Library.Monad_Syntax"
begin

text \<open>
  Shared vocabulary of the development: the integer types of
  \<^verbatim>\<open>include/rlib/rtypes.h\<close> on a 64-bit little-endian target, pointers as
  64-bit words with \<open>NULL = 0\<close>, and arrays in memory as lists whose accesses are checked.

  Every C operation that can go wrong (an access outside an allocation, a call through a
  null function pointer, a loop that never ends) is modelled in the option monad:
  \<^const>\<open>None\<close> means that the C code does not return a value.  A theorem whose
  conclusion is \<open>f x = Some y\<close> therefore contains the memory safety and the
  termination of the C function on that input.
\<close>

unbundle bit_operations_syntax

type_synonym ruint8 = "8 word"
type_synonym ruint16 = "16 word"
type_synonym ruint32 = "32 word"
type_synonym ruint64 = "64 word"
type_synonym rsize = "64 word"
type_synonym rpointer = "64 word"

abbreviation NULL :: rpointer where
  "NULL \<equiv> 0"

abbreviation RSIZE_MAX :: rsize where
  "RSIZE_MAX \<equiv> - 1"

text \<open>
  A call of a destroy notifier (or of a visitor function) is recorded as the pair of the
  function's address and its argument; the order of the list is the order of the calls.
\<close>

type_synonym notify_call = "rpointer \<times> rpointer"

definition call_notify :: "rpointer \<Rightarrow> rpointer \<Rightarrow> notify_call list" where
  "call_notify notify arg = (if notify \<noteq> NULL then [(notify, arg)] else [])"

named_theorems mem_simps \<open>evaluation of checked accesses inside their bounds\<close>

subsection \<open>Checked memory accesses\<close>

definition fetch :: "'a list \<Rightarrow> nat \<Rightarrow> 'a option" where
  "fetch xs i = (if i < length xs then Some (xs ! i) else None)"

definition store :: "'a list \<Rightarrow> nat \<Rightarrow> 'a \<Rightarrow> 'a list option" where
  "store xs i v = (if i < length xs then Some (xs[i := v]) else None)"

text \<open>\<open>memmove xs d s n\<close> copies the \<open>n\<close> cells at \<open>s\<close> to \<open>d\<close> (the ranges may overlap).\<close>

definition memmove :: "'a list \<Rightarrow> nat \<Rightarrow> nat \<Rightarrow> nat \<Rightarrow> 'a list option" where
  "memmove xs d s n =
     (if d + n \<le> length xs \<and> s + n \<le> length xs
      then Some (take d xs @ take n (drop s xs) @ drop (d + n) xs) else None)"

text \<open>\<open>memfill xs d n v\<close> sets the \<open>n\<close> cells at \<open>d\<close> to \<open>v\<close>.\<close>

definition memfill :: "'a list \<Rightarrow> nat \<Rightarrow> nat \<Rightarrow> 'a \<Rightarrow> 'a list option" where
  "memfill xs d n v =
     (if d + n \<le> length xs then Some (take d xs @ replicate n v @ drop (d + n) xs) else None)"

text \<open>\<open>memcpy dst d src s n\<close> copies the \<open>n\<close> cells of \<open>src\<close> at \<open>s\<close> to \<open>dst\<close> at \<open>d\<close>, another allocation.\<close>

definition memcpy :: "'a list \<Rightarrow> nat \<Rightarrow> 'a list \<Rightarrow> nat \<Rightarrow> nat \<Rightarrow> 'a list option" where
  "memcpy dst d src s n =
     (if d + n \<le> length dst \<and> s + n \<le> length src
      then Some (take d dst @ take n (drop s src) @ drop (d + n) dst) else None)"

lemma fetch_in [simp, mem_simps]: "i < length xs \<Longrightarrow> fetch xs i = Some (xs ! i)"
  by (simp add: fetch_def)

lemma fetch_out [simp]: "length xs \<le> i \<Longrightarrow> fetch xs i = None"
  by (simp add: fetch_def)

lemma fetch_eq_Some: "fetch xs i = Some x \<longleftrightarrow> i < length xs \<and> xs ! i = x"
  by (simp add: fetch_def)

lemma store_in [simp, mem_simps]: "i < length xs \<Longrightarrow> store xs i v = Some (xs[i := v])"
  by (simp add: store_def)

lemma store_eq_Some: "store xs i v = Some ys \<longleftrightarrow> i < length xs \<and> ys = xs[i := v]"
  by (auto simp: store_def)

lemma memmove_in [simp, mem_simps]:
  "d + n \<le> length xs \<Longrightarrow> s + n \<le> length xs \<Longrightarrow>
   memmove xs d s n = Some (take d xs @ take n (drop s xs) @ drop (d + n) xs)"
  by (simp add: memmove_def)

lemma memmove_length: "memmove xs d s n = Some ys \<Longrightarrow> length ys = length xs"
  by (auto simp: memmove_def split: if_splits)

lemma memcpy_in [simp, mem_simps]:
  "d + n \<le> length dst \<Longrightarrow> s + n \<le> length src \<Longrightarrow>
   memcpy dst d src s n = Some (take d dst @ take n (drop s src) @ drop (d + n) dst)"
  by (simp add: memcpy_def)

lemma memfill_in [simp, mem_simps]:
  "d + n \<le> length xs \<Longrightarrow> memfill xs d n v = Some (take d xs @ replicate n v @ drop (d + n) xs)"
  by (simp add: memfill_def)

lemma memfill_length: "memfill xs d n v = Some ys \<Longrightarrow> length ys = length xs"
  by (auto simp: memfill_def split: if_splits)

subsection \<open>Lists\<close>

lemma length_filter_update:
  assumes "i < length xs"
  shows "length (filter P (xs[i := x])) + (if P (xs ! i) then 1 else 0)
       = length (filter P xs) + (if P x then 1 else 0)"
  using assms
proof (induction xs arbitrary: i)
  case (Cons a xs)
  then show ?case by (cases i) auto
qed simp

lemma count_all_imp:
  assumes "length (filter P xs) + length (filter Q xs) < length xs"
  shows "\<exists>i < length xs. \<not> P (xs ! i) \<and> \<not> Q (xs ! i)"
proof (rule ccontr)
  assume "\<not> ?thesis"
  then have "\<forall>x \<in> set xs. P x \<or> Q x"
    by (metis in_set_conv_nth)
  then have "length xs \<le> length (filter P xs) + length (filter Q xs)"
  proof (induction xs)
    case (Cons a xs)
    then show ?case by auto
  qed simp
  with assms show False by simp
qed

lemma nth_eq_append_ConsD:
  "i < length xs \<Longrightarrow> xs = take i xs @ xs ! i # drop (Suc i) xs"
  by (rule id_take_nth_drop)

subsection \<open>Words\<close>

lemma unat_mask_eq_mod: "unat (w AND mask n :: 'a :: len word) = unat w mod 2 ^ n"
proof -
  have "unat (w AND mask n) = take_bit n (unat w)"
    by (simp only: unsigned_take_bit_eq flip: take_bit_eq_mask)
  then show ?thesis by (simp only: take_bit_eq_mod)
qed

lemma nat_and_pow2_minus_1: "(x :: nat) AND (2 ^ n - 1) = x mod 2 ^ n"
  by (metis mask_eq_exp_minus_1 take_bit_eq_mask take_bit_eq_mod)

lemma unat_drop_bit_less:
  fixes w :: "'a :: len word"
  assumes "n \<le> LENGTH('a)"
  shows "unat (drop_bit (LENGTH('a) - n) w) < 2 ^ n"
proof -
  have "unat w < 2 ^ (LENGTH('a) - n + n)" using assms by simp
  then have "unat w div 2 ^ (LENGTH('a) - n) < 2 ^ n"
    by (metis less_mult_imp_div_less mult.commute power_add)
  moreover have "unat (drop_bit (LENGTH('a) - n) w) = unat w div 2 ^ (LENGTH('a) - n)"
    by (simp only: unat_drop_bit_eq) (simp only: drop_bit_eq_div)
  ultimately show ?thesis by simp
qed

lemma unat_less_pow: "unat (w :: 'a :: len word) < 2 ^ LENGTH('a)"
  by (rule unsigned_less)

lemma unat_ucast_up:
  assumes "LENGTH('a :: len) \<le> LENGTH('b :: len)"
  shows "unat (ucast (w :: 'a word) :: 'b word) = unat w"
proof -
  have "unat w < 2 ^ LENGTH('b)"
    by (rule order_less_le_trans [OF unat_less_pow power_increasing [OF assms]]) simp
  then show ?thesis by (simp add: unsigned_ucast_eq take_bit_nat_eq_self)
qed

lemma unat_plus_1:
  assumes "Suc (unat w) < 2 ^ LENGTH('a)"
  shows "unat (w + 1 :: 'a :: len word) = Suc (unat w)"
  using assms by (simp add: unat_plus_if')

subsection \<open>An explicit store\<close>

text \<open>
  A store of nodes of one type: a map from addresses.  Reading or writing through the null
  pointer or through a freed address does not return.
\<close>

type_synonym 'n store = "rpointer \<Rightarrow> 'n option"

definition deref :: "'n store \<Rightarrow> rpointer \<Rightarrow> 'n option" where
  "deref h p = (if p = NULL then None else h p)"

definition assign :: "'n store \<Rightarrow> rpointer \<Rightarrow> ('n \<Rightarrow> 'n) \<Rightarrow> 'n store option" where
  "assign h p f = do { n \<leftarrow> deref h p; Some (h(p \<mapsto> f n)) }"

definition release :: "'n store \<Rightarrow> rpointer \<Rightarrow> 'n store option" where
  "release h p = do { n \<leftarrow> deref h p; Some (h(p := None)) }"

text \<open>The head pointer of a linked list with the nodes \<open>ps\<close>.\<close>

abbreviation head_of :: "rpointer list \<Rightarrow> rpointer" where
  "head_of ps \<equiv> hd (ps @ [NULL])"

lemma deref_in [simp, mem_simps]: "p \<noteq> NULL \<Longrightarrow> deref h p = h p"
  by (simp add: deref_def)

lemma deref_null [simp, mem_simps]: "deref h NULL = None"
  by (simp add: deref_def)

lemma deref_eq_Some: "deref h p = Some n \<longleftrightarrow> p \<noteq> NULL \<and> h p = Some n"
  by (simp add: deref_def)

lemma assign_in [simp, mem_simps]: "p \<noteq> NULL \<Longrightarrow> h p = Some n \<Longrightarrow> assign h p f = Some (h(p \<mapsto> f n))"
  by (simp add: assign_def)

lemma release_in [simp, mem_simps]: "p \<noteq> NULL \<Longrightarrow> h p = Some n \<Longrightarrow> release h p = Some (h(p := None))"
  by (simp add: release_def)

end
