(* ===== verification/RHash.thy ===== *)
theory RHash
  imports RPrelude
begin

text \<open>
  The part of the hash containers that \<^verbatim>\<open>rlib/data/rhashtable.c\<close> and
  \<^verbatim>\<open>rlib/data/rhashset.c\<close> have in common: the constants and the home bucket of
  \<^verbatim>\<open>rhash-private.h\<close>, the pre-built hash and equality functions of
  \<^verbatim>\<open>rhashfuncs.c\<close>, and the open-addressing probe loop over an array of buckets.

  The probe visits the bucket \<open>home + 1 + 2 + \<dots> + n\<close> modulo the table size in
  its \<open>n\<close>-th step.  The theory shows that for a table size that is a power of two these
  positions run through the whole table, so a probe ends as soon as one bucket is empty, and
  that the invariant \<open>oa_wf\<close> (stored hashes, reachability along the probe chain, one
  bucket per key, the counters) makes a probe find exactly the bucket of its key.
\<close>

section \<open>Constants and hash functions\<close>

definition R_HASH_EMPTY :: rsize where
  "R_HASH_EMPTY = RSIZE_MAX"

definition R_HASH_DELETED :: rsize where
  "R_HASH_DELETED = R_HASH_EMPTY - 1"

definition R_HASH_BUCKET_LIVE :: "rsize \<Rightarrow> bool" where
  "R_HASH_BUCKET_LIVE h = (h \<noteq> R_HASH_EMPTY \<and> h \<noteq> R_HASH_DELETED)"

definition R_HASH_CONTAINER_ALLOC_IDX_TO_SIZE :: "nat \<Rightarrow> nat" where
  "R_HASH_CONTAINER_ALLOC_IDX_TO_SIZE idx = push_bit (idx + 3) 1"

definition R_HASH_GOLDEN :: rsize where
  "R_HASH_GOLDEN = 0x9E3779B97F4A7C15"

definition R_HASH_HOME_BUCKET :: "rsize \<Rightarrow> nat \<Rightarrow> nat" where
  "R_HASH_HOME_BUCKET hash allocidx =
     unat (drop_bit (64 - (allocidx + 3)) (hash * R_HASH_GOLDEN))"

definition r_direct_hash :: "rpointer \<Rightarrow> rsize" where
  "r_direct_hash data = data"

text \<open>\<open>mem\<close> is the machine word stored at an address.\<close>

definition r_direct_equal :: "(rpointer \<Rightarrow> rsize) \<Rightarrow> rpointer \<Rightarrow> rpointer \<Rightarrow> bool" where
  "r_direct_equal mem a b = (mem a = mem b)"

text \<open>
  The characters of a string are bytes; the hash adds each as a \<^verbatim>\<open>signed char\<close>.
  A NUL-terminated string is given by its bytes from the pointer on, and \<^const>\<open>None\<close>
  stands for a null pointer.  A list without a zero byte stands for the string of these bytes
  with the terminator right behind them: the functions on terminated strings are defined for
  terminated strings only, and a run off the end of an unterminated array is not modelled.
\<close>

fun r_str_hash_loop :: "rsize \<Rightarrow> ruint8 list \<Rightarrow> rsize" where
  "r_str_hash_loop ret [] = ret"
| "r_str_hash_loop ret (c # cs) = r_str_hash_loop (push_bit 5 ret + ret + scast c) cs"

definition r_str_hash :: "ruint8 list option \<Rightarrow> rsize" where
  "r_str_hash data =
     (case data of None \<Rightarrow> 5381
      | Some s \<Rightarrow> r_str_hash_loop 5381 (takeWhile (\<lambda>c. c \<noteq> 0) s))"

definition r_str_hash_sized :: "ruint8 list option \<Rightarrow> int \<Rightarrow> rsize option" where
  "r_str_hash_sized data sz =
     (if sz > 0 then
        (case data of None \<Rightarrow> None
         | Some s \<Rightarrow> if sz \<le> int (length s)
                     then Some (r_str_hash_loop 5381 (take (nat sz) s)) else None)
      else if sz < 0 \<and> data \<noteq> None then Some (r_str_hash data)
      else Some 5381)"

definition r_str_equal :: "ruint8 list option \<Rightarrow> ruint8 list option \<Rightarrow> bool" where
  "r_str_equal a b =
     (case a of None \<Rightarrow> b = None
      | Some s \<Rightarrow> (case b of None \<Rightarrow> False
                  | Some t \<Rightarrow> takeWhile (\<lambda>c. c \<noteq> 0) s = takeWhile (\<lambda>c. c \<noteq> 0) t))"

section \<open>The probe loop\<close>

text \<open>
  The loop shared by the lookup and by the re-insertion of a resize: stop at the first bucket
  that \<open>stop\<close> accepts.  \<^const>\<open>None\<close> is a probe that never ends, leaves the
  array, or makes \<open>stop\<close> call a null function pointer.
\<close>

partial_function (option) oa_probe ::
  "('b \<Rightarrow> bool option) \<Rightarrow> 'b list \<Rightarrow> nat \<Rightarrow> nat \<Rightarrow> nat \<Rightarrow> nat option" where
  "oa_probe stop buckets allocidx idx step = do {
     b \<leftarrow> fetch buckets idx;
     s \<leftarrow> stop b;
     if s then Some idx
     else oa_probe stop buckets allocidx
            ((idx + Suc step) AND (R_HASH_CONTAINER_ALLOC_IDX_TO_SIZE allocidx - 1)) (Suc step)
   }"

text \<open>The bucket test of the lookup loop, for a key with hash \<open>hash\<close>.\<close>

definition oa_lookup_stop ::
  "('b \<Rightarrow> rsize) \<Rightarrow> ('b \<Rightarrow> rpointer) \<Rightarrow> (rpointer \<Rightarrow> rpointer \<Rightarrow> bool option)
   \<Rightarrow> rpointer \<Rightarrow> rsize \<Rightarrow> 'b \<Rightarrow> bool option" where
  "oa_lookup_stop bhash bkey keq key hash b =
     (if bhash b = R_HASH_EMPTY then Some True
      else if bhash b = hash then keq key (bkey b)
      else Some False)"

text \<open>
  The key comparison: a null equality function compares addresses, and when they differ the
  code goes on to call it.
\<close>

definition oa_key_equal ::
  "(rpointer \<Rightarrow> rpointer \<Rightarrow> bool) option \<Rightarrow> rpointer \<Rightarrow> rpointer \<Rightarrow> bool option" where
  "oa_key_equal equalfunc key bkey =
     (case equalfunc of
        None \<Rightarrow> if key = bkey then Some True else None
      | Some eq \<Rightarrow> Some (eq key bkey))"

text \<open>The re-insertion loop of a resize over the old buckets.\<close>

fun oa_rehash :: "('b \<Rightarrow> rsize) \<Rightarrow> 'b list \<Rightarrow> 'b list \<Rightarrow> nat \<Rightarrow> 'b list option" where
  "oa_rehash bhash [] nbuckets allocidx = Some nbuckets"
| "oa_rehash bhash (b # bs) nbuckets allocidx =
     (if \<not> R_HASH_BUCKET_LIVE (bhash b) then oa_rehash bhash bs nbuckets allocidx
      else do {
        idx \<leftarrow> oa_probe (\<lambda>c. Some (bhash c = R_HASH_EMPTY)) nbuckets allocidx
                 (R_HASH_HOME_BUCKET (bhash b) allocidx) 0;
        nbuckets' \<leftarrow> store nbuckets idx b;
        oa_rehash bhash bs nbuckets' allocidx
      })"

text \<open>The diagnostic loop: the occupied buckets a probe from \<open>idx\<close> crosses.\<close>

function oa_probe_len :: "('b \<Rightarrow> rsize) \<Rightarrow> 'b list \<Rightarrow> nat \<Rightarrow> nat \<Rightarrow> nat \<Rightarrow> nat \<Rightarrow> nat option" where
  "oa_probe_len bhash buckets allocidx idx step len =
     (case fetch buckets idx of
        None \<Rightarrow> None
      | Some b \<Rightarrow>
          if bhash b \<noteq> R_HASH_EMPTY \<and> len \<le> R_HASH_CONTAINER_ALLOC_IDX_TO_SIZE allocidx
          then oa_probe_len bhash buckets allocidx
                 ((idx + Suc step) AND (R_HASH_CONTAINER_ALLOC_IDX_TO_SIZE allocidx - 1))
                 (Suc step) (Suc len)
          else Some len)"
  by pat_completeness auto
termination
  by (relation "measure (\<lambda>(bhash, buckets, allocidx, idx, step, len).
        Suc (R_HASH_CONTAINER_ALLOC_IDX_TO_SIZE allocidx) - len)") auto

fun oa_max_probe :: "('b \<Rightarrow> rsize) \<Rightarrow> 'b list \<Rightarrow> nat \<Rightarrow> nat list \<Rightarrow> nat \<Rightarrow> nat option" where
  "oa_max_probe bhash buckets allocidx [] mx = Some mx"
| "oa_max_probe bhash buckets allocidx (h # hs) mx = do {
     len \<leftarrow> oa_probe_len bhash buckets allocidx h 0 0;
     oa_max_probe bhash buckets allocidx hs (if len > mx then len else mx)
   }"

declare oa_probe_len.simps [simp del]

section \<open>The invariant\<close>

text \<open>The bucket of the \<open>n\<close>-th probe step from \<open>home\<close>.\<close>

definition oa_pos :: "nat \<Rightarrow> nat \<Rightarrow> nat \<Rightarrow> nat" where
  "oa_pos allocidx home n = (home + n * (n + 1) div 2) mod 2 ^ (allocidx + 3)"

text \<open>The probe chain of a hash reaches bucket \<open>i\<close> before any empty bucket.\<close>

definition oa_reach :: "('b \<Rightarrow> rsize) \<Rightarrow> 'b list \<Rightarrow> nat \<Rightarrow> rsize \<Rightarrow> nat \<Rightarrow> bool" where
  "oa_reach bhash bs a hash i \<longleftrightarrow>
     (\<exists>n. oa_pos a (R_HASH_HOME_BUCKET hash a) n = i
        \<and> (\<forall>m < n. bhash (bs ! oa_pos a (R_HASH_HOME_BUCKET hash a) m) \<noteq> R_HASH_EMPTY))"

text \<open>
  The client's contract for a hash function and a key comparison on the keys \<open>K\<close> in use:
  comparing two keys with the same hash never calls a null function, the comparison is an
  equivalence, equal keys have equal hashes, and hashes avoid the two markers.
\<close>

definition oa_contract ::
  "(rpointer \<Rightarrow> rsize) \<Rightarrow> (rpointer \<Rightarrow> rpointer \<Rightarrow> bool option) \<Rightarrow> rpointer set \<Rightarrow> bool" where
  "oa_contract hf keq K \<longleftrightarrow>
     (\<forall>k. R_HASH_BUCKET_LIVE (hf k)) \<and>
     (\<forall>a \<in> K. \<forall>b \<in> K. hf a = hf b \<longrightarrow> keq a b \<noteq> None) \<and>
     (\<forall>a \<in> K. keq a a = Some True) \<and>
     (\<forall>a \<in> K. \<forall>b \<in> K. keq a b = Some True \<longrightarrow> keq b a = Some True \<and> hf a = hf b) \<and>
     (\<forall>a \<in> K. \<forall>b \<in> K. \<forall>c \<in> K. keq a b = Some True \<longrightarrow> keq b c = Some True \<longrightarrow>
        keq a c = Some True)"

text \<open>The invariant of the bucket array alone.\<close>

definition oa_core ::
  "('b \<Rightarrow> rsize) \<Rightarrow> ('b \<Rightarrow> rpointer) \<Rightarrow> (rpointer \<Rightarrow> rsize) \<Rightarrow> (rpointer \<Rightarrow> rpointer \<Rightarrow> bool option)
   \<Rightarrow> rpointer set \<Rightarrow> 'b list \<Rightarrow> nat \<Rightarrow> bool" where
  "oa_core bhash bkey hf keq K bs a \<longleftrightarrow>
     a \<le> 60 \<and> length bs = R_HASH_CONTAINER_ALLOC_IDX_TO_SIZE a \<and>
     (\<forall>i < length bs. R_HASH_BUCKET_LIVE (bhash (bs ! i)) \<longrightarrow>
        bkey (bs ! i) \<in> K \<and> bhash (bs ! i) = hf (bkey (bs ! i)) \<and>
        oa_reach bhash bs a (bhash (bs ! i)) i) \<and>
     (\<forall>i < length bs. \<forall>j < length bs.
        R_HASH_BUCKET_LIVE (bhash (bs ! i)) \<longrightarrow> R_HASH_BUCKET_LIVE (bhash (bs ! j)) \<longrightarrow>
        keq (bkey (bs ! i)) (bkey (bs ! j)) = Some True \<longrightarrow> i = j)"

definition oa_live :: "('b \<Rightarrow> rsize) \<Rightarrow> 'b list \<Rightarrow> nat" where
  "oa_live bhash bs = length (filter (\<lambda>b. R_HASH_BUCKET_LIVE (bhash b)) bs)"

definition oa_tombs :: "('b \<Rightarrow> rsize) \<Rightarrow> 'b list \<Rightarrow> nat" where
  "oa_tombs bhash bs = length (filter (\<lambda>b. bhash b = R_HASH_DELETED) bs)"

text \<open>The load at which an insertion rebuilds the table: three quarters of its buckets.\<close>

definition oa_limit :: "nat \<Rightarrow> nat" where
  "oa_limit a = R_HASH_CONTAINER_ALLOC_IDX_TO_SIZE a
     - drop_bit 2 (R_HASH_CONTAINER_ALLOC_IDX_TO_SIZE a)"

text \<open>The invariant of a table with its two counters.\<close>

definition oa_wf ::
  "('b \<Rightarrow> rsize) \<Rightarrow> ('b \<Rightarrow> rpointer) \<Rightarrow> (rpointer \<Rightarrow> rsize) \<Rightarrow> (rpointer \<Rightarrow> rpointer \<Rightarrow> bool option)
   \<Rightarrow> rpointer set \<Rightarrow> 'b list \<Rightarrow> nat \<Rightarrow> nat \<Rightarrow> nat \<Rightarrow> bool" where
  "oa_wf bhash bkey hf keq K bs a sz tombs \<longleftrightarrow>
     oa_core bhash bkey hf keq K bs a \<and>
     sz = oa_live bhash bs \<and> tombs = oa_tombs bhash bs \<and> sz + tombs \<le> oa_limit a"

text \<open>The entries of a table: its live buckets, and the one (if any) that holds a key.\<close>

definition oa_entries :: "('b \<Rightarrow> rsize) \<Rightarrow> 'b list \<Rightarrow> 'b set" where
  "oa_entries bhash bs = {b \<in> set bs. R_HASH_BUCKET_LIVE (bhash b)}"

definition oa_find ::
  "('b \<Rightarrow> rsize) \<Rightarrow> ('b \<Rightarrow> rpointer) \<Rightarrow> (rpointer \<Rightarrow> rpointer \<Rightarrow> bool option)
   \<Rightarrow> 'b list \<Rightarrow> rpointer \<Rightarrow> 'b option" where
  "oa_find bhash bkey keq bs k =
     find (\<lambda>b. R_HASH_BUCKET_LIVE (bhash b) \<and> keq k (bkey b) = Some True) bs"

section \<open>Sizes and markers\<close>

lemma alloc_size_pow2: "R_HASH_CONTAINER_ALLOC_IDX_TO_SIZE a = 2 ^ (a + 3)"
  by (simp add: R_HASH_CONTAINER_ALLOC_IDX_TO_SIZE_def push_bit_eq_mult)

lemma oa_limit_eq: "oa_limit a = 6 * 2 ^ a"
  by (simp add: oa_limit_def alloc_size_pow2 drop_bit_eq_div power_add)

lemma oa_limit_less: "oa_limit a < R_HASH_CONTAINER_ALLOC_IDX_TO_SIZE a"
  by (simp add: oa_limit_eq alloc_size_pow2 power_add)

lemma markers_distinct [simp]: "R_HASH_EMPTY \<noteq> R_HASH_DELETED" "R_HASH_DELETED \<noteq> R_HASH_EMPTY"
  by (simp_all add: R_HASH_EMPTY_def R_HASH_DELETED_def)

lemma markers_not_live [simp]:
  "\<not> R_HASH_BUCKET_LIVE R_HASH_EMPTY" "\<not> R_HASH_BUCKET_LIVE R_HASH_DELETED"
  by (simp_all add: R_HASH_BUCKET_LIVE_def)

lemma live_not_marker:
  "R_HASH_BUCKET_LIVE h \<Longrightarrow> h \<noteq> R_HASH_EMPTY \<and> h \<noteq> R_HASH_DELETED"
  by (simp add: R_HASH_BUCKET_LIVE_def)

lemma home_bucket_less: "a \<le> 60 \<Longrightarrow> R_HASH_HOME_BUCKET h a < 2 ^ (a + 3)"
  using unat_drop_bit_less [of "a + 3" "h * R_HASH_GOLDEN"]
  by (simp add: R_HASH_HOME_BUCKET_def)

lemma r_str_equal_hash: "r_str_equal a b \<Longrightarrow> r_str_hash a = r_str_hash b"
  by (auto simp: r_str_equal_def r_str_hash_def split: option.splits)

lemma r_str_equal_equiv:
  "r_str_equal a a" "r_str_equal a b \<Longrightarrow> r_str_equal b a"
  "r_str_equal a b \<Longrightarrow> r_str_equal b c \<Longrightarrow> r_str_equal a c"
  by (auto simp: r_str_equal_def split: option.splits)

section \<open>Triangular probing visits every bucket\<close>

lemma mod_add_left_cancel_nat:
  fixes x y c d :: nat
  assumes "(d + x) mod c = (d + y) mod c"
  shows "x mod c = y mod c"
proof -
  have "(int d + int x) mod int c = (int d + int y) mod int c"
    using assms by (metis of_nat_add zmod_int)
  then have "(int d + int x - int d) mod int c = (int d + int y - int d) mod int c"
    by (rule mod_diff_cong) simp
  then show ?thesis by (simp flip: zmod_int)
qed

lemma pow2_dvd_odd_mult:
  fixes x y :: nat
  assumes "2 ^ k dvd x * y" and "odd y"
  shows "2 ^ k dvd x"
proof -
  have "coprime (2 ^ k) y" using assms(2) by (simp add: coprime_power_left_iff)
  with assms(1) show ?thesis by (simp add: coprime_dvd_mult_left_iff)
qed

lemma triangular_inj:
  fixes m n :: nat
  assumes "m < n" and "n < 2 ^ k"
  shows "m * (m + 1) div 2 mod 2 ^ k \<noteq> n * (n + 1) div 2 mod 2 ^ k"
proof
  assume eq: "m * (m + 1) div 2 mod 2 ^ k = n * (n + 1) div 2 mod 2 ^ k"
  have le: "m * (m + 1) div 2 \<le> n * (n + 1) div 2"
    using assms(1) by (intro div_le_mono mult_le_mono) auto
  have "2 ^ k dvd n * (n + 1) div 2 - m * (m + 1) div 2"
    using mod_eq_dvd_iff_nat [OF le, of "2 ^ k"] eq by metis
  then have "2 * 2 ^ k dvd 2 * (n * (n + 1) div 2 - m * (m + 1) div 2)"
    by (rule mult_dvd_mono [OF dvd_refl])
  moreover have "2 * (n * (n + 1) div 2 - m * (m + 1) div 2) = n * (n + 1) - m * (m + 1)"
    by (simp add: diff_mult_distrib2)
  moreover have "n * (n + 1) - m * (m + 1) = (n - m) * (n + m + 1)"
  proof -
    obtain d where "n = m + d" using assms(1) by (metis less_imp_add_positive)
    then show ?thesis by (simp add: algebra_simps)
  qed
  ultimately have dvd: "2 ^ Suc k dvd (n - m) * (n + m + 1)" by (metis power_Suc)
  show False
  proof (cases "even (n - m)")
    case True
    with assms(1) have "odd (n + m + 1)" by simp
    with dvd have "2 ^ Suc k dvd n - m" by (rule pow2_dvd_odd_mult)
    then have "2 ^ Suc k \<le> n - m" using assms(1) by (intro dvd_imp_le) auto
    with assms(2) show False by simp
  next
    case False
    from dvd have "2 ^ Suc k dvd (n + m + 1) * (n - m)" by (simp add: mult.commute)
    then have "2 ^ Suc k dvd n + m + 1" using False by (rule pow2_dvd_odd_mult)
    then have "2 ^ Suc k \<le> n + m + 1" by (intro dvd_imp_le) auto
    with assms show False by simp
  qed
qed

lemma oa_pos_less: "oa_pos a home n < 2 ^ (a + 3)"
  by (simp add: oa_pos_def)

lemma oa_pos_0: "home < 2 ^ (a + 3) \<Longrightarrow> oa_pos a home 0 = home"
  by (simp add: oa_pos_def)

lemma oa_pos_Suc:
  "(oa_pos a home n + Suc n) AND (R_HASH_CONTAINER_ALLOC_IDX_TO_SIZE a - 1) = oa_pos a home (Suc n)"
proof -
  have "Suc n * (Suc n + 1) div 2 = n * (n + 1) div 2 + Suc n"
  proof -
    have "Suc n * (Suc n + 1) = n * (n + 1) + 2 * Suc n" by (simp add: algebra_simps)
    then show ?thesis by simp
  qed
  then show ?thesis
    unfolding alloc_size_pow2 nat_and_pow2_minus_1 oa_pos_def
    by (metis add.assoc mod_add_left_eq)
qed

lemma oa_pos_inj: "inj_on (oa_pos a home) {..< 2 ^ (a + 3)}"
proof (rule linorder_inj_onI)
  fix m n :: nat
  assume "m < n" and n: "n \<in> {..< 2 ^ (a + 3)}"
  then have "m * (m + 1) div 2 mod 2 ^ (a + 3) \<noteq> n * (n + 1) div 2 mod 2 ^ (a + 3)"
    by (intro triangular_inj) auto
  then show "oa_pos a home m \<noteq> oa_pos a home n"
    unfolding oa_pos_def by (metis mod_add_left_cancel_nat)
qed auto


lemma oa_pos_surj:
  assumes "i < 2 ^ (a + 3)"
  shows "\<exists>n < 2 ^ (a + 3). oa_pos a home n = i"
proof -
  have "oa_pos a home ` {..< 2 ^ (a + 3)} = {..< 2 ^ (a + 3)}"
    using oa_pos_less by (intro endo_inj_surj oa_pos_inj) auto
  with assms show ?thesis by (metis imageE lessThan_iff)
qed

lemma oa_probe_advance:
  assumes "length bs = 2 ^ (a + 3)"
    and "\<forall>m < n. stop (bs ! oa_pos a home m) = Some False"
  shows "oa_probe stop bs a (oa_pos a home 0) 0 = oa_probe stop bs a (oa_pos a home n) n"
  using assms(2)
proof (induction n)
  case (Suc n)
  have "oa_probe stop bs a (oa_pos a home n) n = oa_probe stop bs a (oa_pos a home (Suc n)) (Suc n)"
    using Suc.prems assms(1) oa_pos_less [of a home n]
    by (subst oa_probe.simps) (simp only: oa_pos_Suc, simp)
  with Suc show ?case by simp
qed simp

text \<open>
  A probe over a table that has a bucket to stop at returns the first such bucket along
  the probe chain.
\<close>

lemma oa_probe_finds:
  assumes len: "length bs = 2 ^ (a + 3)" and home: "home < 2 ^ (a + 3)"
    and defined: "\<forall>i < length bs. stop (bs ! i) \<noteq> None"
    and ex: "\<exists>i < length bs. stop (bs ! i) = Some True"
  obtains n where "oa_probe stop bs a home 0 = Some (oa_pos a home n)"
    and "stop (bs ! oa_pos a home n) = Some True"
    and "\<forall>m < n. stop (bs ! oa_pos a home m) = Some False"
proof -
  from ex len obtain k where "stop (bs ! oa_pos a home k) = Some True"
    using oa_pos_surj by metis
  then obtain n where n: "stop (bs ! oa_pos a home n) = Some True"
    and least: "\<forall>m < n. stop (bs ! oa_pos a home m) \<noteq> Some True"
    using exists_least_iff [of "\<lambda>n. stop (bs ! oa_pos a home n) = Some True"] by blast
  have before: "\<forall>m < n. stop (bs ! oa_pos a home m) = Some False"
  proof (intro allI impI)
    fix m assume "m < n"
    moreover have "stop (bs ! oa_pos a home m) \<noteq> None"
      using defined len oa_pos_less by metis
    ultimately show "stop (bs ! oa_pos a home m) = Some False"
      using least by auto
  qed
  have "oa_probe stop bs a home 0 = oa_probe stop bs a (oa_pos a home n) n"
    using oa_probe_advance [OF len before] oa_pos_0 [OF home] by simp
  also have "\<dots> = Some (oa_pos a home n)"
    using n len oa_pos_less [of a home n] by (subst oa_probe.simps) simp
  finally show ?thesis using n before that by blast
qed

section \<open>Lookup in a well-formed table\<close>

lemma oa_coreD:
  assumes "oa_core bhash bkey hf keq K bs a"
  shows "a \<le> 60" and "length bs = 2 ^ (a + 3)"
    and "\<And>i. i < length bs \<Longrightarrow> R_HASH_BUCKET_LIVE (bhash (bs ! i)) \<Longrightarrow>
           bkey (bs ! i) \<in> K \<and> bhash (bs ! i) = hf (bkey (bs ! i)) \<and>
           oa_reach bhash bs a (bhash (bs ! i)) i"
    and "\<And>i j. i < length bs \<Longrightarrow> j < length bs \<Longrightarrow> R_HASH_BUCKET_LIVE (bhash (bs ! i)) \<Longrightarrow>
           R_HASH_BUCKET_LIVE (bhash (bs ! j)) \<Longrightarrow>
           keq (bkey (bs ! i)) (bkey (bs ! j)) = Some True \<Longrightarrow> i = j"
  using assms unfolding oa_core_def alloc_size_pow2 by blast+

lemma oa_contractD:
  assumes "oa_contract hf keq K"
  shows "R_HASH_BUCKET_LIVE (hf k)"
    and "a \<in> K \<Longrightarrow> b \<in> K \<Longrightarrow> hf a = hf b \<Longrightarrow> keq a b \<noteq> None"
    and "a \<in> K \<Longrightarrow> keq a a = Some True"
    and "a \<in> K \<Longrightarrow> b \<in> K \<Longrightarrow> keq a b = Some True \<Longrightarrow> keq b a = Some True"
    and "a \<in> K \<Longrightarrow> b \<in> K \<Longrightarrow> keq a b = Some True \<Longrightarrow> hf a = hf b"
    and "a \<in> K \<Longrightarrow> b \<in> K \<Longrightarrow> c \<in> K \<Longrightarrow> keq a b = Some True \<Longrightarrow> keq b c = Some True \<Longrightarrow>
           keq a c = Some True"
  using assms unfolding oa_contract_def by blast+

text \<open>
  A probe for a key that cannot be compared with the stored keys of its hash does not return
  once there is such a key.
\<close>

lemma oa_probe_stuck:
  assumes core: "oa_core bhash bkey hf keq K bs a"
    and i: "i < length bs" "R_HASH_BUCKET_LIVE (bhash (bs ! i))" "bhash (bs ! i) = hash"
    and none: "\<And>j. j < length bs \<Longrightarrow> bhash (bs ! j) = hash \<Longrightarrow> keq key (bkey (bs ! j)) = None"
  shows "oa_probe (oa_lookup_stop bhash bkey keq key hash) bs a (R_HASH_HOME_BUCKET hash a) 0 = None"
proof -
  note D = oa_coreD [OF core]
  let ?home = "R_HASH_HOME_BUCKET hash a"
  let ?P = "\<lambda>m. bhash (bs ! oa_pos a ?home m) = hash"
  from D(3) [OF i(1,2)] obtain n where
    "oa_pos a ?home n = i" and n2: "\<forall>m < n. bhash (bs ! oa_pos a ?home m) \<noteq> R_HASH_EMPTY"
    unfolding oa_reach_def i(3) by blast
  then have n: "?P n" using i(3) by simp
  obtain l where l: "?P l" "\<And>m. m < l \<Longrightarrow> \<not> ?P m"
    using LeastI [of ?P, OF n] not_less_Least [of _ ?P] by blast
  have "l \<le> n" using l(2) [of n] n by linarith
  then have "\<forall>m < l. oa_lookup_stop bhash bkey keq key hash (bs ! oa_pos a ?home m) = Some False"
    using l(2) n2 by (simp add: oa_lookup_stop_def)
  from oa_probe_advance [OF D(2) this] home_bucket_less [OF D(1), of hash]
  have "oa_probe (oa_lookup_stop bhash bkey keq key hash) bs a ?home 0
      = oa_probe (oa_lookup_stop bhash bkey keq key hash) bs a (oa_pos a ?home l) l"
    by (simp add: oa_pos_0)
  also have "\<dots> = None"
  proof -
    have pos: "oa_pos a ?home l < length bs" using oa_pos_less [of a ?home l] D(2) by simp
    have "hash \<noteq> R_HASH_EMPTY" using live_not_marker [of hash] i(2,3) by auto
    then have "oa_lookup_stop bhash bkey keq key hash (bs ! oa_pos a ?home l) = None"
      using none [OF pos l(1)] l(1) by (simp add: oa_lookup_stop_def)
    with pos show ?thesis by (subst oa_probe.simps) simp
  qed
  finally show ?thesis .
qed

lemma oa_has_empty:
  assumes "oa_live bhash bs + oa_tombs bhash bs < length bs"
  shows "\<exists>i < length bs. bhash (bs ! i) = R_HASH_EMPTY"
  using count_all_imp [OF assms [unfolded oa_live_def oa_tombs_def]]
  by (auto simp: R_HASH_BUCKET_LIVE_def)

lemma oa_wf_has_empty:
  assumes "oa_wf bhash bkey hf keq K bs a sz tombs"
  shows "\<exists>i < length bs. bhash (bs ! i) = R_HASH_EMPTY"
  using assms oa_limit_less [of a]
  by (intro oa_has_empty) (auto simp: oa_wf_def oa_core_def)

text \<open>
  The lookup loop stops either at the bucket that holds the key, or, when no live bucket does,
  at an empty bucket that the probe chain of the key's hash reaches.
\<close>

lemma oa_lookup_cases:
  assumes core: "oa_core bhash bkey hf keq K bs a" and con: "oa_contract hf keq K"
    and k: "k \<in> K" and empty: "\<exists>i < length bs. bhash (bs ! i) = R_HASH_EMPTY"
  obtains (found) i where
      "oa_probe (oa_lookup_stop bhash bkey keq k (hf k)) bs a (R_HASH_HOME_BUCKET (hf k) a) 0 = Some i"
      "i < length bs" "bhash (bs ! i) = hf k" "keq k (bkey (bs ! i)) = Some True"
  | (absent) i where
      "oa_probe (oa_lookup_stop bhash bkey keq k (hf k)) bs a (R_HASH_HOME_BUCKET (hf k) a) 0 = Some i"
      "i < length bs" "bhash (bs ! i) = R_HASH_EMPTY" "oa_reach bhash bs a (hf k) i"
      "\<forall>j < length bs. R_HASH_BUCKET_LIVE (bhash (bs ! j)) \<longrightarrow> keq k (bkey (bs ! j)) \<noteq> Some True"
proof -
  let ?stop = "oa_lookup_stop bhash bkey keq k (hf k)" and ?home = "R_HASH_HOME_BUCKET (hf k) a"
  note D = oa_coreD [OF core] and C = oa_contractD [OF con]
  have live_k: "hf k \<noteq> R_HASH_EMPTY" using C(1) [of k] live_not_marker by blast
  have defined: "\<forall>i < length bs. ?stop (bs ! i) \<noteq> None"
  proof (intro allI impI)
    fix i assume i: "i < length bs"
    show "?stop (bs ! i) \<noteq> None"
    proof (cases "bhash (bs ! i) = hf k")
      case True
      with i D(3) C(1) have "bkey (bs ! i) \<in> K" "hf (bkey (bs ! i)) = hf k" by metis+
      with C(2) k show ?thesis by (auto simp: oa_lookup_stop_def)
    qed (auto simp: oa_lookup_stop_def)
  qed
  have ex: "\<exists>i < length bs. ?stop (bs ! i) = Some True"
    using empty by (auto simp: oa_lookup_stop_def)
  obtain n where probe: "oa_probe ?stop bs a ?home 0 = Some (oa_pos a ?home n)"
    and at: "?stop (bs ! oa_pos a ?home n) = Some True"
    and before: "\<forall>m < n. ?stop (bs ! oa_pos a ?home m) = Some False"
    using oa_probe_finds [OF D(2) home_bucket_less [OF D(1)] defined ex] by blast
  have lt: "oa_pos a ?home n < length bs" using oa_pos_less D(2) by simp
  show ?thesis
  proof (cases "bhash (bs ! oa_pos a ?home n) = R_HASH_EMPTY")
    case False
    then have "bhash (bs ! oa_pos a ?home n) = hf k" "keq k (bkey (bs ! oa_pos a ?home n)) = Some True"
      using at by (auto simp: oa_lookup_stop_def split: if_splits)
    with probe lt show ?thesis by (rule found)
  next
    case True
    have occupied: "\<forall>m < n. bhash (bs ! oa_pos a ?home m) \<noteq> R_HASH_EMPTY"
      using before by (auto simp: oa_lookup_stop_def split: if_splits)
    then have reach: "oa_reach bhash bs a (hf k) (oa_pos a ?home n)"
      unfolding oa_reach_def by blast
    have none: "\<forall>j < length bs. R_HASH_BUCKET_LIVE (bhash (bs ! j)) \<longrightarrow>
        keq k (bkey (bs ! j)) \<noteq> Some True"
    proof (intro allI impI notI)
      fix j assume j: "j < length bs" and lj: "R_HASH_BUCKET_LIVE (bhash (bs ! j))"
        and eq: "keq k (bkey (bs ! j)) = Some True"
      from D(3) [OF j lj] have hj: "bkey (bs ! j) \<in> K" "bhash (bs ! j) = hf (bkey (bs ! j))" 
        and "oa_reach bhash bs a (bhash (bs ! j)) j" by blast+
      moreover have hk: "bhash (bs ! j) = hf k" using C(5) [OF k hj(1) eq] hj by simp
      ultimately obtain m where m: "oa_pos a ?home m = j"
        and "\<forall>l < m. bhash (bs ! oa_pos a ?home l) \<noteq> R_HASH_EMPTY"
        by (auto simp: oa_reach_def)
      with True have "m \<le> n" by (meson not_less)
      moreover have "m \<noteq> n" using m True hk live_k by auto
      ultimately have "?stop (bs ! j) = Some False" using before m by auto
      with hk eq live_k show False by (simp add: oa_lookup_stop_def)
    qed
    from probe lt True reach none show ?thesis by (rule absent)
  qed
qed


section \<open>Changing one bucket\<close>

lemma oa_reach_update:
  assumes "oa_reach bhash bs a h j" and "bhash b \<noteq> R_HASH_EMPTY"
  shows "oa_reach bhash (bs[i := b]) a h j"
proof -
  have "bhash (bs[i := b] ! p) \<noteq> R_HASH_EMPTY" if "bhash (bs ! p) \<noteq> R_HASH_EMPTY" for p
    using that assms(2) by (cases "p = i \<and> i < length bs") (auto simp: nth_list_update list_update_beyond)
  with assms(1) show ?thesis unfolding oa_reach_def by blast
qed

lemma oa_core_put:
  assumes core: "oa_core bhash bkey hf keq K bs a" and con: "oa_contract hf keq K"
    and i: "i < length bs" "\<not> R_HASH_BUCKET_LIVE (bhash (bs ! i))"
    and b: "bhash b = hf (bkey b)" "bkey b \<in> K" "oa_reach bhash bs a (hf (bkey b)) i"
    and new: "\<forall>j < length bs. R_HASH_BUCKET_LIVE (bhash (bs ! j)) \<longrightarrow>
                keq (bkey b) (bkey (bs ! j)) \<noteq> Some True"
  shows "oa_core bhash bkey hf keq K (bs[i := b]) a"
proof -
  note D = oa_coreD [OF core] and C = oa_contractD [OF con]
  have live: "R_HASH_BUCKET_LIVE (bhash b)" using C(1) b(1) by simp
  then have ne: "bhash b \<noteq> R_HASH_EMPTY" using live_not_marker by blast
  have new': "keq (bkey (bs ! j)) (bkey b) \<noteq> Some True"
    if "j < length bs" "R_HASH_BUCKET_LIVE (bhash (bs ! j))" for j
    using new that C(4) D(3) b(2) by blast
  show ?thesis
    unfolding oa_core_def
  proof (intro conjI allI impI)
    fix p q assume "p < length (bs[i := b])" "q < length (bs[i := b])"
      and "R_HASH_BUCKET_LIVE (bhash (bs[i := b] ! p))" "R_HASH_BUCKET_LIVE (bhash (bs[i := b] ! q))"
      and "keq (bkey (bs[i := b] ! p)) (bkey (bs[i := b] ! q)) = Some True"
    then show "p = q"
      using new new' D(4) i by (cases "p = i"; cases "q = i") auto
  qed (use D b i ne in \<open>auto simp: alloc_size_pow2 nth_list_update oa_reach_update\<close>)
qed

lemma oa_core_replace:
  assumes core: "oa_core bhash bkey hf keq K bs a" and con: "oa_contract hf keq K"
    and i: "i < length bs" "R_HASH_BUCKET_LIVE (bhash (bs ! i))"
    and b: "bhash b = bhash (bs ! i)" "bkey b \<in> K" "keq (bkey b) (bkey (bs ! i)) = Some True"
  shows "oa_core bhash bkey hf keq K (bs[i := b]) a"
proof -
  note D = oa_coreD [OF core] and C = oa_contractD [OF con]
  have ki: "bkey (bs ! i) \<in> K" "bhash (bs ! i) = hf (bkey (bs ! i))" using D(3) [OF i] by blast+
  have ne: "bhash b \<noteq> R_HASH_EMPTY" using i(2) b(1) live_not_marker by metis
  have hb: "bhash b = hf (bkey b)" using C(5) [OF b(2) ki(1) b(3)] b(1) ki by simp
  have sym_i: "keq (bkey (bs ! i)) (bkey b) = Some True" using C(4) [OF b(2) ki(1) b(3)] .
  have distinct_i: "j = i" if "j < length bs" "R_HASH_BUCKET_LIVE (bhash (bs ! j))"
    "keq (bkey b) (bkey (bs ! j)) = Some True \<or> keq (bkey (bs ! j)) (bkey b) = Some True" for j
  proof -
    have kj: "bkey (bs ! j) \<in> K" using D(3) that by blast
    with that(3) C(4) b(2) have "keq (bkey b) (bkey (bs ! j)) = Some True" by blast
    with sym_i C(6) ki(1) b(2) kj have "keq (bkey (bs ! i)) (bkey (bs ! j)) = Some True" by blast
    with D(4) i that show ?thesis by blast
  qed
  show ?thesis
    unfolding oa_core_def
  proof (intro conjI allI impI)
    fix p q assume "p < length (bs[i := b])" "q < length (bs[i := b])"
      and "R_HASH_BUCKET_LIVE (bhash (bs[i := b] ! p))" "R_HASH_BUCKET_LIVE (bhash (bs[i := b] ! q))"
      and "keq (bkey (bs[i := b] ! p)) (bkey (bs[i := b] ! q)) = Some True"
    then show "p = q"
      using D(4) [of p q] i by (cases "p = i"; cases "q = i") (auto dest: distinct_i)
  qed (use D b i hb ne in \<open>auto simp: alloc_size_pow2 nth_list_update oa_reach_update\<close>)
qed

lemma oa_core_delete:
  assumes core: "oa_core bhash bkey hf keq K bs a"
    and i: "i < length bs" and b: "bhash b = R_HASH_DELETED"
  shows "oa_core bhash bkey hf keq K (bs[i := b]) a"
proof -
  note D = oa_coreD [OF core]
  have ne: "bhash b \<noteq> R_HASH_EMPTY" using b by simp
  show ?thesis
    unfolding oa_core_def
  proof (intro conjI allI impI)
    fix p q assume "p < length (bs[i := b])" "q < length (bs[i := b])"
      and "R_HASH_BUCKET_LIVE (bhash (bs[i := b] ! p))" "R_HASH_BUCKET_LIVE (bhash (bs[i := b] ! q))"
      and "keq (bkey (bs[i := b] ! p)) (bkey (bs[i := b] ! q)) = Some True"
    then show "p = q"
      using D(4) i b by (cases "p = i"; cases "q = i") auto
  qed (use D b i ne in \<open>auto simp: alloc_size_pow2 nth_list_update oa_reach_update\<close>)
qed

lemma oa_count_update:
  assumes "i < length bs"
  shows "oa_live bhash (bs[i := b]) + (if R_HASH_BUCKET_LIVE (bhash (bs ! i)) then 1 else 0)
         = oa_live bhash bs + (if R_HASH_BUCKET_LIVE (bhash b) then 1 else 0)"
    and "oa_tombs bhash (bs[i := b]) + (if bhash (bs ! i) = R_HASH_DELETED then 1 else 0)
         = oa_tombs bhash bs + (if bhash b = R_HASH_DELETED then 1 else 0)"
  unfolding oa_live_def oa_tombs_def using length_filter_update [OF assms] by blast+

section \<open>Entries\<close>

lemma oa_entries_iff:
  "b \<in> oa_entries bhash bs \<longleftrightarrow> (\<exists>i < length bs. bs ! i = b \<and> R_HASH_BUCKET_LIVE (bhash b))"
  by (auto simp: oa_entries_def in_set_conv_nth)

lemma oa_entries_put:
  assumes "i < length bs" "\<not> R_HASH_BUCKET_LIVE (bhash (bs ! i))" "R_HASH_BUCKET_LIVE (bhash b)"
  shows "oa_entries bhash (bs[i := b]) = insert b (oa_entries bhash bs)"
  using assms by (fastforce simp: oa_entries_iff nth_list_update)

lemma oa_entry_key:
  assumes "oa_core bhash bkey hf keq K bs a" and "b \<in> oa_entries bhash bs"
  shows "bkey b \<in> K" and "bhash b = hf (bkey b)"
  using oa_coreD(3) [OF assms(1)] assms(2) by (auto simp: oa_entries_iff)

lemma oa_find_None:
  "oa_find bhash bkey keq bs k = None
     \<longleftrightarrow> (\<forall>b \<in> oa_entries bhash bs. keq k (bkey b) \<noteq> Some True)"
  by (auto simp: oa_find_def find_None_iff oa_entries_def)

text \<open>In a well-formed table a key has at most one entry, and the search finds it.\<close>

lemma oa_find_iff:
  assumes core: "oa_core bhash bkey hf keq K bs a" and con: "oa_contract hf keq K" and k: "k \<in> K"
  shows "oa_find bhash bkey keq bs k = Some b
     \<longleftrightarrow> b \<in> oa_entries bhash bs \<and> keq k (bkey b) = Some True"
proof
  assume "oa_find bhash bkey keq bs k = Some b"
  then show "b \<in> oa_entries bhash bs \<and> keq k (bkey b) = Some True"
    by (auto simp: oa_find_def find_Some_iff oa_entries_iff)
next
  note D = oa_coreD [OF core] and C = oa_contractD [OF con]
  assume entry: "b \<in> oa_entries bhash bs \<and> keq k (bkey b) = Some True"
  then obtain i where i: "i < length bs" "bs ! i = b" "R_HASH_BUCKET_LIVE (bhash b)"
    and eq: "keq k (bkey b) = Some True" by (auto simp: oa_entries_iff)
  obtain c where c: "oa_find bhash bkey keq bs k = Some c"
    using oa_find_None [of bhash bkey keq bs k] entry by (cases "oa_find bhash bkey keq bs k") auto
  then obtain j where j: "j < length bs" "bs ! j = c" "R_HASH_BUCKET_LIVE (bhash c)"
    and eqc: "keq k (bkey c) = Some True"
    by (auto simp: oa_find_def find_Some_iff)
  have "bkey b \<in> K" "bkey c \<in> K" using D(3) i j by blast+
  then have "keq (bkey b) (bkey c) = Some True" using C(4) C(6) eq eqc k by blast
  then have "i = j" using D(4) i j by blast
  with c i j show "oa_find bhash bkey keq bs k = Some b" by simp
qed

lemma option_eqI: "(\<And>b. x = Some b \<longleftrightarrow> y = Some b) \<Longrightarrow> x = y"
  by (metis not_Some_eq)

lemma oa_find_cong:
  assumes "oa_core bhash bkey hf keq K bs a" "oa_core bhash bkey hf keq K bs' a'"
    and "oa_contract hf keq K" "k \<in> K" "oa_entries bhash bs' = oa_entries bhash bs"
  shows "oa_find bhash bkey keq bs' k = oa_find bhash bkey keq bs k"
  by (rule option_eqI) (simp add: oa_find_iff [OF assms(1,3,4)] oa_find_iff [OF assms(2,3,4)] assms(5))


section \<open>Rebuilding a table\<close>

text \<open>A fresh array of empty buckets is a well-formed table without entries.\<close>

lemma oa_core_fresh:
  assumes "a \<le> 60" and "bhash e = R_HASH_EMPTY"
  shows "oa_core bhash bkey hf keq K (replicate (R_HASH_CONTAINER_ALLOC_IDX_TO_SIZE a) e) a"
    and "oa_live bhash (replicate n e) = 0" and "oa_tombs bhash (replicate n e) = 0"
    and "oa_entries bhash (replicate n e) = {}"
  using assms by (auto simp: oa_core_def oa_live_def oa_tombs_def oa_entries_def)

text \<open>The probe for a free bucket.\<close>

lemma oa_probe_empty:
  assumes core: "oa_core bhash bkey hf keq K bs a"
    and room: "oa_live bhash bs + oa_tombs bhash bs < length bs"
  obtains i where
    "oa_probe (\<lambda>c. Some (bhash c = R_HASH_EMPTY)) bs a (R_HASH_HOME_BUCKET h a) 0 = Some i"
    "i < length bs" "bhash (bs ! i) = R_HASH_EMPTY" "oa_reach bhash bs a h i"
proof -
  note D = oa_coreD [OF core]
  let ?home = "R_HASH_HOME_BUCKET h a" and ?stop = "\<lambda>c. Some (bhash c = R_HASH_EMPTY)"
  obtain n where "oa_probe ?stop bs a ?home 0 = Some (oa_pos a ?home n)"
    and "?stop (bs ! oa_pos a ?home n) = Some True"
    and "\<forall>m < n. ?stop (bs ! oa_pos a ?home m) = Some False"
    using oa_probe_finds [OF D(2) home_bucket_less [OF D(1)], of ?stop h] oa_has_empty [OF room]
    by auto
  moreover from this have "oa_reach bhash bs a h (oa_pos a ?home n)"
    unfolding oa_reach_def by auto
  ultimately show ?thesis
    using that oa_pos_less [of a ?home n] D(2) by auto
qed

definition oa_fresh_keys ::
  "('b \<Rightarrow> rsize) \<Rightarrow> ('b \<Rightarrow> rpointer) \<Rightarrow> (rpointer \<Rightarrow> rpointer \<Rightarrow> bool option) \<Rightarrow> 'b list \<Rightarrow> bool" where
  "oa_fresh_keys bhash bkey keq bs \<longleftrightarrow>
     sorted_wrt (\<lambda>b c. R_HASH_BUCKET_LIVE (bhash b) \<longrightarrow> R_HASH_BUCKET_LIVE (bhash c) \<longrightarrow>
       keq (bkey c) (bkey b) \<noteq> Some True) bs"

lemma oa_core_fresh_keys:
  assumes "oa_core bhash bkey hf keq K bs a"
  shows "oa_fresh_keys bhash bkey keq bs"
  unfolding oa_fresh_keys_def sorted_wrt_iff_nth_less
proof (intro allI impI notI)
  fix i j assume "i < j" "j < length bs" "R_HASH_BUCKET_LIVE (bhash (bs ! i))"
    "R_HASH_BUCKET_LIVE (bhash (bs ! j))" "keq (bkey (bs ! j)) (bkey (bs ! i)) = Some True"
  then have "j = i" using oa_coreD(4) [OF assms, of j i] by simp
  with \<open>i < j\<close> show False by simp
qed

lemma oa_rehash_correct:
  assumes con: "oa_contract hf keq K"
    and core: "oa_core bhash bkey hf keq K nbs a" and "oa_tombs bhash nbs = 0"
    and "\<forall>b \<in> oa_entries bhash bs. bkey b \<in> K \<and> bhash b = hf (bkey b)"
    and "\<forall>b \<in> oa_entries bhash bs. \<forall>c \<in> oa_entries bhash nbs. keq (bkey b) (bkey c) \<noteq> Some True"
    and "oa_fresh_keys bhash bkey keq bs"
    and "oa_live bhash nbs + oa_live bhash bs < length nbs"
  shows "\<exists>nbs'. oa_rehash bhash bs nbs a = Some nbs' \<and> oa_core bhash bkey hf keq K nbs' a \<and>
     oa_tombs bhash nbs' = 0 \<and> oa_live bhash nbs' = oa_live bhash nbs + oa_live bhash bs \<and>
     oa_entries bhash nbs' = oa_entries bhash nbs \<union> oa_entries bhash bs"
  using assms(2-)
proof (induction bs arbitrary: nbs)
  case Nil
  have "oa_live bhash [] = 0" "oa_entries bhash [] = {}" by (simp_all add: oa_live_def oa_entries_def)
  then show ?case using Nil.prems(1,2) by simp
next
  case (Cons b bs)
  have rest: "oa_entries bhash bs \<subseteq> oa_entries bhash (b # bs)" "oa_fresh_keys bhash bkey keq bs"
    using Cons.prems(5) by (auto simp: oa_entries_def oa_fresh_keys_def)
  show ?case
  proof (cases "R_HASH_BUCKET_LIVE (bhash b)")
    case False
    then have "oa_entries bhash (b # bs) = oa_entries bhash bs" "oa_live bhash (b # bs) = oa_live bhash bs"
      by (auto simp: oa_entries_def oa_live_def)
    then have "oa_entries bhash bs = oa_entries bhash (b # bs)" "oa_live bhash bs = oa_live bhash (b # bs)"
      by simp_all
    then have "\<exists>nbs'. oa_rehash bhash bs nbs a = Some nbs' \<and> oa_core bhash bkey hf keq K nbs' a \<and>
        oa_tombs bhash nbs' = 0 \<and> oa_live bhash nbs' = oa_live bhash nbs + oa_live bhash (b # bs) \<and>
        oa_entries bhash nbs' = oa_entries bhash nbs \<union> oa_entries bhash (b # bs)"
      using Cons.IH [OF Cons.prems(1,2) _ _ rest(2)] Cons.prems(3,4,6) by (simp only:)
    with False show ?thesis by (simp only: oa_rehash.simps if_True simp_thms)
  next
    case True
    then have entries: "oa_entries bhash (b # bs) = insert b (oa_entries bhash bs)"
      and live: "oa_live bhash (b # bs) = Suc (oa_live bhash bs)"
      by (auto simp: oa_entries_def oa_live_def)
    have b: "bkey b \<in> K" "bhash b = hf (bkey b)" using Cons.prems(3) entries by auto
    obtain i where i: "oa_probe (\<lambda>c. Some (bhash c = R_HASH_EMPTY)) nbs a (R_HASH_HOME_BUCKET (bhash b) a) 0 = Some i"
        "i < length nbs" "bhash (nbs ! i) = R_HASH_EMPTY" "oa_reach bhash nbs a (bhash b) i"
      using oa_probe_empty [OF Cons.prems(1), of "bhash b"] Cons.prems(2,6) live by auto
    have new: "\<forall>j < length nbs. R_HASH_BUCKET_LIVE (bhash (nbs ! j)) \<longrightarrow>
        keq (bkey b) (bkey (nbs ! j)) \<noteq> Some True"
      using Cons.prems(4) entries by (auto simp: oa_entries_def)
    let ?nbs = "nbs[i := b]"
    have core': "oa_core bhash bkey hf keq K ?nbs a"
      using oa_core_put [OF Cons.prems(1) con i(2) _ b(2,1)] i new b by auto
    have cnt: "oa_live bhash ?nbs = Suc (oa_live bhash nbs)" "oa_tombs bhash ?nbs = 0"
      using oa_count_update [OF i(2), of bhash b] True i(3) Cons.prems(2) live_not_marker [OF True] by auto
    have ent': "oa_entries bhash ?nbs = insert b (oa_entries bhash nbs)"
      using oa_entries_put [OF i(2), of bhash b] i(3) True by simp
    have "keq (bkey c) (bkey b) \<noteq> Some True" if "c \<in> oa_entries bhash bs" for c
      using Cons.prems(5) that True by (auto simp: oa_fresh_keys_def oa_entries_def)
    then have "\<forall>c \<in> oa_entries bhash bs. \<forall>d \<in> oa_entries bhash ?nbs. keq (bkey c) (bkey d) \<noteq> Some True"
      using Cons.prems(4) entries ent' by auto
    moreover have "\<forall>c \<in> oa_entries bhash bs. bkey c \<in> K \<and> bhash c = hf (bkey c)"
      using Cons.prems(3) rest(1) by blast
    moreover have "oa_live bhash ?nbs + oa_live bhash bs < length ?nbs"
      using Cons.prems(6) live cnt(1) by simp
    ultimately obtain nbs' where nbs': "oa_rehash bhash bs ?nbs a = Some nbs'" "oa_core bhash bkey hf keq K nbs' a"
      "oa_tombs bhash nbs' = 0" "oa_live bhash nbs' = oa_live bhash ?nbs + oa_live bhash bs"
      "oa_entries bhash nbs' = oa_entries bhash ?nbs \<union> oa_entries bhash bs"
      using Cons.IH [OF core' cnt(2) _ _ rest(2)] by blast
    have "oa_rehash bhash (b # bs) nbs a = Some nbs'"
      using True i(1,2) nbs'(1) by simp
    with nbs' live cnt ent' entries show ?thesis by (intro exI [of _ nbs']) simp
  qed
qed


section \<open>The bucket interface of the containers\<close>

text \<open>
  What the two containers offer of their buckets: the stored hash, the key, and the tombstone
  that replaces a removed bucket.  The lemmas of the locale say what an insertion, a
  replacement, a removal and a rebuild do to the invariant and to the search; they are proved
  once and used by both containers.
\<close>

locale oa_buckets =
  fixes bhash :: "'b \<Rightarrow> rsize"
    and bkey :: "'b \<Rightarrow> rpointer"
    and tomb :: "'b \<Rightarrow> 'b"
  assumes tomb_hash: "bhash (tomb b) = R_HASH_DELETED"
begin

lemma wf_fresh:
  assumes "a \<le> 60" and "bhash e = R_HASH_EMPTY"
  shows "oa_wf bhash bkey hf keq K (replicate (R_HASH_CONTAINER_ALLOC_IDX_TO_SIZE a) e) a 0 0"
    and "oa_find bhash bkey keq (replicate n e) k = None"
  using oa_core_fresh [of a bhash e, OF assms] by (simp_all add: oa_wf_def oa_find_None)

lemma wf_lookup:
  assumes wf: "oa_wf bhash bkey hf keq K bs a sz tombs" and con: "oa_contract hf keq K" and k: "k \<in> K"
  obtains (found) i where
      "oa_probe (oa_lookup_stop bhash bkey keq k (hf k)) bs a (R_HASH_HOME_BUCKET (hf k) a) 0 = Some i"
      "i < length bs" "bhash (bs ! i) = hf k" "keq k (bkey (bs ! i)) = Some True"
      "oa_find bhash bkey keq bs k = Some (bs ! i)"
  | (absent) i where
      "oa_probe (oa_lookup_stop bhash bkey keq k (hf k)) bs a (R_HASH_HOME_BUCKET (hf k) a) 0 = Some i"
      "i < length bs" "bhash (bs ! i) = R_HASH_EMPTY" "bhash (bs ! i) \<noteq> hf k"
      "oa_reach bhash bs a (hf k) i"
      "\<forall>j < length bs. R_HASH_BUCKET_LIVE (bhash (bs ! j)) \<longrightarrow> keq k (bkey (bs ! j)) \<noteq> Some True"
      "oa_find bhash bkey keq bs k = None"
proof -
  have core: "oa_core bhash bkey hf keq K bs a" using wf by (simp add: oa_wf_def)
  have live: "R_HASH_BUCKET_LIVE (hf k)" using oa_contractD(1) [OF con] .
  show ?thesis
  proof (cases rule: oa_lookup_cases [OF core con k oa_wf_has_empty [OF wf]])
    case (1 i)
    then have "oa_find bhash bkey keq bs k = Some (bs ! i)"
      using live by (auto simp: oa_find_iff [OF core con k] oa_entries_iff)
    with 1 show ?thesis by (rule found)
  next
    case (2 i)
    then have "oa_find bhash bkey keq bs k = None"
      by (auto simp: oa_find_None oa_entries_iff)
    with 2 live live_not_marker show ?thesis by (intro absent [of i]) auto
  qed
qed

lemma wf_put:
  assumes wf: "oa_wf bhash bkey hf keq K bs a sz tombs" and con: "oa_contract hf keq K"
    and i: "i < length bs" "bhash (bs ! i) = R_HASH_EMPTY"
    and b: "bhash b = hf (bkey b)" "bkey b \<in> K" "oa_reach bhash bs a (hf (bkey b)) i"
    and new: "\<forall>j < length bs. R_HASH_BUCKET_LIVE (bhash (bs ! j)) \<longrightarrow>
                keq (bkey b) (bkey (bs ! j)) \<noteq> Some True"
    and room: "sz + tombs < oa_limit a"
  shows "oa_wf bhash bkey hf keq K (bs[i := b]) a (Suc sz) tombs"
    and "k \<in> K \<Longrightarrow> oa_find bhash bkey keq (bs[i := b]) k
           = (if keq k (bkey b) = Some True then Some b else oa_find bhash bkey keq bs k)"
proof -
  have core: "oa_core bhash bkey hf keq K bs a" using wf by (simp add: oa_wf_def)
  have live: "R_HASH_BUCKET_LIVE (bhash b)" using oa_contractD(1) [OF con] b(1) by simp
  have core': "oa_core bhash bkey hf keq K (bs[i := b]) a"
    using oa_core_put [OF core con i(1) _ b new] i(2) by simp
  show "oa_wf bhash bkey hf keq K (bs[i := b]) a (Suc sz) tombs"
    using wf core' room oa_count_update [OF i(1), of bhash b] live live_not_marker [OF live] i(2)
    by (auto simp: oa_wf_def)
  assume k: "k \<in> K"
  have ent: "oa_entries bhash (bs[i := b]) = insert b (oa_entries bhash bs)"
    using oa_entries_put [OF i(1), of bhash b] i(2) live by simp
  have uniq: "keq k (bkey c) \<noteq> Some True" if "c \<in> oa_entries bhash bs" "keq k (bkey b) = Some True" for c
  proof
    assume "keq k (bkey c) = Some True"
    then have "keq (bkey b) (bkey c) = Some True"
      using oa_contractD(4,6) [OF con] k b(2) oa_entry_key(1) [OF core that(1)] that(2) by blast
    with new that(1) show False by (auto simp: oa_entries_iff)
  qed
  show "oa_find bhash bkey keq (bs[i := b]) k
           = (if keq k (bkey b) = Some True then Some b else oa_find bhash bkey keq bs k)"
    by (rule option_eqI)
      (use uniq in \<open>auto simp: oa_find_iff [OF core' con k] oa_find_iff [OF core con k] ent\<close>)
qed

lemma wf_replace:
  assumes wf: "oa_wf bhash bkey hf keq K bs a sz tombs" and con: "oa_contract hf keq K"
    and i: "i < length bs" "R_HASH_BUCKET_LIVE (bhash (bs ! i))"
    and b: "bhash b = bhash (bs ! i)" "bkey b \<in> K" "keq (bkey b) (bkey (bs ! i)) = Some True"
  shows "oa_wf bhash bkey hf keq K (bs[i := b]) a sz tombs"
    and "k \<in> K \<Longrightarrow> oa_find bhash bkey keq (bs[i := b]) k
           = (if keq k (bkey b) = Some True then Some b else oa_find bhash bkey keq bs k)"
proof -
  have core: "oa_core bhash bkey hf keq K bs a" using wf by (simp add: oa_wf_def)
  have core': "oa_core bhash bkey hf keq K (bs[i := b]) a"
    by (rule oa_core_replace [OF core con i b])
  note D = oa_coreD [OF core] and C = oa_contractD [OF con]
  have live: "R_HASH_BUCKET_LIVE (bhash b)" using i(2) b(1) by simp
  show "oa_wf bhash bkey hf keq K (bs[i := b]) a sz tombs"
    using wf core' oa_count_update [OF i(1), of bhash b] live i(2) b(1) by (auto simp: oa_wf_def)
  assume k: "k \<in> K"
  have ki: "bkey (bs ! i) \<in> K" using D(3) [OF i] by blast
  have same: "keq k (bkey (bs ! i)) = Some True \<longleftrightarrow> keq k (bkey b) = Some True"
    using C(4,6) k b(2,3) ki by blast
  have other: "keq k (bkey (bs ! j)) \<noteq> Some True"
    if "j < length bs" "j \<noteq> i" "R_HASH_BUCKET_LIVE (bhash (bs ! j))" "keq k (bkey b) = Some True" for j
  proof
    assume "keq k (bkey (bs ! j)) = Some True"
    then have "keq (bkey (bs ! i)) (bkey (bs ! j)) = Some True"
      using C(4,6) k ki same that D(3) [of j] by blast
    with D(4) [OF i(1) that(1) i(2) that(3)] that(2) show False by simp
  qed
  show "oa_find bhash bkey keq (bs[i := b]) k
           = (if keq k (bkey b) = Some True then Some b else oa_find bhash bkey keq bs k)"
  proof (rule option_eqI)
    fix c
    have "(c \<in> oa_entries bhash (bs[i := b]) \<and> keq k (bkey c) = Some True) =
       (if keq k (bkey b) = Some True then c = b else c \<in> oa_entries bhash bs \<and> keq k (bkey c) = Some True)"
      using other same i live by (fastforce simp: oa_entries_iff nth_list_update split: if_splits)
    then show "(oa_find bhash bkey keq (bs[i := b]) k = Some c) =
       ((if keq k (bkey b) = Some True then Some b else oa_find bhash bkey keq bs k) = Some c)"
      by (auto simp: oa_find_iff [OF core' con k] oa_find_iff [OF core con k])
  qed
qed

lemma wf_delete:
  assumes wf: "oa_wf bhash bkey hf keq K bs a sz tombs" and con: "oa_contract hf keq K"
    and i: "i < length bs" "R_HASH_BUCKET_LIVE (bhash (bs ! i))"
  shows "oa_wf bhash bkey hf keq K (bs[i := tomb (bs ! i)]) a (sz - 1) (Suc tombs)"
    and "0 < sz"
    and "k \<in> K \<Longrightarrow> oa_find bhash bkey keq (bs[i := tomb (bs ! i)]) k
           = (if keq k (bkey (bs ! i)) = Some True then None else oa_find bhash bkey keq bs k)"
proof -
  let ?b = "tomb (bs ! i)"
  have core: "oa_core bhash bkey hf keq K bs a" using wf by (simp add: oa_wf_def)
  have core': "oa_core bhash bkey hf keq K (bs[i := ?b]) a"
    by (rule oa_core_delete [OF core i(1) tomb_hash])
  note D = oa_coreD [OF core] and C = oa_contractD [OF con]
  have cnt: "Suc (oa_live bhash (bs[i := ?b])) = oa_live bhash bs"
    "oa_tombs bhash (bs[i := ?b]) = Suc (oa_tombs bhash bs)"
    using oa_count_update [OF i(1), of bhash ?b] i(2) live_not_marker [OF i(2)] by (auto simp: tomb_hash)
  then show "oa_wf bhash bkey hf keq K (bs[i := ?b]) a (sz - 1) (Suc tombs)" and "0 < sz"
    using wf core' by (auto simp: oa_wf_def)
  assume k: "k \<in> K"
  have ki: "bkey (bs ! i) \<in> K" using D(3) [OF i] by blast
  have other: "j = i" if "j < length bs" "R_HASH_BUCKET_LIVE (bhash (bs ! j))"
    "keq k (bkey (bs ! j)) = Some True" "keq k (bkey (bs ! i)) = Some True" for j
  proof -
    have "keq (bkey (bs ! j)) (bkey (bs ! i)) = Some True"
      using C(4,6) k ki that D(3) [of j] by blast
    with D(4) that i show ?thesis by blast
  qed
  have ent: "c \<in> oa_entries bhash (bs[i := ?b])
      \<longleftrightarrow> (\<exists>j < length bs. j \<noteq> i \<and> bs ! j = c \<and> R_HASH_BUCKET_LIVE (bhash c))" for c
  proof -
    have "bs[i := ?b] ! j = c \<longleftrightarrow> j \<noteq> i \<and> bs ! j = c"
      if "j < length bs" "R_HASH_BUCKET_LIVE (bhash c)" for j
      using that i(1) tomb_hash [of "bs ! i"] by (cases "j = i") auto
    then show ?thesis by (auto simp: oa_entries_iff)
  qed
  show "oa_find bhash bkey keq (bs[i := ?b]) k
           = (if keq k (bkey (bs ! i)) = Some True then None else oa_find bhash bkey keq bs k)"
  proof (rule option_eqI)
    fix c
    have "(c \<in> oa_entries bhash (bs[i := ?b]) \<and> keq k (bkey c) = Some True) =
       (keq k (bkey (bs ! i)) \<noteq> Some True \<and> c \<in> oa_entries bhash bs \<and> keq k (bkey c) = Some True)"
      unfolding ent by (auto simp: oa_entries_iff dest: other)
    then show "(oa_find bhash bkey keq (bs[i := ?b]) k = Some c) =
       ((if keq k (bkey (bs ! i)) = Some True then None else oa_find bhash bkey keq bs k) = Some c)"
      by (auto simp: oa_find_iff [OF core' con k] oa_find_iff [OF core con k])
  qed
qed

lemma wf_resize:
  assumes wf: "oa_wf bhash bkey hf keq K bs a sz tombs" and con: "oa_contract hf keq K"
    and e: "bhash e = R_HASH_EMPTY" and a': "a' \<le> 60" "sz \<le> oa_limit a'"
  obtains bs' where
    "oa_rehash bhash bs (replicate (R_HASH_CONTAINER_ALLOC_IDX_TO_SIZE a') e) a' = Some bs'"
    "oa_wf bhash bkey hf keq K bs' a' sz 0"
    "\<And>k. k \<in> K \<Longrightarrow> oa_find bhash bkey keq bs' k = oa_find bhash bkey keq bs k"
    "oa_entries bhash bs' = oa_entries bhash bs"
proof -
  let ?new = "replicate (R_HASH_CONTAINER_ALLOC_IDX_TO_SIZE a') e"
  have core: "oa_core bhash bkey hf keq K bs a" and sz: "sz = oa_live bhash bs"
    using wf by (auto simp: oa_wf_def)
  note fresh = oa_core_fresh [of a' bhash e, OF a'(1) e]
  have "oa_live bhash ?new + oa_live bhash bs < length ?new"
    using fresh(2) a'(2) sz oa_limit_less [of a'] by simp
  then obtain bs' where bs': "oa_rehash bhash bs ?new a' = Some bs'"
    "oa_core bhash bkey hf keq K bs' a'" "oa_tombs bhash bs' = 0"
    "oa_live bhash bs' = oa_live bhash ?new + oa_live bhash bs"
    "oa_entries bhash bs' = oa_entries bhash ?new \<union> oa_entries bhash bs"
    using oa_rehash_correct [OF con fresh(1) fresh(3) _ _ oa_core_fresh_keys [OF core]]
      oa_entry_key [OF core] fresh(4) by blast
  show ?thesis
  proof (rule that [OF bs'(1)])
    show "oa_wf bhash bkey hf keq K bs' a' sz 0"
      using bs' fresh(2) sz a'(2) by (simp add: oa_wf_def)
    show "oa_entries bhash bs' = oa_entries bhash bs" using bs'(5) fresh(4) by simp
    then show "oa_find bhash bkey keq bs' k = oa_find bhash bkey keq bs k" if "k \<in> K" for k
      using oa_find_cong [OF core bs'(2) con that] by simp
  qed
qed

end

end
