(* ===== verification/RHashTable.thy ===== *)
theory RHashTable
  imports RHash
begin

text \<open>
  \<^verbatim>\<open>rlib/data/rhashtable.c\<close>: the open-addressing hash table with tombstones, and the
  string-keyed wrapper \<^verbatim>\<open>include/rlib/data/rdictionary.h\<close>.

  A table is a record with the fields of \<^verbatim>\<open>struct RHashTable\<close>; the user's hash and
  equality functions are functions on addresses.  A pointer to a table is an option, with
  \<^const>\<open>None\<close> for the null pointer.  An operation returns its result, the new table
  and the calls of the destroy notifiers, in order; the outer \<^const>\<open>None\<close> is an
  operation that does not return (see \<^verbatim>\<open>RPrelude\<close>).  The constructor takes
  the outcome of its two allocations; the new bucket array of a resize is taken to be served,
  the code being without a test of it.  The reference count is left to \<^verbatim>\<open>rref.c\<close>.
\<close>

section \<open>Data\<close>

record RHashTableBucket =
  hb_key :: rpointer
  hb_val :: rpointer
  hb_hash :: rsize

datatype RHashTableError =
  R_HASH_TABLE_REPLACE | R_HASH_TABLE_OK | R_HASH_TABLE_INVAL | R_HASH_TABLE_NOT_FOUND | R_HASH_TABLE_ERROR

record RHashTable =
  ht_size :: nat
  ht_tombs :: nat
  ht_allocidx :: nat
  ht_buckets :: "RHashTableBucket list"
  ht_hashfunc :: "rpointer \<Rightarrow> rsize"
  ht_equalfunc :: "(rpointer \<Rightarrow> rpointer \<Rightarrow> bool) option"
  ht_keynotify :: rpointer
  ht_valuenotify :: rpointer

text \<open>
  A bucket of a fresh allocation: only its hash is set; the key and the value are never read
  while the hash is \<^const>\<open>R_HASH_EMPTY\<close>.
\<close>

definition ht_fresh_bucket :: RHashTableBucket where
  "ht_fresh_bucket = \<lparr>hb_key = 0, hb_val = 0, hb_hash = R_HASH_EMPTY\<rparr>"

section \<open>Operations\<close>

definition r_hash_table_free :: "RHashTable \<Rightarrow> notify_call list" where
  "r_hash_table_free ht =
     (if ht_keynotify ht \<noteq> NULL \<and> ht_valuenotify ht \<noteq> NULL then
        concat (map (\<lambda>b. if R_HASH_BUCKET_LIVE (hb_hash b)
                         then [(ht_keynotify ht, hb_key b), (ht_valuenotify ht, hb_val b)] else [])
                    (ht_buckets ht))
      else if ht_valuenotify ht \<noteq> NULL then
        concat (map (\<lambda>b. if R_HASH_BUCKET_LIVE (hb_hash b) then [(ht_valuenotify ht, hb_val b)] else [])
                    (ht_buckets ht))
      else if ht_keynotify ht \<noteq> NULL then
        concat (map (\<lambda>b. if R_HASH_BUCKET_LIVE (hb_hash b) then [(ht_keynotify ht, hb_key b)] else [])
                    (ht_buckets ht))
      else [])"

definition r_hash_table_resize :: "RHashTable \<Rightarrow> nat \<Rightarrow> RHashTable option" where
  "r_hash_table_resize ht allocidx = do {
     nbuckets \<leftarrow> oa_rehash hb_hash (ht_buckets ht)
       (replicate (R_HASH_CONTAINER_ALLOC_IDX_TO_SIZE allocidx) ht_fresh_bucket) allocidx;
     Some (ht\<lparr>ht_buckets := nbuckets, ht_allocidx := allocidx, ht_tombs := 0\<rparr>)
   }"

text \<open>The fields of a new table.\<close>

definition ht_fresh ::
  "(rpointer \<Rightarrow> rsize) option \<Rightarrow> (rpointer \<Rightarrow> rpointer \<Rightarrow> bool) option \<Rightarrow> rpointer \<Rightarrow> rpointer \<Rightarrow> RHashTable" where
  "ht_fresh hash equal keynotify valuenotify =
     \<lparr>ht_size = 0, ht_tombs = 0, ht_allocidx = 0,
      ht_buckets = replicate (R_HASH_CONTAINER_ALLOC_IDX_TO_SIZE 0) ht_fresh_bucket,
      ht_hashfunc = (case hash of Some h \<Rightarrow> h | None \<Rightarrow> r_direct_hash),
      ht_equalfunc = equal, ht_keynotify = keynotify, ht_valuenotify = valuenotify\<rparr>"

text \<open>
  \<open>obj\<close> and \<open>bks\<close> say whether the table and its bucket array are served by the allocator.  The
  first failure gives a null pointer; the second is not tested for, and the loop that follows
  writes through the null pointer.
\<close>

definition r_hash_table_new_full ::
  "bool \<Rightarrow> bool \<Rightarrow> (rpointer \<Rightarrow> rsize) option \<Rightarrow> (rpointer \<Rightarrow> rpointer \<Rightarrow> bool) option \<Rightarrow> rpointer \<Rightarrow> rpointer
   \<Rightarrow> RHashTable option option" where
  "r_hash_table_new_full obj bks hash equal keynotify valuenotify =
     (if obj then
        if bks then Some (Some (ht_fresh hash equal keynotify valuenotify))
        else None
      else Some None)"

definition r_hash_table_size :: "RHashTable option \<Rightarrow> nat option" where
  "r_hash_table_size pht = do { ht \<leftarrow> pht; Some (ht_size ht) }"

definition r_hash_table_current_alloc_size :: "RHashTable option \<Rightarrow> nat option" where
  "r_hash_table_current_alloc_size pht =
     do { ht \<leftarrow> pht; Some (R_HASH_CONTAINER_ALLOC_IDX_TO_SIZE (ht_allocidx ht)) }"

definition r_hash_table_max_probe :: "RHashTable option \<Rightarrow> nat option" where
  "r_hash_table_max_probe pht =
     (case pht of None \<Rightarrow> Some 0
      | Some ht \<Rightarrow> oa_max_probe hb_hash (ht_buckets ht) (ht_allocidx ht)
                     [0 ..< R_HASH_CONTAINER_ALLOC_IDX_TO_SIZE (ht_allocidx ht)] 0)"

definition r_hash_table_hash :: "RHashTable \<Rightarrow> rpointer \<Rightarrow> rsize" where
  "r_hash_table_hash ht key =
     (let ret = ht_hashfunc ht key in
      if ret = R_HASH_EMPTY \<or> ret = R_HASH_DELETED then R_HASH_DELETED - 1 else ret)"

definition r_hash_table_lookup_bucket :: "RHashTable \<Rightarrow> rpointer \<Rightarrow> (nat \<times> rsize) option" where
  "r_hash_table_lookup_bucket ht key =
     (let hash = r_hash_table_hash ht key in do {
        idx \<leftarrow> oa_probe
          (oa_lookup_stop hb_hash hb_key (oa_key_equal (ht_equalfunc ht)) key hash)
          (ht_buckets ht) (ht_allocidx ht) (R_HASH_HOME_BUCKET hash (ht_allocidx ht)) 0;
        Some (idx, hash)
      })"

definition r_hash_table_insert ::
  "RHashTable option \<Rightarrow> rpointer \<Rightarrow> rpointer
   \<Rightarrow> (RHashTableError \<times> RHashTable option \<times> notify_call list) option" where
  "r_hash_table_insert pht key value =
     (case pht of None \<Rightarrow> Some (R_HASH_TABLE_INVAL, None, [])
      | Some ht \<Rightarrow> do {
          let cap = R_HASH_CONTAINER_ALLOC_IDX_TO_SIZE (ht_allocidx ht);
          ht \<leftarrow> (if ht_size ht + ht_tombs ht \<ge> cap - drop_bit 2 cap
                 then r_hash_table_resize ht
                        (if ht_size ht \<ge> cap - drop_bit 2 cap then ht_allocidx ht + 1 else ht_allocidx ht)
                 else Some ht);
          (idx, hash) \<leftarrow> r_hash_table_lookup_bucket ht key;
          b \<leftarrow> fetch (ht_buckets ht) idx;
          let (n, h, calls) =
            (if hb_hash b = hash
             then (ht_size ht, hb_hash b,
                   (if hb_key b \<noteq> NULL then call_notify (ht_keynotify ht) (hb_key b) else []) @
                   (if hb_val b \<noteq> NULL then call_notify (ht_valuenotify ht) (hb_val b) else []))
             else (ht_size ht + 1, hash, []));
          buckets \<leftarrow> store (ht_buckets ht) idx (b\<lparr>hb_hash := h, hb_key := key, hb_val := value\<rparr>);
          Some (R_HASH_TABLE_OK, Some (ht\<lparr>ht_size := n, ht_buckets := buckets\<rparr>), calls)
        })"

definition r_hash_table_lookup :: "RHashTable option \<Rightarrow> rpointer \<Rightarrow> rpointer option" where
  "r_hash_table_lookup pht key = do {
     ht \<leftarrow> pht;
     (idx, hash) \<leftarrow> r_hash_table_lookup_bucket ht key;
     b \<leftarrow> fetch (ht_buckets ht) idx;
     Some (if hb_hash b = hash then hb_val b else NULL)
   }"

text \<open>
  The last component of a result is the pair that is written through the out-pointers, with
  \<^const>\<open>None\<close> when nothing is written.
\<close>

definition r_hash_table_lookup_full ::
  "RHashTable option \<Rightarrow> rpointer \<Rightarrow> (RHashTableError \<times> (rpointer \<times> rpointer) option) option" where
  "r_hash_table_lookup_full pht key =
     (case pht of None \<Rightarrow> Some (R_HASH_TABLE_INVAL, None)
      | Some ht \<Rightarrow> do {
          (idx, hash) \<leftarrow> r_hash_table_lookup_bucket ht key;
          b \<leftarrow> fetch (ht_buckets ht) idx;
          Some (if hb_hash b = hash then (R_HASH_TABLE_OK, Some (hb_key b, hb_val b))
                else (R_HASH_TABLE_NOT_FOUND, None))
        })"

definition r_hash_table_contains :: "RHashTable option \<Rightarrow> rpointer \<Rightarrow> RHashTableError option" where
  "r_hash_table_contains pht key =
     (case pht of None \<Rightarrow> Some R_HASH_TABLE_INVAL
      | Some ht \<Rightarrow> do {
          (idx, hash) \<leftarrow> r_hash_table_lookup_bucket ht key;
          b \<leftarrow> fetch (ht_buckets ht) idx;
          Some (if hb_hash b = hash then R_HASH_TABLE_OK else R_HASH_TABLE_NOT_FOUND)
        })"

definition r_hash_table_remove_all :: "RHashTable option \<Rightarrow> RHashTable option \<times> notify_call list" where
  "r_hash_table_remove_all pht =
     (case pht of None \<Rightarrow> (None, [])
      | Some ht \<Rightarrow>
          if ht_size ht = 0 \<and> ht_tombs ht = 0 then (Some ht, [])
          else (Some (ht\<lparr>ht_buckets := map (\<lambda>b. b\<lparr>hb_hash := R_HASH_EMPTY\<rparr>) (ht_buckets ht),
                         ht_size := 0, ht_tombs := 0\<rparr>),
                concat (map (\<lambda>b. if R_HASH_BUCKET_LIVE (hb_hash b)
                                 then call_notify (ht_keynotify ht) (hb_key b) @
                                      call_notify (ht_valuenotify ht) (hb_val b) else [])
                            (ht_buckets ht))))"

definition ht_tomb :: "RHashTableBucket \<Rightarrow> RHashTableBucket" where
  "ht_tomb b = b\<lparr>hb_hash := R_HASH_DELETED\<rparr>"

definition r_hash_table_internal_remove ::
  "RHashTable \<Rightarrow> nat \<Rightarrow> (RHashTable \<times> notify_call list) option" where
  "r_hash_table_internal_remove ht idx = do {
     b \<leftarrow> fetch (ht_buckets ht) idx;
     buckets \<leftarrow> store (ht_buckets ht) idx (ht_tomb b);
     Some (ht\<lparr>ht_buckets := buckets, ht_size := ht_size ht - 1, ht_tombs := ht_tombs ht + 1\<rparr>,
           call_notify (ht_keynotify ht) (hb_key b) @ call_notify (ht_valuenotify ht) (hb_val b))
   }"

definition r_hash_table_remove ::
  "RHashTable option \<Rightarrow> rpointer \<Rightarrow> (RHashTableError \<times> RHashTable option \<times> notify_call list) option" where
  "r_hash_table_remove pht key =
     (case pht of None \<Rightarrow> Some (R_HASH_TABLE_INVAL, None, [])
      | Some ht \<Rightarrow> do {
          (idx, hash) \<leftarrow> r_hash_table_lookup_bucket ht key;
          b \<leftarrow> fetch (ht_buckets ht) idx;
          if hb_hash b \<noteq> hash then Some (R_HASH_TABLE_NOT_FOUND, Some ht, [])
          else do {
            (ht', calls) \<leftarrow> r_hash_table_internal_remove ht idx;
            Some (R_HASH_TABLE_OK, Some ht', calls)
          }
        })"

definition r_hash_table_remove_full ::
  "RHashTable option \<Rightarrow> rpointer
   \<Rightarrow> (RHashTableError \<times> RHashTable option \<times> notify_call list \<times> (rpointer \<times> rpointer) option) option" where
  "r_hash_table_remove_full pht key =
     (case pht of None \<Rightarrow> Some (R_HASH_TABLE_INVAL, None, [], None)
      | Some ht \<Rightarrow> do {
          (idx, hash) \<leftarrow> r_hash_table_lookup_bucket ht key;
          b \<leftarrow> fetch (ht_buckets ht) idx;
          if hb_hash b \<noteq> hash then Some (R_HASH_TABLE_NOT_FOUND, Some ht, [], Some (NULL, NULL))
          else do {
            (ht', calls) \<leftarrow> r_hash_table_internal_remove ht idx;
            Some (R_HASH_TABLE_OK, Some ht', calls, Some (hb_key b, hb_val b))
          }
        })"

definition r_hash_table_steal ::
  "RHashTable option \<Rightarrow> rpointer
   \<Rightarrow> (RHashTableError \<times> RHashTable option \<times> (rpointer \<times> rpointer) option) option" where
  "r_hash_table_steal pht key =
     (case pht of None \<Rightarrow> Some (R_HASH_TABLE_INVAL, None, None)
      | Some ht \<Rightarrow> do {
          (idx, hash) \<leftarrow> r_hash_table_lookup_bucket ht key;
          b \<leftarrow> fetch (ht_buckets ht) idx;
          if hb_hash b \<noteq> hash then Some (R_HASH_TABLE_NOT_FOUND, Some ht, Some (NULL, NULL))
          else do {
            buckets \<leftarrow> store (ht_buckets ht) idx (ht_tomb b);
            Some (R_HASH_TABLE_OK,
                  Some (ht\<lparr>ht_buckets := buckets, ht_size := ht_size ht - 1, ht_tombs := ht_tombs ht + 1\<rparr>),
                  Some (hb_key b, hb_val b))
          }
        })"

definition r_hash_table_remove_func_value :: "rpointer \<Rightarrow> rpointer \<Rightarrow> rpointer \<Rightarrow> bool" where
  "r_hash_table_remove_func_value key value user = (value = user)"

fun r_hash_table_remove_with_func_loop ::
  "(rpointer \<Rightarrow> rpointer \<Rightarrow> bool) \<Rightarrow> nat list \<Rightarrow> RHashTable \<Rightarrow> notify_call list
   \<Rightarrow> (RHashTable \<times> notify_call list) option" where
  "r_hash_table_remove_with_func_loop func [] ht calls = Some (ht, calls)"
| "r_hash_table_remove_with_func_loop func (i # is) ht calls = do {
     b \<leftarrow> fetch (ht_buckets ht) i;
     if R_HASH_BUCKET_LIVE (hb_hash b) \<and> func (hb_key b) (hb_val b) then do {
       (ht', new) \<leftarrow> r_hash_table_internal_remove ht i;
       r_hash_table_remove_with_func_loop func is ht' (calls @ new)
     }
     else r_hash_table_remove_with_func_loop func is ht calls
   }"

text \<open>The callback with its user argument applied; \<^const>\<open>None\<close> for a null function.\<close>

definition r_hash_table_remove_with_func ::
  "RHashTable option \<Rightarrow> (rpointer \<Rightarrow> rpointer \<Rightarrow> bool) option
   \<Rightarrow> (RHashTableError \<times> RHashTable option \<times> notify_call list) option" where
  "r_hash_table_remove_with_func pht func =
     (case pht of None \<Rightarrow> Some (R_HASH_TABLE_INVAL, None, [])
      | Some ht \<Rightarrow>
          (case func of None \<Rightarrow> Some (R_HASH_TABLE_INVAL, Some ht, [])
           | Some f \<Rightarrow> do {
               (ht', calls) \<leftarrow> r_hash_table_remove_with_func_loop f
                 [0 ..< R_HASH_CONTAINER_ALLOC_IDX_TO_SIZE (ht_allocidx ht)] ht [];
               Some (R_HASH_TABLE_OK, Some ht', calls)
             }))"

text \<open>The visited pairs, in order; the callback may not change the table.\<close>

definition r_hash_table_foreach ::
  "RHashTable option \<Rightarrow> bool \<Rightarrow> RHashTableError \<times> (rpointer \<times> rpointer) list" where
  "r_hash_table_foreach pht func_given =
     (case pht of None \<Rightarrow> (R_HASH_TABLE_INVAL, [])
      | Some ht \<Rightarrow>
          if \<not> func_given then (R_HASH_TABLE_INVAL, [])
          else (R_HASH_TABLE_OK,
                concat (map (\<lambda>b. if R_HASH_BUCKET_LIVE (hb_hash b) then [(hb_key b, hb_val b)] else [])
                            (ht_buckets ht))))"

section \<open>The dictionary wrapper\<close>

text \<open>
  \<open>str\<close> gives the bytes of the string at an address, and \<^const>\<open>None\<close> for the
  null pointer.
\<close>

abbreviation dict_fresh :: "(rpointer \<Rightarrow> ruint8 list option) \<Rightarrow> rpointer \<Rightarrow> RHashTable" where
  "dict_fresh str notify \<equiv>
     ht_fresh (Some (\<lambda>p. r_str_hash (str p))) (Some (\<lambda>p q. r_str_equal (str p) (str q))) NULL notify"

definition r_dictionary_new_full ::
  "bool \<Rightarrow> bool \<Rightarrow> (rpointer \<Rightarrow> ruint8 list option) \<Rightarrow> rpointer \<Rightarrow> RHashTable option option" where
  "r_dictionary_new_full obj bks str notify =
     r_hash_table_new_full obj bks (Some (\<lambda>p. r_str_hash (str p)))
       (Some (\<lambda>p q. r_str_equal (str p) (str q))) NULL notify"

definition r_dictionary_new ::
  "bool \<Rightarrow> bool \<Rightarrow> (rpointer \<Rightarrow> ruint8 list option) \<Rightarrow> RHashTable option option" where
  "r_dictionary_new obj bks str =
     r_hash_table_new_full obj bks (Some (\<lambda>p. r_str_hash (str p)))
       (Some (\<lambda>p q. r_str_equal (str p) (str q))) NULL NULL"

definition r_dictionary_size :: "RHashTable option \<Rightarrow> nat option" where
  "r_dictionary_size dict = r_hash_table_size dict"

definition r_dictionary_current_alloc_size :: "RHashTable option \<Rightarrow> nat option" where
  "r_dictionary_current_alloc_size dict = r_hash_table_current_alloc_size dict"

definition r_dictionary_insert ::
  "RHashTable option \<Rightarrow> rpointer \<Rightarrow> rpointer \<Rightarrow> (bool \<times> RHashTable option \<times> notify_call list) option" where
  "r_dictionary_insert dict key value = do {
     (err, dict', calls) \<leftarrow> r_hash_table_insert dict key value;
     Some (err = R_HASH_TABLE_OK, dict', calls)
   }"

definition r_dictionary_lookup :: "RHashTable option \<Rightarrow> rpointer \<Rightarrow> rpointer option" where
  "r_dictionary_lookup dict key = r_hash_table_lookup dict key"

text \<open>The value out-pointer only: the key out-pointer is null.\<close>

definition r_dictionary_lookup_full :: "RHashTable option \<Rightarrow> rpointer \<Rightarrow> (bool \<times> rpointer option) option" where
  "r_dictionary_lookup_full dict key = do {
     (err, out) \<leftarrow> r_hash_table_lookup_full dict key;
     Some (err = R_HASH_TABLE_OK, map_option snd out)
   }"

definition r_dictionary_contains :: "RHashTable option \<Rightarrow> rpointer \<Rightarrow> bool option" where
  "r_dictionary_contains dict key = do {
     err \<leftarrow> r_hash_table_contains dict key;
     Some (err = R_HASH_TABLE_OK)
   }"

definition r_dictionary_steal ::
  "RHashTable option \<Rightarrow> rpointer \<Rightarrow> (bool \<times> RHashTable option \<times> rpointer option) option" where
  "r_dictionary_steal dict key = do {
     (err, dict', out) \<leftarrow> r_hash_table_steal dict key;
     Some (err = R_HASH_TABLE_OK, dict', map_option snd out)
   }"

definition r_dictionary_remove ::
  "RHashTable option \<Rightarrow> rpointer \<Rightarrow> (bool \<times> RHashTable option \<times> notify_call list) option" where
  "r_dictionary_remove dict key = do {
     (err, dict', calls) \<leftarrow> r_hash_table_remove dict key;
     Some (err = R_HASH_TABLE_OK, dict', calls)
   }"

definition r_dictionary_foreach :: "RHashTable option \<Rightarrow> bool \<Rightarrow> bool \<times> (rpointer \<times> rpointer) list" where
  "r_dictionary_foreach dict func_given =
     (case r_hash_table_foreach dict func_given of (err, visited) \<Rightarrow> (err = R_HASH_TABLE_OK, visited))"

section \<open>The invariant and the abstract map\<close>

abbreviation ht_keq :: "RHashTable \<Rightarrow> rpointer \<Rightarrow> rpointer \<Rightarrow> bool option" where
  "ht_keq ht \<equiv> oa_key_equal (ht_equalfunc ht)"

text \<open>The user's functions fit together on the keys \<open>K\<close>.\<close>

definition ht_contract :: "RHashTable \<Rightarrow> rpointer set \<Rightarrow> bool" where
  "ht_contract ht K = oa_contract (r_hash_table_hash ht) (ht_keq ht) K"

definition ht_inv :: "RHashTable \<Rightarrow> rpointer set \<Rightarrow> bool" where
  "ht_inv ht K \<longleftrightarrow> ht_contract ht K \<and>
     oa_wf hb_hash hb_key (r_hash_table_hash ht) (ht_keq ht) K
       (ht_buckets ht) (ht_allocidx ht) (ht_size ht) (ht_tombs ht)"

text \<open>The entry of a key, and the map from keys to values a table stands for.\<close>

definition ht_entry :: "RHashTable \<Rightarrow> rpointer \<Rightarrow> RHashTableBucket option" where
  "ht_entry ht k = oa_find hb_hash hb_key (ht_keq ht) (ht_buckets ht) k"

definition ht_map :: "RHashTable \<Rightarrow> rpointer \<Rightarrow> rpointer option" where
  "ht_map ht k = map_option hb_val (ht_entry ht k)"

definition ht_same_config :: "RHashTable \<Rightarrow> RHashTable \<Rightarrow> bool" where
  "ht_same_config ht ht' \<longleftrightarrow>
     ht_hashfunc ht' = ht_hashfunc ht \<and> ht_equalfunc ht' = ht_equalfunc ht \<and>
     ht_keynotify ht' = ht_keynotify ht \<and> ht_valuenotify ht' = ht_valuenotify ht"

interpretation htb: oa_buckets hb_hash hb_key ht_tomb
  by unfold_locales (simp add: ht_tomb_def)

lemma ht_fresh_bucket_hash [simp]: "hb_hash ht_fresh_bucket = R_HASH_EMPTY"
  by (simp add: ht_fresh_bucket_def)

lemma ht_same_config_hash:
  "ht_same_config ht ht' \<Longrightarrow> r_hash_table_hash ht' = r_hash_table_hash ht"
  by (simp add: ht_same_config_def r_hash_table_hash_def fun_eq_iff)

lemma r_hash_table_hash_live: "R_HASH_BUCKET_LIVE (r_hash_table_hash ht k)"
  by (auto simp: r_hash_table_hash_def R_HASH_BUCKET_LIVE_def R_HASH_DELETED_def R_HASH_EMPTY_def Let_def)

text \<open>An equality function makes a contract when it is an equivalence that the hash respects.\<close>

lemma ht_contract_equalfunc:
  assumes "ht_equalfunc ht = Some eq"
    and "\<forall>a \<in> K. eq a a" and "\<forall>a \<in> K. \<forall>b \<in> K. eq a b \<longrightarrow> eq b a"
    and "\<forall>a \<in> K. \<forall>b \<in> K. \<forall>c \<in> K. eq a b \<longrightarrow> eq b c \<longrightarrow> eq a c"
    and "\<forall>a \<in> K. \<forall>b \<in> K. eq a b \<longrightarrow> ht_hashfunc ht a = ht_hashfunc ht b"
  shows "ht_contract ht K"
  unfolding ht_contract_def oa_contract_def
proof (intro conjI)
  show "\<forall>k. R_HASH_BUCKET_LIVE (r_hash_table_hash ht k)" using r_hash_table_hash_live by blast
  show "\<forall>a \<in> K. \<forall>b \<in> K. \<forall>c \<in> K. ht_keq ht a b = Some True \<longrightarrow> ht_keq ht b c = Some True \<longrightarrow>
      ht_keq ht a c = Some True"
    using assms(4) unfolding oa_key_equal_def assms(1) option.case option.inject eq_True .
  show "\<forall>a \<in> K. \<forall>b \<in> K. ht_keq ht a b = Some True \<longrightarrow>
      ht_keq ht b a = Some True \<and> r_hash_table_hash ht a = r_hash_table_hash ht b"
    unfolding oa_key_equal_def assms(1) option.case option.inject eq_True r_hash_table_hash_def
    using assms(3,5) by metis
qed (use assms(2) in \<open>simp_all add: oa_key_equal_def assms(1)\<close>)

text \<open>
  Without an equality function the stored hash must identify the key: two keys whose hashes
  agree must be the same address.
\<close>

lemma ht_contract_identity:
  assumes "ht_equalfunc ht = None" and "inj_on (r_hash_table_hash ht) K"
  shows "ht_contract ht K"
  unfolding ht_contract_def oa_contract_def
  using r_hash_table_hash_live [of ht]
  by (intro conjI) (simp_all add: oa_key_equal_def assms(1) inj_on_eq_iff [OF assms(2)])

lemma ht_contract_direct:
  assumes "ht_equalfunc ht = None" and "ht_hashfunc ht = r_direct_hash" and "- 1 \<notin> K" and "- 2 \<notin> K"
  shows "ht_contract ht K"
proof (rule ht_contract_identity [OF assms(1)])
  have "r_hash_table_hash ht k = k" if "k \<in> K" for k
    using that assms(2-) by (auto simp: r_hash_table_hash_def r_direct_hash_def R_HASH_EMPTY_def R_HASH_DELETED_def)
  then show "inj_on (r_hash_table_hash ht) K" by (auto intro: inj_onI)
qed

lemma ht_inv_new:
  assumes "ht_contract (ht_fresh h e kn vn) K"
  shows "ht_inv (ht_fresh h e kn vn) K" and "ht_map (ht_fresh h e kn vn) k = None"
  using assms
  by (simp_all add: ht_inv_def ht_map_def ht_entry_def ht_fresh_def htb.wf_fresh htb.wf_fresh(2) [of 0])

section \<open>Lookups\<close>

lemma ht_lookup_bucket_cases:
  assumes inv: "ht_inv ht K" and k: "k \<in> K"
  obtains (found) i b where
      "r_hash_table_lookup_bucket ht k = Some (i, r_hash_table_hash ht k)"
      "i < length (ht_buckets ht)" "ht_buckets ht ! i = b" "hb_hash b = r_hash_table_hash ht k"
      "ht_keq ht k (hb_key b) = Some True" "ht_entry ht k = Some b"
  | (absent) i where
      "r_hash_table_lookup_bucket ht k = Some (i, r_hash_table_hash ht k)"
      "i < length (ht_buckets ht)" "hb_hash (ht_buckets ht ! i) = R_HASH_EMPTY"
      "hb_hash (ht_buckets ht ! i) \<noteq> r_hash_table_hash ht k"
      "oa_reach hb_hash (ht_buckets ht) (ht_allocidx ht) (r_hash_table_hash ht k) i"
      "\<forall>j < length (ht_buckets ht). R_HASH_BUCKET_LIVE (hb_hash (ht_buckets ht ! j)) \<longrightarrow>
         ht_keq ht k (hb_key (ht_buckets ht ! j)) \<noteq> Some True"
      "ht_entry ht k = None"
proof -
  have wf: "oa_wf hb_hash hb_key (r_hash_table_hash ht) (ht_keq ht) K
       (ht_buckets ht) (ht_allocidx ht) (ht_size ht) (ht_tombs ht)"
    and con: "oa_contract (r_hash_table_hash ht) (ht_keq ht) K"
    using inv by (simp_all add: ht_inv_def ht_contract_def)
  show ?thesis
  proof (cases rule: htb.wf_lookup [OF wf con k])
    case (1 i)
    have "r_hash_table_lookup_bucket ht k = Some (i, r_hash_table_hash ht k)"
      unfolding r_hash_table_lookup_bucket_def Let_def 1(1) by simp
    then show ?thesis
      by (rule found [OF _ 1(2) refl 1(3,4)]) (simp only: ht_entry_def 1(5))
  next
    case (2 i)
    have "r_hash_table_lookup_bucket ht k = Some (i, r_hash_table_hash ht k)"
      unfolding r_hash_table_lookup_bucket_def Let_def 2(1) by simp
    then show ?thesis
      by (rule absent [OF _ 2(2-6)]) (simp only: ht_entry_def 2(7))
  qed
qed

lemma ht_lookup_spec:
  assumes "ht_inv ht K" and "k \<in> K"
  shows "r_hash_table_lookup (Some ht) k = Some (case ht_map ht k of None \<Rightarrow> NULL | Some v \<Rightarrow> v)"
    and "r_hash_table_contains (Some ht) k
           = Some (if ht_map ht k = None then R_HASH_TABLE_NOT_FOUND else R_HASH_TABLE_OK)"
    and "r_hash_table_lookup_full (Some ht) k
           = Some (case ht_entry ht k of None \<Rightarrow> (R_HASH_TABLE_NOT_FOUND, None)
                   | Some b \<Rightarrow> (R_HASH_TABLE_OK, Some (hb_key b, hb_val b)))"
  by (cases rule: ht_lookup_bucket_cases [OF assms];
      simp add: r_hash_table_lookup_def r_hash_table_contains_def r_hash_table_lookup_full_def ht_map_def)+

section \<open>Insertion\<close>

lemma r_hash_table_hash_update [simp]:
  "r_hash_table_hash (ht\<lparr>ht_size := n\<rparr>) = r_hash_table_hash ht"
  "r_hash_table_hash (ht\<lparr>ht_buckets := bs\<rparr>) = r_hash_table_hash ht"
  "r_hash_table_hash (ht\<lparr>ht_allocidx := a\<rparr>) = r_hash_table_hash ht"
  "r_hash_table_hash (ht\<lparr>ht_tombs := t\<rparr>) = r_hash_table_hash ht"
  by (simp_all add: r_hash_table_hash_def fun_eq_iff)

lemma ht_invD:
  assumes "ht_inv ht K"
  shows "oa_wf hb_hash hb_key (r_hash_table_hash ht) (ht_keq ht) K
           (ht_buckets ht) (ht_allocidx ht) (ht_size ht) (ht_tombs ht)"
    and "oa_contract (r_hash_table_hash ht) (ht_keq ht) K"
  using assms by (simp_all add: ht_inv_def ht_contract_def)

lemma r_hash_table_resize_correct:
  assumes inv: "ht_inv ht K" and a: "a \<le> 60" "ht_size ht \<le> oa_limit a"
  obtains ht' where "r_hash_table_resize ht a = Some ht'" "ht_inv ht' K" "ht_same_config ht ht'"
    "ht_size ht' = ht_size ht" "ht_tombs ht' = 0" "ht_allocidx ht' = a"
    "\<And>k. k \<in> K \<Longrightarrow> ht_entry ht' k = ht_entry ht k"
    "oa_entries hb_hash (ht_buckets ht') = oa_entries hb_hash (ht_buckets ht)"
proof -
  note D = ht_invD [OF inv]
  obtain bs' where bs': "oa_rehash hb_hash (ht_buckets ht)
      (replicate (R_HASH_CONTAINER_ALLOC_IDX_TO_SIZE a) ht_fresh_bucket) a = Some bs'"
    "oa_wf hb_hash hb_key (r_hash_table_hash ht) (ht_keq ht) K bs' a (ht_size ht) 0"
    "\<And>k. k \<in> K \<Longrightarrow> oa_find hb_hash hb_key (ht_keq ht) bs' k
           = oa_find hb_hash hb_key (ht_keq ht) (ht_buckets ht) k"
    "oa_entries hb_hash bs' = oa_entries hb_hash (ht_buckets ht)"
    using htb.wf_resize [OF D ht_fresh_bucket_hash a] by blast
  show ?thesis
    by (rule that [of "ht\<lparr>ht_buckets := bs', ht_allocidx := a, ht_tombs := 0\<rparr>"])
      (use D bs' in \<open>simp_all add: r_hash_table_resize_def ht_inv_def ht_contract_def ht_same_config_def
         ht_entry_def\<close>)
qed

lemma ht_make_room:
  assumes inv: "ht_inv ht K" and a: "ht_allocidx ht < 60"
  obtains ht' where
    "(if oa_limit (ht_allocidx ht) \<le> ht_size ht + ht_tombs ht
      then r_hash_table_resize ht
             (if oa_limit (ht_allocidx ht) \<le> ht_size ht then ht_allocidx ht + 1 else ht_allocidx ht)
      else Some ht) = Some ht'"
    "ht_inv ht' K" "ht_same_config ht ht'" "ht_size ht' = ht_size ht"
    "ht_size ht' + ht_tombs ht' < oa_limit (ht_allocidx ht')"
    "ht_allocidx ht' = (if oa_limit (ht_allocidx ht) \<le> ht_size ht then Suc (ht_allocidx ht) else ht_allocidx ht)"
    "\<And>k. k \<in> K \<Longrightarrow> ht_entry ht' k = ht_entry ht k"
proof (cases "oa_limit (ht_allocidx ht) \<le> ht_size ht + ht_tombs ht")
  case True
  let ?a = "if oa_limit (ht_allocidx ht) \<le> ht_size ht then ht_allocidx ht + 1 else ht_allocidx ht"
  have "ht_size ht \<le> oa_limit (ht_allocidx ht)" using ht_invD(1) [OF inv] by (simp add: oa_wf_def)
  moreover have "0 < oa_limit (ht_allocidx ht)" "oa_limit (Suc (ht_allocidx ht)) = 2 * oa_limit (ht_allocidx ht)"
    by (simp_all add: oa_limit_eq)
  ultimately have room: "ht_size ht < oa_limit ?a" by auto
  have "?a \<le> 60" using a by simp
  then obtain ht' where "r_hash_table_resize ht ?a = Some ht'" "ht_inv ht' K" "ht_same_config ht ht'"
    "ht_size ht' = ht_size ht" "ht_tombs ht' = 0" "ht_allocidx ht' = ?a"
    "\<And>k. k \<in> K \<Longrightarrow> ht_entry ht' k = ht_entry ht k"
    "oa_entries hb_hash (ht_buckets ht') = oa_entries hb_hash (ht_buckets ht)"
    by (rule r_hash_table_resize_correct [OF inv _ less_imp_le [OF room]]) (rule that)
  with True room show ?thesis by (intro that [of ht']) (simp_all only: if_True Suc_eq_plus1 add_0_right)
next
  case False
  then show ?thesis by (intro that [of ht]) (simp_all add: inv ht_same_config_def)
qed

text \<open>The destroy notifications of an entry that an insertion overwrites: null members are skipped.\<close>

definition ht_replace_calls :: "RHashTable \<Rightarrow> RHashTableBucket option \<Rightarrow> notify_call list" where
  "ht_replace_calls ht e =
     (case e of None \<Rightarrow> []
      | Some b \<Rightarrow> (if hb_key b \<noteq> NULL then call_notify (ht_keynotify ht) (hb_key b) else []) @
                  (if hb_val b \<noteq> NULL then call_notify (ht_valuenotify ht) (hb_val b) else []))"

lemma hb_overwrite [simp]:
  "(b :: RHashTableBucket)\<lparr>hb_hash := h, hb_key := k, hb_val := v\<rparr> = \<lparr>hb_key = k, hb_val = v, hb_hash = h\<rparr>"
  by (cases b) simp

lemma ht_insert_spec:
  assumes inv: "ht_inv ht K" and key: "key \<in> K" and a: "ht_allocidx ht < 60"
  obtains ht' where
    "r_hash_table_insert (Some ht) key value
       = Some (R_HASH_TABLE_OK, Some ht', ht_replace_calls ht (ht_entry ht key))"
    "ht_inv ht' K" "ht_same_config ht ht'"
    "ht_size ht' = (if ht_entry ht key = None then Suc (ht_size ht) else ht_size ht)"
    "ht_allocidx ht' = (if oa_limit (ht_allocidx ht) \<le> ht_size ht then Suc (ht_allocidx ht) else ht_allocidx ht)"
    "\<And>k. k \<in> K \<Longrightarrow> ht_entry ht' k
       = (if ht_keq ht k key = Some True
          then Some \<lparr>hb_key = key, hb_val = value, hb_hash = r_hash_table_hash ht key\<rparr> else ht_entry ht k)"
proof -
  let ?h = "r_hash_table_hash ht key"
  let ?b = "\<lparr>hb_key = key, hb_val = value, hb_hash = ?h\<rparr>"
  obtain h1 where h1: "(if oa_limit (ht_allocidx ht) \<le> ht_size ht + ht_tombs ht
      then r_hash_table_resize ht
             (if oa_limit (ht_allocidx ht) \<le> ht_size ht then ht_allocidx ht + 1 else ht_allocidx ht)
      else Some ht) = Some h1"
    and inv1: "ht_inv h1 K" and cfg: "ht_same_config ht h1" and sz: "ht_size h1 = ht_size ht"
    and room: "ht_size h1 + ht_tombs h1 < oa_limit (ht_allocidx h1)"
    and idx: "ht_allocidx h1 = (if oa_limit (ht_allocidx ht) \<le> ht_size ht then Suc (ht_allocidx ht) else ht_allocidx ht)"
    and ent: "\<And>k. k \<in> K \<Longrightarrow> ht_entry h1 k = ht_entry ht k"
    using ht_make_room [OF inv a] by blast
  note D = ht_invD [OF inv1] and hash = ht_same_config_hash [OF cfg]
  have eqf: "ht_equalfunc h1 = ht_equalfunc ht" "ht_keynotify h1 = ht_keynotify ht"
    "ht_valuenotify h1 = ht_valuenotify ht" "ht_hashfunc h1 = ht_hashfunc ht"
    using cfg by (simp_all add: ht_same_config_def)
  note ins = r_hash_table_insert_def Let_def option.case oa_limit_def [symmetric] h1 bind.bind_lunit
  show ?thesis
  proof (cases rule: ht_lookup_bucket_cases [OF inv1 key, case_names found absent])
    case (found i b)
    have live: "R_HASH_BUCKET_LIVE (hb_hash (ht_buckets h1 ! i))"
      using r_hash_table_hash_live found(3,4) by simp
    have R: "oa_wf hb_hash hb_key (r_hash_table_hash h1) (ht_keq h1) K ((ht_buckets h1)[i := ?b])
        (ht_allocidx h1) (ht_size h1) (ht_tombs h1)"
      "\<And>k. k \<in> K \<Longrightarrow> oa_find hb_hash hb_key (ht_keq h1) ((ht_buckets h1)[i := ?b]) k
        = (if ht_keq h1 k key = Some True then Some ?b else oa_find hb_hash hb_key (ht_keq h1) (ht_buckets h1) k)"
      using htb.wf_replace [OF D found(2) live, of ?b] found(3-5) key hash by simp_all
    let ?h' = "h1\<lparr>ht_buckets := (ht_buckets h1)[i := ?b]\<rparr>"
    have "ht_entry ht key = Some b" using ent [OF key] found(6) by simp
    then have "r_hash_table_insert (Some ht) key value
        = Some (R_HASH_TABLE_OK, Some ?h', ht_replace_calls ht (ht_entry ht key))"
      unfolding ins using found(1-4) hash eqf by (simp add: ht_replace_calls_def)
    then show ?thesis
    proof (rule that)
      show "ht_inv ?h' K" using R(1) D(2) by (simp add: ht_inv_def ht_contract_def)
      show "ht_same_config ht ?h'" using cfg by (simp add: ht_same_config_def)
      show "ht_size ?h' = (if ht_entry ht key = None then Suc (ht_size ht) else ht_size ht)"
        using \<open>ht_entry ht key = Some b\<close> sz by simp
    qed (use R(2) ent idx eqf(1) in \<open>simp_all add: ht_entry_def\<close>)
  next
    case (absent i)
    have R: "oa_wf hb_hash hb_key (r_hash_table_hash h1) (ht_keq h1) K ((ht_buckets h1)[i := ?b])
        (ht_allocidx h1) (Suc (ht_size h1)) (ht_tombs h1)"
      "\<And>k. k \<in> K \<Longrightarrow> oa_find hb_hash hb_key (ht_keq h1) ((ht_buckets h1)[i := ?b]) k
        = (if ht_keq h1 k key = Some True then Some ?b else oa_find hb_hash hb_key (ht_keq h1) (ht_buckets h1) k)"
      using htb.wf_put [OF D absent(2,3), of ?b] absent(5,6) key room hash by simp_all
    let ?h' = "h1\<lparr>ht_size := Suc (ht_size h1), ht_buckets := (ht_buckets h1)[i := ?b]\<rparr>"
    have "ht_entry ht key = None" using ent [OF key] absent(7) by simp
    then have "r_hash_table_insert (Some ht) key value
        = Some (R_HASH_TABLE_OK, Some ?h', ht_replace_calls ht (ht_entry ht key))"
      unfolding ins using absent(1,2,4) hash by (simp add: ht_replace_calls_def)
    then show ?thesis
    proof (rule that)
      show "ht_inv ?h' K" using R(1) D(2) by (simp add: ht_inv_def ht_contract_def)
      show "ht_same_config ht ?h'" using cfg by (simp add: ht_same_config_def)
      show "ht_size ?h' = (if ht_entry ht key = None then Suc (ht_size ht) else ht_size ht)"
        using \<open>ht_entry ht key = None\<close> sz by simp
    qed (use R(2) ent idx eqf(1) in \<open>simp_all add: ht_entry_def\<close>)
  qed
qed

section \<open>Removal\<close>

lemma ht_delete:
  assumes inv: "ht_inv ht K" and i: "i < length (ht_buckets ht)" "R_HASH_BUCKET_LIVE (hb_hash (ht_buckets ht ! i))"
  defines "ht' \<equiv> ht\<lparr>ht_buckets := (ht_buckets ht)[i := ht_tomb (ht_buckets ht ! i)],
                   ht_size := ht_size ht - 1, ht_tombs := ht_tombs ht + 1\<rparr>"
  shows "ht_inv ht' K" and "ht_same_config ht ht'" and "0 < ht_size ht"
    and "k \<in> K \<Longrightarrow> ht_entry ht' k
           = (if ht_keq ht k (hb_key (ht_buckets ht ! i)) = Some True then None else ht_entry ht k)"
    and "r_hash_table_internal_remove ht i = Some (ht',
           call_notify (ht_keynotify ht) (hb_key (ht_buckets ht ! i)) @
           call_notify (ht_valuenotify ht) (hb_val (ht_buckets ht ! i)))"
  using htb.wf_delete [OF ht_invD [OF inv] i] ht_invD(2) [OF inv] i(1)
  by (simp_all add: ht'_def ht_inv_def ht_contract_def ht_same_config_def ht_entry_def
      r_hash_table_internal_remove_def)

lemma ht_entry_keq:
  assumes "ht_inv ht K" "key \<in> K" "k \<in> K" "ht_entry ht key = Some b"
  shows "ht_keq ht k (hb_key b) = Some True \<longleftrightarrow> ht_keq ht k key = Some True" and "hb_key b \<in> K"
proof -
  note D = ht_invD [OF assms(1)]
  have core: "oa_core hb_hash hb_key (r_hash_table_hash ht) (ht_keq ht) K (ht_buckets ht) (ht_allocidx ht)"
    using D(1) by (simp add: oa_wf_def)
  have b: "b \<in> oa_entries hb_hash (ht_buckets ht)" "ht_keq ht key (hb_key b) = Some True"
    using assms(4) by (auto simp: ht_entry_def oa_find_iff [OF core D(2) assms(2)])
  then show K: "hb_key b \<in> K" using oa_entry_key(1) [OF core] by blast
  show "ht_keq ht k (hb_key b) = Some True \<longleftrightarrow> ht_keq ht k key = Some True"
    using oa_contractD(4,6) [OF D(2)] assms(2,3) b(2) K by blast
qed

text \<open>The destroy notifications of an entry that a removal drops.\<close>

definition ht_drop_calls :: "RHashTable \<Rightarrow> RHashTableBucket \<Rightarrow> notify_call list" where
  "ht_drop_calls ht b = call_notify (ht_keynotify ht) (hb_key b) @ call_notify (ht_valuenotify ht) (hb_val b)"

lemma ht_remove_spec:
  assumes inv: "ht_inv ht K" and key: "key \<in> K"
  obtains (absent) "ht_entry ht key = None"
      "r_hash_table_remove (Some ht) key = Some (R_HASH_TABLE_NOT_FOUND, Some ht, [])"
      "r_hash_table_remove_full (Some ht) key = Some (R_HASH_TABLE_NOT_FOUND, Some ht, [], Some (NULL, NULL))"
      "r_hash_table_steal (Some ht) key = Some (R_HASH_TABLE_NOT_FOUND, Some ht, Some (NULL, NULL))"
  | (present) b ht' where "ht_entry ht key = Some b"
      "r_hash_table_remove (Some ht) key = Some (R_HASH_TABLE_OK, Some ht', ht_drop_calls ht b)"
      "r_hash_table_remove_full (Some ht) key
         = Some (R_HASH_TABLE_OK, Some ht', ht_drop_calls ht b, Some (hb_key b, hb_val b))"
      "r_hash_table_steal (Some ht) key = Some (R_HASH_TABLE_OK, Some ht', Some (hb_key b, hb_val b))"
      "ht_inv ht' K" "ht_same_config ht ht'" "ht_size ht = Suc (ht_size ht')"
      "ht_allocidx ht' = ht_allocidx ht"
      "\<And>k. k \<in> K \<Longrightarrow> ht_entry ht' k = (if ht_keq ht k key = Some True then None else ht_entry ht k)"
proof (cases rule: ht_lookup_bucket_cases [OF inv key, case_names found absent])
  case (found i b)
  have live: "R_HASH_BUCKET_LIVE (hb_hash (ht_buckets ht ! i))"
    using r_hash_table_hash_live found(3,4) by simp
  note del = ht_delete [OF inv found(2) live]
  show ?thesis
  proof (rule present [OF found(6) _ _ _ del(1,2)])
    show "ht_entry (ht\<lparr>ht_buckets := (ht_buckets ht)[i := ht_tomb (ht_buckets ht ! i)],
        ht_size := ht_size ht - 1, ht_tombs := ht_tombs ht + 1\<rparr>) k
        = (if ht_keq ht k key = Some True then None else ht_entry ht k)" if "k \<in> K" for k
      using del(4) [OF that] ht_entry_keq(1) [OF inv key that found(6)] found(3) by simp
  qed (use found del(3,5) in \<open>simp_all add: r_hash_table_remove_def r_hash_table_remove_full_def
         r_hash_table_steal_def ht_drop_calls_def\<close>)
next
  case (absent i)
  show ?thesis
    by (rule that(1) [OF absent(7)])
      (use absent(1,2,4) in \<open>simp_all add: r_hash_table_remove_def r_hash_table_remove_full_def
         r_hash_table_steal_def\<close>)
qed

lemma ht_remove_all_spec:
  assumes inv: "ht_inv ht K"
  obtains ht' where
    "r_hash_table_remove_all (Some ht)
       = (Some ht', concat (map (\<lambda>b. if R_HASH_BUCKET_LIVE (hb_hash b) then ht_drop_calls ht b else [])
                                (ht_buckets ht)))"
    "ht_inv ht' K" "ht_same_config ht ht'" "ht_size ht' = 0" "ht_allocidx ht' = ht_allocidx ht"
    "\<And>k. ht_entry ht' k = None"
proof (cases "ht_size ht = 0 \<and> ht_tombs ht = 0")
  case True
  then have "filter (\<lambda>b. R_HASH_BUCKET_LIVE (hb_hash b)) (ht_buckets ht) = []"
    using ht_invD(1) [OF inv] by (simp add: oa_wf_def oa_live_def)
  then have dead: "\<forall>b \<in> set (ht_buckets ht). \<not> R_HASH_BUCKET_LIVE (hb_hash b)"
    by (simp add: filter_empty_conv)
  have "concat (map (\<lambda>b. if R_HASH_BUCKET_LIVE (hb_hash b) then ht_drop_calls ht b else []) (ht_buckets ht)) = []"
    using dead by simp
  moreover have "ht_entry ht k = None" for k
    using dead by (auto simp: ht_entry_def oa_find_None oa_entries_def)
  ultimately show ?thesis
    using True by (intro that [of ht]) (simp_all add: r_hash_table_remove_all_def ht_same_config_def inv)
next
  case False
  note D = ht_invD [OF inv]
  let ?bs = "map (\<lambda>b. b\<lparr>hb_hash := R_HASH_EMPTY\<rparr>) (ht_buckets ht)"
  let ?ht' = "ht\<lparr>ht_buckets := ?bs, ht_size := 0, ht_tombs := 0\<rparr>"
  have wf: "oa_wf hb_hash hb_key (r_hash_table_hash ht) (ht_keq ht) K ?bs (ht_allocidx ht) 0 0"
    using D(1) by (auto simp: oa_wf_def oa_core_def oa_live_def oa_tombs_def filter_empty_conv)
  have "ht_entry ?ht' k = None" for k
    by (auto simp: ht_entry_def oa_find_None oa_entries_def)
  moreover have "r_hash_table_remove_all (Some ht) = (Some ?ht',
      concat (map (\<lambda>b. if R_HASH_BUCKET_LIVE (hb_hash b) then ht_drop_calls ht b else []) (ht_buckets ht)))"
    unfolding r_hash_table_remove_all_def option.case if_not_P [OF False] ht_drop_calls_def ..
  ultimately show ?thesis
    using wf D(2) by (intro that [of ?ht']) (simp_all add: ht_same_config_def ht_inv_def ht_contract_def)
qed

text \<open>The live buckets a predicate selects.\<close>

abbreviation ht_hit :: "(rpointer \<Rightarrow> rpointer \<Rightarrow> bool) \<Rightarrow> RHashTableBucket \<Rightarrow> bool" where
  "ht_hit f b \<equiv> R_HASH_BUCKET_LIVE (hb_hash b) \<and> f (hb_key b) (hb_val b)"

lemma ht_remove_with_func_loop:
  assumes "ht_inv ht K" "distinct is" "\<forall>i \<in> set is. i < length (ht_buckets ht)"
  shows "\<exists>ht'. r_hash_table_remove_with_func_loop f is ht calls
       = Some (ht', calls @ concat (map (\<lambda>i. let b = ht_buckets ht ! i in
            if ht_hit f b then ht_drop_calls ht b else []) is)) \<and>
     ht_inv ht' K \<and> ht_same_config ht ht' \<and> ht_allocidx ht' = ht_allocidx ht \<and>
     length (ht_buckets ht') = length (ht_buckets ht) \<and>
     (\<forall>j < length (ht_buckets ht). ht_buckets ht' ! j = (let b = ht_buckets ht ! j in
        if j \<in> set is \<and> ht_hit f b then ht_tomb b else b))"
  using assms
proof (induction "is" arbitrary: ht calls)
  case Nil
  then show ?case by (auto simp: ht_same_config_def)
next
  case (Cons i js)
  let ?b = "ht_buckets ht ! i"
  have i: "i < length (ht_buckets ht)" "i \<notin> set js" "distinct js" using Cons.prems by auto
  show ?case
  proof (cases "ht_hit f ?b")
    case True
    let ?h = "ht\<lparr>ht_buckets := (ht_buckets ht)[i := ht_tomb ?b],
                ht_size := ht_size ht - 1, ht_tombs := ht_tombs ht + 1\<rparr>"
    note del = ht_delete [OF Cons.prems(1) i(1) conjunct1 [OF True]]
    from Cons.IH [OF del(1) i(3), of "calls @ ht_drop_calls ht ?b"] Cons.prems(3) obtain ht' where
      ht': "r_hash_table_remove_with_func_loop f js ?h (calls @ ht_drop_calls ht ?b)
        = Some (ht', (calls @ ht_drop_calls ht ?b) @ concat (map (\<lambda>i. let b = ht_buckets ?h ! i in
            if ht_hit f b then ht_drop_calls ?h b else []) js))"
      "ht_inv ht' K" "ht_same_config ?h ht'" "ht_allocidx ht' = ht_allocidx ?h"
      "length (ht_buckets ht') = length (ht_buckets ?h)"
      "\<forall>j < length (ht_buckets ?h). ht_buckets ht' ! j = (let b = ht_buckets ?h ! j in
        if j \<in> set js \<and> ht_hit f b then ht_tomb b else b)"
      by auto
    have same: "map (\<lambda>i. let b = ht_buckets ?h ! i in
            if ht_hit f b then ht_drop_calls ?h b else []) js
        = map (\<lambda>i. let b = ht_buckets ht ! i in
            if ht_hit f b then ht_drop_calls ht b else []) js"
    proof (intro map_cong refl)
      fix x assume "x \<in> set js"
      then have "i \<noteq> x" using i(2) by auto
      then show "(let b = ht_buckets ?h ! x in if ht_hit f b then ht_drop_calls ?h b else [])
          = (let b = ht_buckets ht ! x in if ht_hit f b then ht_drop_calls ht b else [])"
        by (simp add: ht_drop_calls_def Let_def)
    qed
    have step: "r_hash_table_internal_remove ht i = Some (?h, ht_drop_calls ht ?b)"
      unfolding del(5) ht_drop_calls_def ..
    have "r_hash_table_remove_with_func_loop f (i # js) ht calls
        = Some (ht', calls @ concat (map (\<lambda>i. let b = ht_buckets ht ! i in
            if ht_hit f b then ht_drop_calls ht b else []) (i # js)))"
      using True i(1) ht'(1) [unfolded same] step by (simp add: Let_def)
    then show ?thesis
      using ht'(2-) True i by (intro exI [of _ ht'] conjI)
        (auto simp: ht_same_config_def nth_list_update Let_def)
  next
    case False
    from Cons.IH [OF Cons.prems(1) i(3), of calls] Cons.prems(3) obtain ht' where
      ht': "r_hash_table_remove_with_func_loop f js ht calls
        = Some (ht', calls @ concat (map (\<lambda>i. let b = ht_buckets ht ! i in
            if ht_hit f b then ht_drop_calls ht b else []) js))"
      "ht_inv ht' K" "ht_same_config ht ht'" "ht_allocidx ht' = ht_allocidx ht"
      "length (ht_buckets ht') = length (ht_buckets ht)"
      "\<forall>j < length (ht_buckets ht). ht_buckets ht' ! j = (let b = ht_buckets ht ! j in
        if j \<in> set js \<and> ht_hit f b then ht_tomb b else b)"
      by auto
    have "r_hash_table_remove_with_func_loop f (i # js) ht calls
        = Some (ht', calls @ concat (map (\<lambda>i. let b = ht_buckets ht ! i in
            if ht_hit f b then ht_drop_calls ht b else []) (i # js)))"
      using i(1) ht'(1) by (simp add: Let_def if_not_P [OF False])
    then show ?thesis
      using ht'(2-) False by (intro exI [of _ ht'] conjI) (auto simp: Let_def)
  qed
qed

lemma ht_remove_with_func_spec:
  assumes inv: "ht_inv ht K"
  obtains ht' where
    "r_hash_table_remove_with_func (Some ht) (Some f) = Some (R_HASH_TABLE_OK, Some ht',
       concat (map (\<lambda>b. if ht_hit f b
                        then ht_drop_calls ht b else []) (ht_buckets ht)))"
    "ht_inv ht' K" "ht_same_config ht ht'" "ht_allocidx ht' = ht_allocidx ht"
    "ht_buckets ht' = map (\<lambda>b. if ht_hit f b
                                then ht_tomb b else b) (ht_buckets ht)"
proof -
  have len: "R_HASH_CONTAINER_ALLOC_IDX_TO_SIZE (ht_allocidx ht) = length (ht_buckets ht)"
    using ht_invD(1) [OF inv] by (simp add: oa_wf_def oa_core_def)
  let ?is = "[0 ..< length (ht_buckets ht)]"
  obtain ht' where ht': "r_hash_table_remove_with_func_loop f ?is ht []
       = Some (ht', [] @ concat (map (\<lambda>i. let b = ht_buckets ht ! i in
            if ht_hit f b then ht_drop_calls ht b else []) ?is))"
    "ht_inv ht' K" "ht_same_config ht ht'" "ht_allocidx ht' = ht_allocidx ht"
    "length (ht_buckets ht') = length (ht_buckets ht)"
    "\<forall>j < length (ht_buckets ht). ht_buckets ht' ! j = (let b = ht_buckets ht ! j in
        if j \<in> set ?is \<and> ht_hit f b then ht_tomb b else b)"
    using ht_remove_with_func_loop [OF inv, of ?is f "[]"] by auto
  have "map (\<lambda>i. let b = ht_buckets ht ! i in
            if ht_hit f b then ht_drop_calls ht b else []) ?is
      = map (\<lambda>b. if ht_hit f b
                        then ht_drop_calls ht b else []) (ht_buckets ht)"
    by (rule nth_equalityI) (simp_all add: Let_def)
  with ht'(1) have "r_hash_table_remove_with_func (Some ht) (Some f) = Some (R_HASH_TABLE_OK, Some ht',
       concat (map (\<lambda>b. if ht_hit f b
                        then ht_drop_calls ht b else []) (ht_buckets ht)))"
    by (simp add: r_hash_table_remove_with_func_def len)
  then show ?thesis
    by (rule that [OF _ ht'(2-4)]) (rule nth_equalityI, use ht'(5,6) in \<open>simp_all add: Let_def\<close>)
qed

section \<open>Sequences of operations\<close>

text \<open>The operations a client may call on a table, and what they return to it.\<close>

datatype ht_op =
  HT_Insert rpointer rpointer | HT_Lookup rpointer | HT_Contains rpointer
| HT_Remove rpointer | HT_Steal rpointer | HT_Remove_All

datatype ht_result = HT_Error RHashTableError | HT_Value rpointer | HT_Void

fun ht_exec :: "ht_op \<Rightarrow> RHashTable option \<Rightarrow> (ht_result \<times> RHashTable option) option" where
  "ht_exec (HT_Insert k v) p = do { (e, p', _) \<leftarrow> r_hash_table_insert p k v; Some (HT_Error e, p') }"
| "ht_exec (HT_Lookup k) p = do { v \<leftarrow> r_hash_table_lookup p k; Some (HT_Value v, p) }"
| "ht_exec (HT_Contains k) p = do { e \<leftarrow> r_hash_table_contains p k; Some (HT_Error e, p) }"
| "ht_exec (HT_Remove k) p = do { (e, p', _) \<leftarrow> r_hash_table_remove p k; Some (HT_Error e, p') }"
| "ht_exec (HT_Steal k) p = do { (e, p', _) \<leftarrow> r_hash_table_steal p k; Some (HT_Error e, p') }"
| "ht_exec HT_Remove_All p = Some (HT_Void, fst (r_hash_table_remove_all p))"

fun ht_run :: "ht_op list \<Rightarrow> RHashTable option \<Rightarrow> (ht_result list \<times> RHashTable option) option" where
  "ht_run [] p = Some ([], p)"
| "ht_run (x # xs) p = do {
     (r, p') \<leftarrow> ht_exec x p;
     (rs, p'') \<leftarrow> ht_run xs p';
     Some (r # rs, p'')
   }"

text \<open>
  The specification: a partial map on keys, up to the key equality, with the results that
  \<^verbatim>\<open>rhashtable.h\<close> documents: an insertion that overwrites an entry says so by
  \<^const>\<open>R_HASH_TABLE_REPLACE\<close>.
\<close>

fun map_exec ::
  "(rpointer \<Rightarrow> rpointer \<Rightarrow> bool) \<Rightarrow> ht_op \<Rightarrow> (rpointer \<Rightarrow> rpointer option)
   \<Rightarrow> ht_result \<times> (rpointer \<Rightarrow> rpointer option)" where
  "map_exec eq (HT_Insert k v) m =
     (HT_Error (if m k = None then R_HASH_TABLE_OK else R_HASH_TABLE_REPLACE), \<lambda>x. if eq x k then Some v else m x)"
| "map_exec eq (HT_Lookup k) m = (HT_Value (case m k of None \<Rightarrow> NULL | Some v \<Rightarrow> v), m)"
| "map_exec eq (HT_Contains k) m =
     (HT_Error (if m k = None then R_HASH_TABLE_NOT_FOUND else R_HASH_TABLE_OK), m)"
| "map_exec eq (HT_Remove k) m =
     (HT_Error (if m k = None then R_HASH_TABLE_NOT_FOUND else R_HASH_TABLE_OK), \<lambda>x. if eq x k then None else m x)"
| "map_exec eq (HT_Steal k) m =
     (HT_Error (if m k = None then R_HASH_TABLE_NOT_FOUND else R_HASH_TABLE_OK), \<lambda>x. if eq x k then None else m x)"
| "map_exec eq HT_Remove_All m = (HT_Void, \<lambda>x. None)"

fun map_run ::
  "(rpointer \<Rightarrow> rpointer \<Rightarrow> bool) \<Rightarrow> ht_op list \<Rightarrow> (rpointer \<Rightarrow> rpointer option)
   \<Rightarrow> ht_result list \<times> (rpointer \<Rightarrow> rpointer option)" where
  "map_run eq [] m = ([], m)"
| "map_run eq (x # xs) m =
     (let (r, m') = map_exec eq x m; (rs, m'') = map_run eq xs m' in (r # rs, m''))"

text \<open>
  The code never reports an overwrite; this is what it returns where the header documents
  the argument.
\<close>

definition ht_reported :: "ht_result \<Rightarrow> ht_result" where
  "ht_reported r = (if r = HT_Error R_HASH_TABLE_REPLACE then HT_Error R_HASH_TABLE_OK else r)"

lemma ht_reported_found [simp]:
  "ht_reported (HT_Error (if c then R_HASH_TABLE_NOT_FOUND else R_HASH_TABLE_OK))
     = HT_Error (if c then R_HASH_TABLE_NOT_FOUND else R_HASH_TABLE_OK)"
  by (simp add: ht_reported_def)

fun ht_op_key :: "ht_op \<Rightarrow> rpointer set" where
  "ht_op_key (HT_Insert k v) = {k}"
| "ht_op_key (HT_Lookup k) = {k}"
| "ht_op_key (HT_Contains k) = {k}"
| "ht_op_key (HT_Remove k) = {k}"
| "ht_op_key (HT_Steal k) = {k}"
| "ht_op_key HT_Remove_All = {}"

abbreviation ht_same_key :: "RHashTable \<Rightarrow> rpointer \<Rightarrow> rpointer \<Rightarrow> bool" where
  "ht_same_key ht x k \<equiv> ht_keq ht x k = Some True"

text \<open>
  What one operation keeps: the invariant, the functions of the table, and the growth of the
  table with the number of entries.
\<close>

definition ht_grown :: "RHashTable \<Rightarrow> nat \<Rightarrow> bool" where
  "ht_grown ht n \<longleftrightarrow> ht_size ht \<le> n \<and> (ht_allocidx ht = 0 \<or> 6 * 2 ^ (ht_allocidx ht - 1) \<le> n)"

lemma ht_grown_room:
  assumes "ht_grown ht n" "n < 2 ^ 61"
  shows "ht_allocidx ht < 60"
proof (rule ccontr)
  assume "\<not> ht_allocidx ht < 60"
  then have "59 \<le> ht_allocidx ht - 1" "ht_allocidx ht \<noteq> 0" by auto
  then have "2 ^ 59 \<le> (2 :: nat) ^ (ht_allocidx ht - 1)" by (intro power_increasing) simp_all
  with assms \<open>ht_allocidx ht \<noteq> 0\<close> show False by (simp add: ht_grown_def)
qed

lemma ht_entry_cong:
  assumes inv: "ht_inv ht K" and "j \<in> K" "k \<in> K" "ht_same_key ht j k"
  shows "ht_entry ht j = ht_entry ht k"
proof (rule option_eqI)
  note D = ht_invD [OF inv]
  have core: "oa_core hb_hash hb_key (r_hash_table_hash ht) (ht_keq ht) K (ht_buckets ht) (ht_allocidx ht)"
    using D(1) by (simp add: oa_wf_def)
  fix b
  show "(ht_entry ht j = Some b) = (ht_entry ht k = Some b)"
    unfolding ht_entry_def oa_find_iff [OF core D(2) assms(2)] oa_find_iff [OF core D(2) assms(3)]
    using oa_contractD(4,6) [OF D(2)] assms(2-4) oa_entry_key(1) [OF core] by blast
qed

text \<open>An operation on a table simulates the operation on the map.\<close>

definition ht_simulates :: "rpointer set \<Rightarrow> nat \<Rightarrow> RHashTable \<Rightarrow> (rpointer \<Rightarrow> rpointer option) \<Rightarrow> bool" where
  "ht_simulates K n ht m \<longleftrightarrow> ht_inv ht K \<and> ht_grown ht n \<and> (\<forall>k \<in> K. ht_map ht k = m k)"

lemma ht_exec_insert:
  assumes sim: "ht_simulates K n ht m" and k: "k \<in> K" and n: "n < 2 ^ 61"
  shows "\<exists>ht'. ht_exec (HT_Insert k v) (Some ht) = Some (HT_Error R_HASH_TABLE_OK, Some ht') \<and>
     ht_same_config ht ht' \<and> ht_simulates K (Suc n) ht' (\<lambda>x. if ht_same_key ht x k then Some v else m x)"
proof -
  have inv: "ht_inv ht K" and grown: "ht_grown ht n" and m: "\<And>k. k \<in> K \<Longrightarrow> ht_map ht k = m k"
    using sim by (simp_all add: ht_simulates_def)
  show ?thesis
  proof (rule ht_insert_spec [OF inv k ht_grown_room [OF grown n], of v])
    fix ht'
    assume *: "r_hash_table_insert (Some ht) k v
        = Some (R_HASH_TABLE_OK, Some ht', ht_replace_calls ht (ht_entry ht k))"
      "ht_inv ht' K" "ht_same_config ht ht'"
      "ht_size ht' = (if ht_entry ht k = None then Suc (ht_size ht) else ht_size ht)"
      "ht_allocidx ht' = (if oa_limit (ht_allocidx ht) \<le> ht_size ht then Suc (ht_allocidx ht) else ht_allocidx ht)"
      "\<And>x. x \<in> K \<Longrightarrow> ht_entry ht' x = (if ht_same_key ht x k
          then Some \<lparr>hb_key = k, hb_val = v, hb_hash = r_hash_table_hash ht k\<rparr> else ht_entry ht x)"
    have "ht_grown ht' (Suc n)"
      using grown *(4,5) unfolding ht_grown_def oa_limit_eq by (auto split: if_splits)
    moreover have "ht_map ht' x = (if ht_same_key ht x k then Some v else m x)" if "x \<in> K" for x
      using *(6) [OF that] m [OF that] by (simp add: ht_map_def)
    ultimately show ?thesis using *(1-3) by (auto simp: ht_simulates_def)
  qed
qed

lemma ht_exec_remove:
  assumes sim: "ht_simulates K n ht m" and k: "k \<in> K"
  shows "\<exists>ht'. ht_exec (HT_Remove k) (Some ht)
       = Some (HT_Error (if m k = None then R_HASH_TABLE_NOT_FOUND else R_HASH_TABLE_OK), Some ht') \<and>
     ht_exec (HT_Steal k) (Some ht)
       = Some (HT_Error (if m k = None then R_HASH_TABLE_NOT_FOUND else R_HASH_TABLE_OK), Some ht') \<and>
     ht_same_config ht ht' \<and> ht_simulates K (Suc n) ht' (\<lambda>x. if ht_same_key ht x k then None else m x)"
proof -
  have inv: "ht_inv ht K" and grown: "ht_grown ht n" and m: "\<And>k. k \<in> K \<Longrightarrow> ht_map ht k = m k"
    using sim by (simp_all add: ht_simulates_def)
  show ?thesis
  proof (cases rule: ht_remove_spec [OF inv k, case_names absent present])
    case absent
    have "ht_map ht x = (if ht_same_key ht x k then None else m x)" if "x \<in> K" for x
      using ht_entry_cong [OF inv that k] absent(1) m [OF that] by (auto simp: ht_map_def)
    moreover have "ht_grown ht (Suc n)" using grown by (auto simp: ht_grown_def)
    ultimately show ?thesis
      using absent m [OF k] inv by (auto simp: ht_simulates_def ht_same_config_def ht_map_def)
  next
    case (present b ht')
    have "ht_map ht' x = (if ht_same_key ht x k then None else m x)" if "x \<in> K" for x
      using present(9) [OF that] m [OF that] by (simp add: ht_map_def)
    moreover have "ht_grown ht' (Suc n)" using grown present(7,8) by (auto simp: ht_grown_def)
    moreover have "m k \<noteq> None" using m [OF k, symmetric] present(1) by (simp add: ht_map_def)
    ultimately show ?thesis using present(2,4-6) by (auto simp: ht_simulates_def)
  qed
qed

lemma ht_exec_refines:
  assumes sim: "ht_simulates K n ht m" and op: "ht_op_key x \<subseteq> K" and n: "n < 2 ^ 61"
  shows "\<exists>ht'. ht_exec x (Some ht) = Some (ht_reported (fst (map_exec (ht_same_key ht) x m)), Some ht') \<and>
     ht_same_config ht ht' \<and> ht_simulates K (Suc n) ht' (snd (map_exec (ht_same_key ht) x m))"
proof -
  have inv: "ht_inv ht K" and m: "\<And>k. k \<in> K \<Longrightarrow> ht_map ht k = m k"
    using sim by (simp_all add: ht_simulates_def)
  have same: "ht_same_config ht ht \<and> ht_simulates K (Suc n) ht m"
    using sim by (auto simp: ht_simulates_def ht_grown_def ht_same_config_def)
  show ?thesis
  proof (cases x)
    case (HT_Insert k v)
    with ht_exec_insert [OF sim _ n] op show ?thesis by (simp add: ht_reported_def)
  next
    case (HT_Remove k)
    then have "k \<in> K" using op by simp
    from ht_exec_remove [OF sim this] show ?thesis unfolding HT_Remove map_exec.simps fst_conv snd_conv ht_reported_found by blast
  next
    case (HT_Steal k)
    then have "k \<in> K" using op by simp
    from ht_exec_remove [OF sim this] show ?thesis unfolding HT_Steal map_exec.simps fst_conv snd_conv ht_reported_found by blast
  next
    case HT_Remove_All
    show ?thesis
    proof (rule ht_remove_all_spec [OF inv])
      fix ht'
      assume "r_hash_table_remove_all (Some ht) = (Some ht', concat (map (\<lambda>b.
          if R_HASH_BUCKET_LIVE (hb_hash b) then ht_drop_calls ht b else []) (ht_buckets ht)))"
        "ht_inv ht' K" "ht_same_config ht ht'" "ht_size ht' = 0" "ht_allocidx ht' = ht_allocidx ht"
        "\<And>k. ht_entry ht' k = None"
      with HT_Remove_All sim show ?thesis by (auto simp: ht_simulates_def ht_grown_def ht_map_def ht_reported_def)
    qed
  qed (use same op m in \<open>simp_all add: ht_lookup_spec [OF inv] ht_reported_def\<close>)
qed

lemma ht_run_refines:
  assumes "ht_simulates K n ht m" and "\<forall>x \<in> set xs. ht_op_key x \<subseteq> K" and "n + length xs < 2 ^ 61"
  shows "\<exists>ht'. ht_run xs (Some ht) = Some (map ht_reported (fst (map_run (ht_same_key ht) xs m)), Some ht') \<and>
     ht_same_config ht ht' \<and> ht_simulates K (n + length xs) ht' (snd (map_run (ht_same_key ht) xs m))"
  using assms
proof (induction xs arbitrary: n ht m)
  case Nil
  then show ?case by (simp add: ht_same_config_def)
next
  case (Cons x xs)
  obtain h1 where h1: "ht_exec x (Some ht) = Some (ht_reported (fst (map_exec (ht_same_key ht) x m)), Some h1)"
    "ht_same_config ht h1" "ht_simulates K (Suc n) h1 (snd (map_exec (ht_same_key ht) x m))"
    using ht_exec_refines [OF Cons.prems(1), of x] Cons.prems(2,3) by auto
  have eq: "ht_same_key h1 = ht_same_key ht" using h1(2) by (simp add: ht_same_config_def)
  obtain h2 where h2: "ht_run xs (Some h1)
      = Some (map ht_reported (fst (map_run (ht_same_key ht) xs (snd (map_exec (ht_same_key ht) x m)))), Some h2)"
    "ht_same_config h1 h2"
    "ht_simulates K (Suc n + length xs) h2
       (snd (map_run (ht_same_key ht) xs (snd (map_exec (ht_same_key ht) x m))))"
    using Cons.IH [OF h1(3)] Cons.prems(2,3) unfolding eq by auto
  have "ht_same_config ht h2" using h1(2) h2(2) by (simp add: ht_same_config_def)
  with h1(1) h2(1,3) show ?case by (simp add: case_prod_beta Let_def)
qed

lemma ht_entries_tomb:
  assumes "ht_buckets ht' = map (\<lambda>b. if ht_hit f b then ht_tomb b else b) (ht_buckets ht)"
  shows "oa_entries hb_hash (ht_buckets ht')
      = {b \<in> oa_entries hb_hash (ht_buckets ht). \<not> f (hb_key b) (hb_val b)}"
  using assms by (auto simp: oa_entries_def ht_tomb_def split: if_splits)

lemma ht_entry_iff:
  assumes "ht_inv ht K" "k \<in> K"
  shows "ht_entry ht k = Some b \<longleftrightarrow> b \<in> oa_entries hb_hash (ht_buckets ht) \<and> ht_same_key ht k (hb_key b)"
proof -
  have "oa_core hb_hash hb_key (r_hash_table_hash ht) (ht_keq ht) K (ht_buckets ht) (ht_allocidx ht)"
    using ht_invD(1) [OF assms(1)] by (simp add: oa_wf_def)
  from oa_find_iff [OF this ht_invD(2) [OF assms(1)] assms(2)] show ?thesis by (simp add: ht_entry_def)
qed

lemma ht_entry_filter:
  assumes inv: "ht_inv ht K" and "ht_inv ht' K" "ht_same_config ht ht'"
    and ent: "oa_entries hb_hash (ht_buckets ht')
      = {b \<in> oa_entries hb_hash (ht_buckets ht). \<not> f (hb_key b) (hb_val b)}" and k: "k \<in> K"
  shows "ht_entry ht' k = (case ht_entry ht k of None \<Rightarrow> None
        | Some b \<Rightarrow> if f (hb_key b) (hb_val b) then None else Some b)"
proof (rule option_eqI)
  fix b
  have eq: "ht_equalfunc ht' = ht_equalfunc ht" using assms(3) by (simp add: ht_same_config_def)
  have "ht_entry ht' k = Some b \<longleftrightarrow> ht_entry ht k = Some b \<and> \<not> f (hb_key b) (hb_val b)"
    by (auto simp: ht_entry_iff [OF assms(2) k] ht_entry_iff [OF inv k] ent eq)
  then show "(ht_entry ht' k = Some b) = ((case ht_entry ht k of None \<Rightarrow> None
        | Some b \<Rightarrow> if f (hb_key b) (hb_val b) then None else Some b) = Some b)"
    by (auto split: option.splits)
qed

lemma ht_foreach_spec:
  assumes inv: "ht_inv ht K"
  defines "visited \<equiv> map (\<lambda>b. (hb_key b, hb_val b)) (filter (\<lambda>b. R_HASH_BUCKET_LIVE (hb_hash b)) (ht_buckets ht))"
  shows "r_hash_table_foreach (Some ht) True = (R_HASH_TABLE_OK, visited)"
    and "length visited = ht_size ht"
    and "\<forall>(k, v) \<in> set visited. k \<in> K \<and> ht_map ht k = Some v"
    and "sorted_wrt (\<lambda>(a, _) (b, _). \<not> ht_same_key ht b a) visited"
    and "set visited = (\<lambda>b. (hb_key b, hb_val b)) ` oa_entries hb_hash (ht_buckets ht)"
proof -
  note D = ht_invD [OF inv]
  have core: "oa_core hb_hash hb_key (r_hash_table_hash ht) (ht_keq ht) K (ht_buckets ht) (ht_allocidx ht)"
    using D(1) by (simp add: oa_wf_def)
  have "concat (map (\<lambda>b. if R_HASH_BUCKET_LIVE (hb_hash b) then [(hb_key b, hb_val b)] else []) bs)
      = map (\<lambda>b. (hb_key b, hb_val b)) (filter (\<lambda>b. R_HASH_BUCKET_LIVE (hb_hash b)) bs)" for bs
    by (induction bs) simp_all
  then show "r_hash_table_foreach (Some ht) True = (R_HASH_TABLE_OK, visited)"
    by (simp add: r_hash_table_foreach_def visited_def)
  show "length visited = ht_size ht" using D(1) by (simp add: visited_def oa_wf_def oa_live_def)
  show vis: "set visited = (\<lambda>b. (hb_key b, hb_val b)) ` oa_entries hb_hash (ht_buckets ht)"
    by (auto simp: visited_def oa_entries_def)
  have "hb_key b \<in> K \<and> ht_map ht (hb_key b) = Some (hb_val b)"
    if b: "b \<in> oa_entries hb_hash (ht_buckets ht)" for b
  proof -
    have "hb_key b \<in> K" using oa_entry_key(1) [OF core b] .
    then show ?thesis
      using b oa_contractD(3) [OF D(2)] ht_entry_iff [OF inv, of "hb_key b" b] by (simp add: ht_map_def)
  qed
  then show "\<forall>(k, v) \<in> set visited. k \<in> K \<and> ht_map ht k = Some v" unfolding vis by auto
  have "sorted_wrt (\<lambda>b c. \<not> ht_same_key ht (hb_key c) (hb_key b))
      (filter (\<lambda>b. R_HASH_BUCKET_LIVE (hb_hash b)) bs)"
    if "oa_fresh_keys hb_hash hb_key (ht_keq ht) bs" for bs
    using that by (induction bs) (auto simp: oa_fresh_keys_def)
  then show "sorted_wrt (\<lambda>(a, _) (b, _). \<not> ht_same_key ht b a) visited"
    using oa_core_fresh_keys [OF core] by (simp add: visited_def sorted_wrt_map)
qed

section \<open>Properties\<close>

text \<open>
  C1. A hash table refines a map.  Take the table that \<^const>\<open>r_hash_table_new_full\<close> returns when
  its allocations succeed, with hash and equality functions that fit together on the keys in
  use, and run any sequence of insertions, lookups, membership tests, removals, steals and
  clears: every call returns, every result is the one the map gives, and the final table stands
  for the final map.  The results of the map are those of the documentation
  (\<^verbatim>\<open>rhashtable.h:65-70\<close> and \<^verbatim>\<open>:113\<close>) and the code departs from them in one place, which
  \<^const>\<open>ht_reported\<close> marks: an insertion that overwrites an entry returns
  \<^const>\<open>R_HASH_TABLE_OK\<close>, not the documented \<^const>\<open>R_HASH_TABLE_REPLACE\<close>.  The bound on the number of calls keeps
  the size of the bucket array within 64 bits.
\<close>

theorem r_hash_table_refines_map:
  assumes "ht_contract (ht_fresh h e kn vn) K"
    and "\<forall>x \<in> set ops. ht_op_key x \<subseteq> K" and "length ops < 2 ^ 61"
  shows "\<exists>ht ht'. r_hash_table_new_full True True h e kn vn = Some (Some ht) \<and>
    ht_run ops (Some ht)
      = Some (map ht_reported (fst (map_run (\<lambda>x k. oa_key_equal e x k = Some True) ops (\<lambda>_. None))), Some ht') \<and>
    ht_inv ht' K \<and>
    (\<forall>k \<in> K. ht_map ht' k = snd (map_run (\<lambda>x k. oa_key_equal e x k = Some True) ops (\<lambda>_. None)) k)"
proof -
  let ?ht = "ht_fresh h e kn vn"
  have "ht_simulates K 0 ?ht (\<lambda>_. None)"
    using ht_inv_new [OF assms(1)] by (simp add: ht_simulates_def ht_grown_def ht_fresh_def)
  from ht_run_refines [OF this assms(2)] assms(3) show ?thesis
    by (auto simp: ht_simulates_def ht_fresh_def r_hash_table_new_full_def)
qed

lemma ht_contract_new_direct:
  "- 1 \<notin> K \<Longrightarrow> - 2 \<notin> K \<Longrightarrow> ht_contract (ht_fresh None None kn vn) K"
  by (rule ht_contract_direct) (simp_all add: ht_fresh_def)

theorem r_hash_table_refines_map_witness:
  "\<exists>ht ht'. r_hash_table_new_full True True None None 0 0 = Some (Some ht) \<and>
     ht_run [HT_Insert 1 10, HT_Insert 2 20, HT_Insert 1 11, HT_Remove 2, HT_Lookup 1, HT_Lookup 2] (Some ht)
     = Some ([HT_Error R_HASH_TABLE_OK, HT_Error R_HASH_TABLE_OK, ht_reported (HT_Error R_HASH_TABLE_REPLACE),
              HT_Error R_HASH_TABLE_OK, HT_Value 11, HT_Value 0], Some ht')"
proof -
  have "ht_contract (ht_fresh None None 0 0) {1, 2}"
    by (rule ht_contract_new_direct) simp_all
  from r_hash_table_refines_map [OF this, of "[HT_Insert 1 10, HT_Insert 2 20, HT_Insert 1 11, HT_Remove 2,
      HT_Lookup 1, HT_Lookup 2]"] show ?thesis
    by (auto simp: oa_key_equal_def Let_def ht_reported_def)
qed

text \<open>
  C2. An insertion into a table with its invariant returns and leaves a table with the
  invariant in which the key has the new key address and value and every other key is
  unchanged; the size grows by one exactly when the key was absent; an overwritten entry is
  handed to the destroy notifiers, key first, null members skipped.  The result is
  \<^const>\<open>R_HASH_TABLE_OK\<close> in both cases: the documentation (\<^verbatim>\<open>rhashtable.h:65-70\<close> and
  \<^verbatim>\<open>:113\<close>) promises \<^const>\<open>R_HASH_TABLE_REPLACE\<close> for an overwritten entry, which the code never returns.
\<close>

theorem r_hash_table_insert_correct:
  assumes "ht_inv ht K" and "key \<in> K" and "ht_allocidx ht < 60"
  shows "\<exists>ht'. r_hash_table_insert (Some ht) key value
       = Some (R_HASH_TABLE_OK, Some ht', ht_replace_calls ht (ht_entry ht key)) \<and>
     ht_inv ht' K \<and> ht_same_config ht ht' \<and>
     ht_size ht' = (if ht_entry ht key = None then Suc (ht_size ht) else ht_size ht) \<and>
     (\<forall>k \<in> K. ht_entry ht' k = (if ht_same_key ht k key
        then Some \<lparr>hb_key = key, hb_val = value, hb_hash = r_hash_table_hash ht key\<rparr> else ht_entry ht k))"
  by (rule ht_insert_spec [OF assms, of "value"]) blast

theorem r_hash_table_insert_correct_witness:
  "\<exists>ht'. r_hash_table_insert (Some (ht_fresh None None 7 8)) 1 5
       = Some (R_HASH_TABLE_OK, Some ht', []) \<and> ht_inv ht' {1, 2} \<and> ht_size ht' = 1"
proof -
  let ?ht = "ht_fresh None None 7 8"
  have inv: "ht_inv ?ht {1, 2}" by (rule ht_inv_new, rule ht_contract_new_direct) simp_all
  have none: "ht_entry ?ht 1 = None" using ht_inv_new(2) [OF ht_contract_new_direct, of "{1}" 7 8 1]
    by (simp add: ht_map_def)
  have "ht_size ?ht = 0" "ht_allocidx ?ht < 60" by (simp_all add: ht_fresh_def)
  with r_hash_table_insert_correct [OF inv, of 1 5] none show ?thesis
    by (auto simp: ht_replace_calls_def)
qed

text \<open>
  C3. The three removals agree on the table: an absent key leaves it as it is with
  \<^const>\<open>R_HASH_TABLE_NOT_FOUND\<close>; a present one is dropped, every other key and the invariant
  are kept and the size goes down by one.  A removal hands the stored key and value to the
  destroy notifiers, a steal returns them instead.
\<close>

theorem r_hash_table_remove_correct:
  assumes "ht_inv ht K" and "key \<in> K"
  shows "case ht_entry ht key of
      None \<Rightarrow> r_hash_table_remove (Some ht) key = Some (R_HASH_TABLE_NOT_FOUND, Some ht, []) \<and>
        r_hash_table_remove_full (Some ht) key = Some (R_HASH_TABLE_NOT_FOUND, Some ht, [], Some (NULL, NULL)) \<and>
        r_hash_table_steal (Some ht) key = Some (R_HASH_TABLE_NOT_FOUND, Some ht, Some (NULL, NULL))
    | Some b \<Rightarrow> \<exists>ht'.
        r_hash_table_remove (Some ht) key = Some (R_HASH_TABLE_OK, Some ht', ht_drop_calls ht b) \<and>
        r_hash_table_remove_full (Some ht) key
          = Some (R_HASH_TABLE_OK, Some ht', ht_drop_calls ht b, Some (hb_key b, hb_val b)) \<and>
        r_hash_table_steal (Some ht) key = Some (R_HASH_TABLE_OK, Some ht', Some (hb_key b, hb_val b)) \<and>
        ht_inv ht' K \<and> ht_same_config ht ht' \<and> ht_size ht = Suc (ht_size ht') \<and>
        (\<forall>k \<in> K. ht_entry ht' k = (if ht_same_key ht k key then None else ht_entry ht k))"
  by (rule ht_remove_spec [OF assms]; auto)

theorem r_hash_table_remove_correct_witness:
  "\<exists>ht ht'. r_hash_table_insert (Some (ht_fresh None None 7 8)) 1 5
       = Some (R_HASH_TABLE_OK, Some ht, []) \<and>
     r_hash_table_remove (Some ht) 1 = Some (R_HASH_TABLE_OK, Some ht', [(7, 1), (8, 5)]) \<and> ht_size ht' = 0"
proof -
  let ?ht = "ht_fresh None None 7 8"
  have inv: "ht_inv ?ht {1}" by (rule ht_inv_new, rule ht_contract_new_direct) simp_all
  have none: "ht_entry ?ht 1 = None" using ht_inv_new(2) [OF ht_contract_new_direct, of "{1}" 7 8 1]
    by (simp add: ht_map_def)
  have init: "ht_size ?ht = 0" "ht_allocidx ?ht < 60" "ht_keynotify ?ht = 7" "ht_valuenotify ?ht = 8"
    "ht_equalfunc ?ht = None"
    by (simp_all add: ht_fresh_def)
  show ?thesis
  proof (rule ht_insert_spec [OF inv _ init(2), of 1 5])
    fix ht assume ht: "r_hash_table_insert (Some ?ht) 1 5
        = Some (R_HASH_TABLE_OK, Some ht, ht_replace_calls ?ht (ht_entry ?ht 1))" "ht_inv ht {1}"
      "ht_same_config ?ht ht" "ht_size ht = (if ht_entry ?ht 1 = None then Suc (ht_size ?ht) else ht_size ?ht)"
      "\<And>k. k \<in> {1} \<Longrightarrow> ht_entry ht k = (if ht_same_key ?ht k 1
          then Some \<lparr>hb_key = 1, hb_val = 5, hb_hash = r_hash_table_hash ?ht 1\<rparr> else ht_entry ?ht k)"
    have "ht_entry ht 1 = Some \<lparr>hb_key = 1, hb_val = 5, hb_hash = r_hash_table_hash ?ht 1\<rparr>"
      using ht(5) [of 1] init(5) by (simp add: oa_key_equal_def)
    with r_hash_table_remove_correct [OF ht(2), of 1] ht(1,3,4) none init show ?thesis
      by (auto simp: ht_drop_calls_def ht_replace_calls_def ht_same_config_def call_notify_def)
  qed simp
qed

text \<open>
  C4. A predicate removal drops exactly the entries the predicate selects and notifies each of
  them once, and a traversal then visits exactly the remaining entries: as many as the size
  says, each with the value the map has for its key, no two with equal keys.
\<close>

theorem r_hash_table_remove_with_func_correct:
  assumes "ht_inv ht K"
  shows "\<exists>ht' visited. r_hash_table_remove_with_func (Some ht) (Some f) = Some (R_HASH_TABLE_OK, Some ht',
       concat (map (ht_drop_calls ht) (filter (ht_hit f) (ht_buckets ht)))) \<and>
     ht_inv ht' K \<and> ht_same_config ht ht' \<and>
     (\<forall>k \<in> K. ht_entry ht' k = (case ht_entry ht k of None \<Rightarrow> None
        | Some b \<Rightarrow> if f (hb_key b) (hb_val b) then None else Some b)) \<and>
     r_hash_table_foreach (Some ht') True = (R_HASH_TABLE_OK, visited) \<and> length visited = ht_size ht' \<and>
     (\<forall>(k, v) \<in> set visited. k \<in> K \<and> ht_map ht' k = Some v \<and> \<not> f k v) \<and>
     sorted_wrt (\<lambda>(a, _) (b, _). \<not> ht_same_key ht b a) visited"
proof (rule ht_remove_with_func_spec [OF assms, of f])
  fix ht'
  assume ht': "r_hash_table_remove_with_func (Some ht) (Some f) = Some (R_HASH_TABLE_OK, Some ht',
       concat (map (\<lambda>b. if ht_hit f b then ht_drop_calls ht b else []) (ht_buckets ht)))"
    "ht_inv ht' K" "ht_same_config ht ht'"
    "ht_buckets ht' = map (\<lambda>b. if ht_hit f b then ht_tomb b else b) (ht_buckets ht)"
  have calls: "concat (map (\<lambda>b. if ht_hit f b then ht_drop_calls ht b else []) bs)
      = concat (map (ht_drop_calls ht) (filter (ht_hit f) bs))" for bs
    by (induction bs) simp_all
  have eq: "ht_equalfunc ht' = ht_equalfunc ht" using ht'(3) by (simp add: ht_same_config_def)
  have ent: "oa_entries hb_hash (ht_buckets ht')
      = {b \<in> oa_entries hb_hash (ht_buckets ht). \<not> f (hb_key b) (hb_val b)}"
    by (rule ht_entries_tomb [OF ht'(4)])
  have "\<forall>k \<in> K. ht_entry ht' k = (case ht_entry ht k of None \<Rightarrow> None
        | Some b \<Rightarrow> if f (hb_key b) (hb_val b) then None else Some b)"
    using ht_entry_filter [OF assms ht'(2,3) ent] by blast
  moreover note F = ht_foreach_spec [OF ht'(2)]
  moreover have "\<forall>(k, v) \<in> set (map (\<lambda>b. (hb_key b, hb_val b))
      (filter (\<lambda>b. R_HASH_BUCKET_LIVE (hb_hash b)) (ht_buckets ht'))). k \<in> K \<and> ht_map ht' k = Some v \<and> \<not> f k v"
    using F(3) unfolding F(5) ent by auto
  ultimately show ?thesis
    using ht'(1) [unfolded calls] ht'(2,3) F(4) [unfolded eq] by (intro exI conjI)
qed

theorem r_hash_table_remove_with_func_correct_witness:
  "\<exists>ht ht' calls. r_hash_table_insert (Some (ht_fresh None None 7 8)) 1 5 = Some (R_HASH_TABLE_OK, Some ht, []) \<and>
     r_hash_table_remove_with_func (Some ht) (Some (\<lambda>k v. r_hash_table_remove_func_value k v 5))
       = Some (R_HASH_TABLE_OK, Some ht', calls) \<and>
     r_hash_table_foreach (Some ht') True = (R_HASH_TABLE_OK, [])"
proof -
  let ?ht = "ht_fresh None None 7 8" and ?f = "\<lambda>k v. r_hash_table_remove_func_value k v 5"
  have inv: "ht_inv ?ht {1}" by (rule ht_inv_new, rule ht_contract_new_direct) simp_all
  have none: "ht_entry ?ht 1 = None" using ht_inv_new(2) [OF ht_contract_new_direct, of "{1}" 7 8 1]
    by (simp add: ht_map_def)
  have init: "ht_allocidx ?ht < 60" "ht_equalfunc ?ht = None" by (simp_all add: ht_fresh_def)
  show ?thesis
  proof (rule ht_insert_spec [OF inv _ init(1), of 1 5])
    fix ht assume ht: "r_hash_table_insert (Some ?ht) 1 5
        = Some (R_HASH_TABLE_OK, Some ht, ht_replace_calls ?ht (ht_entry ?ht 1))" "ht_inv ht {1}"
      "\<And>k. k \<in> {1} \<Longrightarrow> ht_entry ht k = (if ht_same_key ?ht k 1
          then Some \<lparr>hb_key = 1, hb_val = 5, hb_hash = r_hash_table_hash ?ht 1\<rparr> else ht_entry ?ht k)"
    have e: "ht_entry ht 1 = Some \<lparr>hb_key = 1, hb_val = 5, hb_hash = r_hash_table_hash ?ht 1\<rparr>"
      using ht(3) [of 1] init(2) by (simp add: oa_key_equal_def)
    from r_hash_table_remove_with_func_correct [OF ht(2), of ?f] obtain ht' calls visited where
      r: "r_hash_table_remove_with_func (Some ht) (Some ?f) = Some (R_HASH_TABLE_OK, Some ht', calls)"
        "r_hash_table_foreach (Some ht') True = (R_HASH_TABLE_OK, visited)"
      and v: "\<forall>(k, v) \<in> set visited. k \<in> {1} \<and> ht_map ht' k = Some v"
      and e': "ht_entry ht' 1 = (case ht_entry ht 1 of None \<Rightarrow> None
        | Some b \<Rightarrow> if ?f (hb_key b) (hb_val b) then None else Some b)" by fast
    have "ht_map ht' 1 = None" using e' by (simp add: e ht_map_def r_hash_table_remove_func_value_def)
    then have "visited = []" using v by (cases visited) auto
    with r ht(1) none show ?thesis by (simp add: ht_replace_calls_def)
  qed simp
qed

text \<open>
  C5. A dictionary compares keys by their characters: after an insertion with the string at
  one address, a lookup or a membership test with any address that holds the same string (up to
  its terminator) finds the value, and other strings answer as before.  The insertion returns
  true whether it adds the string or overwrites its value, where \<^verbatim>\<open>rdictionary.h:69-71\<close>
  documents true for a fresh insertion only.
\<close>

theorem r_dictionary_insert_lookup:
  assumes "ht_inv d UNIV" and "ht_equalfunc d = Some (\<lambda>p q. r_str_equal (str p) (str q))"
    and "ht_allocidx d < 60"
  shows "\<exists>d' calls. r_dictionary_insert (Some d) key v = Some (True, Some d', calls) \<and> ht_inv d' UNIV \<and>
     (\<forall>k. r_dictionary_lookup (Some d') k
        = (if r_str_equal (str k) (str key) then Some v else r_dictionary_lookup (Some d) k)) \<and>
     (\<forall>k. r_dictionary_contains (Some d') k
        = (if r_str_equal (str k) (str key) then Some True else r_dictionary_contains (Some d) k))"
proof (rule ht_insert_spec [OF assms(1) UNIV_I assms(3), of key v])
  fix d'
  assume d': "r_hash_table_insert (Some d) key v = Some (R_HASH_TABLE_OK, Some d', ht_replace_calls d (ht_entry d key))"
    "ht_inv d' UNIV" "ht_same_config d d'"
    "\<And>k. k \<in> UNIV \<Longrightarrow> ht_entry d' k = (if ht_same_key d k key
        then Some \<lparr>hb_key = key, hb_val = v, hb_hash = r_hash_table_hash d key\<rparr> else ht_entry d k)"
  have map': "ht_map d' k = (if r_str_equal (str k) (str key) then Some v else ht_map d k)" for k
    using d'(4) [of k] by (simp add: ht_map_def oa_key_equal_def assms(2))
  show ?thesis
    using d'(1,2) by (auto simp: r_dictionary_lookup_def r_dictionary_contains_def r_dictionary_insert_def
        ht_lookup_spec [OF d'(2) UNIV_I] ht_lookup_spec [OF assms(1) UNIV_I] map')
qed

lemma ht_inv_dictionary: "ht_inv (dict_fresh str notify) UNIV"
proof (rule ht_inv_new(1), rule ht_contract_equalfunc)
  show "ht_equalfunc (dict_fresh str notify) = Some (\<lambda>p q. r_str_equal (str p) (str q))"
    by (simp add: ht_fresh_def)
qed (auto simp: ht_fresh_def intro: r_str_equal_equiv r_str_equal_hash)

text \<open>The address 16 holds "a" and then junk, the address 32 holds "a".\<close>

theorem r_dictionary_insert_lookup_witness:
  "\<exists>d d' calls. r_dictionary_new_full True True
       (\<lambda>p. if p = 16 then Some [97, 0, 3] else if p = 32 then Some [97, 0] else None) 0 = Some (Some d) \<and>
     r_dictionary_insert (Some d) 16 5 = Some (True, Some d', calls) \<and> r_dictionary_lookup (Some d') 32 = Some 5"
proof -
  let ?str = "\<lambda>p :: rpointer. if p = 16 then Some [97, 0, 3] else if p = 32 then Some [97, 0 :: ruint8] else None"
  let ?d = "dict_fresh ?str 0"
  have "ht_equalfunc ?d = Some (\<lambda>p q. r_str_equal (?str p) (?str q))" "ht_allocidx ?d < 60"
    by (simp_all add: ht_fresh_def)
  note T = r_dictionary_insert_lookup [OF ht_inv_dictionary this, of 16 5]
  then obtain d' calls where "r_dictionary_insert (Some ?d) 16 5 = Some (True, Some d', calls)"
    and look: "\<forall>k. r_dictionary_lookup (Some d') k
      = (if r_str_equal (?str k) (?str 16) then Some 5 else r_dictionary_lookup (Some ?d) k)" by blast
  moreover have "r_str_equal (?str 32) (?str 16)" by (simp add: r_str_equal_def)
  moreover have "r_dictionary_new_full True True ?str 0 = Some (Some ?d)"
    by (simp add: r_dictionary_new_full_def r_hash_table_new_full_def)
  ultimately show ?thesis using look [rule_format, of 32] by auto
qed

lemma ht_lookup_bucket_stuck:
  assumes inv: "ht_inv ht K" and eq: "ht_equalfunc ht = None" and a: "a \<in> K" "ht_entry ht a \<noteq> None"
    and key: "r_hash_table_hash ht key = r_hash_table_hash ht a" "key \<noteq> a"
  shows "r_hash_table_lookup_bucket ht key = None"
proof -
  note D = ht_invD [OF inv]
  have core: "oa_core hb_hash hb_key (r_hash_table_hash ht) (ht_keq ht) K (ht_buckets ht) (ht_allocidx ht)"
    using D(1) by (simp add: oa_wf_def)
  note C = oa_coreD [OF core]
  from a(2) obtain b where "ht_entry ht a = Some b" by blast
  then have b: "b \<in> oa_entries hb_hash (ht_buckets ht)" "ht_same_key ht a (hb_key b)"
    unfolding ht_entry_iff [OF inv a(1)] by simp_all
  then have ka: "hb_key b = a" by (simp add: oa_key_equal_def eq split: if_splits)
  from b(1) obtain i where i: "i < length (ht_buckets ht)" "ht_buckets ht ! i = b" "R_HASH_BUCKET_LIVE (hb_hash b)"
    by (auto simp: oa_entries_iff)
  with C(3) [of i] ka key(1) have hash: "hb_hash (ht_buckets ht ! i) = r_hash_table_hash ht key" by simp
  have "ht_keq ht key (hb_key (ht_buckets ht ! j)) = None"
    if j: "j < length (ht_buckets ht)" "hb_hash (ht_buckets ht ! j) = r_hash_table_hash ht key" for j
  proof -
    have "hb_key (ht_buckets ht ! j) \<in> K \<and> r_hash_table_hash ht (hb_key (ht_buckets ht ! j)) = r_hash_table_hash ht a"
      using C(3) [OF j(1)] j(2) key(1) r_hash_table_hash_live [of ht key] by simp
    then have "ht_keq ht a (hb_key (ht_buckets ht ! j)) \<noteq> None" using oa_contractD(2) [OF D(2) a(1)] by simp
    then have "hb_key (ht_buckets ht ! j) = a" by (simp add: oa_key_equal_def eq split: if_splits)
    then show ?thesis using key(2) by (simp add: oa_key_equal_def eq)
  qed
  then have "oa_probe (oa_lookup_stop hb_hash hb_key (ht_keq ht) key (r_hash_table_hash ht key)) (ht_buckets ht)
      (ht_allocidx ht) (R_HASH_HOME_BUCKET (r_hash_table_hash ht key) (ht_allocidx ht)) 0 = None"
    by (intro oa_probe_stuck [OF core i(1) _ hash]) (simp_all add: i(2,3))
  then show ?thesis unfolding r_hash_table_lookup_bucket_def Let_def by simp
qed

text \<open>
  C6. A table without an equality function cannot tell apart two keys with one hash.  In any
  table with its invariant, once a key is stored, a different address with the same hash makes
  every operation that takes a key call the null equality function: a lookup, a membership
  test, the removals and an insertion, also when the insertion rebuilds the table first.  The
  test in the probe loop falls through to the call when the addresses differ.
\<close>

theorem r_hash_table_null_equalfunc:
  assumes "ht_inv ht K" and "ht_equalfunc ht = None" and "a \<in> K" and "ht_map ht a \<noteq> None"
    and "r_hash_table_hash ht key = r_hash_table_hash ht a" and "key \<noteq> a" and "ht_allocidx ht < 60"
  shows "r_hash_table_lookup (Some ht) key = None \<and> r_hash_table_lookup_full (Some ht) key = None \<and>
     r_hash_table_contains (Some ht) key = None \<and> r_hash_table_remove (Some ht) key = None \<and>
     r_hash_table_remove_full (Some ht) key = None \<and> r_hash_table_steal (Some ht) key = None \<and>
     r_hash_table_insert (Some ht) key value = None"
proof -
  have a: "ht_entry ht a \<noteq> None" using assms(4) by (simp add: ht_map_def)
  have stuck: "r_hash_table_lookup_bucket ht key = None"
    by (rule ht_lookup_bucket_stuck [OF assms(1-3) a assms(5,6)])
  have "r_hash_table_insert (Some ht) key value = None"
  proof (rule ht_make_room [OF assms(1,7)])
    fix h1
    assume h1: "(if oa_limit (ht_allocidx ht) \<le> ht_size ht + ht_tombs ht
        then r_hash_table_resize ht
               (if oa_limit (ht_allocidx ht) \<le> ht_size ht then ht_allocidx ht + 1 else ht_allocidx ht)
        else Some ht) = Some h1" "ht_inv h1 K" "ht_same_config ht h1" "\<And>k. k \<in> K \<Longrightarrow> ht_entry h1 k = ht_entry ht k"
    have "ht_equalfunc h1 = None" using h1(3) assms(2) by (simp add: ht_same_config_def)
    moreover have "ht_entry h1 a \<noteq> None" using h1(4) [OF assms(3)] a by simp
    moreover have "r_hash_table_hash h1 key = r_hash_table_hash h1 a"
      unfolding ht_same_config_hash [OF h1(3)] by (rule assms(5))
    ultimately have "r_hash_table_lookup_bucket h1 key = None"
      using ht_lookup_bucket_stuck [OF h1(2) _ assms(3)] assms(6) by blast
    then show ?thesis
      unfolding r_hash_table_insert_def Let_def option.case oa_limit_def [symmetric] h1(1) by simp
  qed
  with stuck show ?thesis
    by (simp add: r_hash_table_lookup_def r_hash_table_lookup_full_def r_hash_table_contains_def
        r_hash_table_remove_def r_hash_table_remove_full_def r_hash_table_steal_def)
qed

theorem r_hash_table_null_equalfunc_witness:
  "\<exists>ht. r_hash_table_insert (Some (ht_fresh (Some (\<lambda>p. 7)) None 0 0)) 1 10
       = Some (R_HASH_TABLE_OK, Some ht, []) \<and>
     r_hash_table_lookup (Some ht) 2 = None \<and> r_hash_table_insert (Some ht) 2 20 = None"
proof -
  let ?new = "ht_fresh (Some (\<lambda>p. 7)) None 0 0"
  have con: "ht_contract ?new {1}"
    by (rule ht_contract_identity) (simp_all add: ht_fresh_def)
  have new: "ht_allocidx ?new = 0" "ht_size ?new = 0" "ht_entry ?new 1 = None" "ht_equalfunc ?new = None"
    "ht_hashfunc ?new = (\<lambda>p. 7)"
    using ht_inv_new(2) [OF con, of 1] by (simp_all add: ht_fresh_def ht_map_def)
  show ?thesis
  proof (rule ht_insert_spec [OF ht_inv_new(1) [OF con], of 1 10])
    fix ht assume ht: "r_hash_table_insert (Some ?new) 1 10
        = Some (R_HASH_TABLE_OK, Some ht, ht_replace_calls ?new (ht_entry ?new 1))" "ht_inv ht {1}"
      "ht_same_config ?new ht"
      "ht_allocidx ht = (if oa_limit (ht_allocidx ?new) \<le> ht_size ?new then Suc (ht_allocidx ?new) else ht_allocidx ?new)"
      "\<And>k. k \<in> {1} \<Longrightarrow> ht_entry ht k = (if ht_same_key ?new k 1
          then Some \<lparr>hb_key = 1, hb_val = 10, hb_hash = r_hash_table_hash ?new 1\<rparr> else ht_entry ?new k)"
    have "ht_map ht 1 \<noteq> None" using ht(5) [of 1] new(4) by (simp add: ht_map_def oa_key_equal_def)
    moreover have "ht_equalfunc ht = None" "ht_hashfunc ht = (\<lambda>p. 7)" "ht_allocidx ht < 60"
      using ht(3,4) new by (simp_all add: ht_same_config_def)
    ultimately show ?thesis
      using r_hash_table_null_equalfunc [OF ht(2), of 1 2 20] ht(1) new(3)
      by (simp add: r_hash_table_hash_def ht_replace_calls_def)
  qed (simp_all add: new)
qed

end
