(* ===== verification/RHashSet.thy ===== *)
theory RHashSet
  imports RHash
begin

text \<open>
  \<^verbatim>\<open>rlib/data/rhashset.c\<close>: the hash set, the same open addressing as the hash table
  with one address per bucket.  Conventions are those of \<^verbatim>\<open>RHashTable\<close>: a pointer to
  a set is an option, an operation returns its result, the new set and the destroy
  notifications, and the outer \<^const>\<open>None\<close> is an operation that does not return.  The
  constructor takes the outcome of its two allocations; the new bucket array of a resize is
  taken to be served, the code being without a test of it.
\<close>

section \<open>Data\<close>

record RHashSetBucket =
  sb_item :: rpointer
  sb_hash :: rsize

record RHashSet =
  hs_size :: nat
  hs_tombs :: nat
  hs_allocidx :: nat
  hs_buckets :: "RHashSetBucket list"
  hs_hashfunc :: "rpointer \<Rightarrow> rsize"
  hs_equalfunc :: "(rpointer \<Rightarrow> rpointer \<Rightarrow> bool) option"
  hs_notify :: rpointer

definition hs_fresh_bucket :: RHashSetBucket where
  "hs_fresh_bucket = \<lparr>sb_item = 0, sb_hash = R_HASH_EMPTY\<rparr>"

section \<open>Operations\<close>

definition r_hash_set_free :: "RHashSet \<Rightarrow> notify_call list" where
  "r_hash_set_free hs =
     (if hs_notify hs \<noteq> NULL then
        concat (map (\<lambda>b. if R_HASH_BUCKET_LIVE (sb_hash b) then [(hs_notify hs, sb_item b)] else [])
                    (hs_buckets hs))
      else [])"

definition r_hash_set_resize :: "RHashSet \<Rightarrow> nat \<Rightarrow> RHashSet option" where
  "r_hash_set_resize hs allocidx = do {
     nbuckets \<leftarrow> oa_rehash sb_hash (hs_buckets hs)
       (replicate (R_HASH_CONTAINER_ALLOC_IDX_TO_SIZE allocidx) hs_fresh_bucket) allocidx;
     Some (hs\<lparr>hs_buckets := nbuckets, hs_allocidx := allocidx, hs_tombs := 0\<rparr>)
   }"

text \<open>The fields of a new set.\<close>

definition hs_fresh ::
  "(rpointer \<Rightarrow> rsize) option \<Rightarrow> (rpointer \<Rightarrow> rpointer \<Rightarrow> bool) option \<Rightarrow> rpointer \<Rightarrow> RHashSet" where
  "hs_fresh hash equal notify =
     \<lparr>hs_size = 0, hs_tombs = 0, hs_allocidx = 0,
      hs_buckets = replicate (R_HASH_CONTAINER_ALLOC_IDX_TO_SIZE 0) hs_fresh_bucket,
      hs_hashfunc = (case hash of Some h \<Rightarrow> h | None \<Rightarrow> r_direct_hash),
      hs_equalfunc = equal, hs_notify = notify\<rparr>"

text \<open>
  \<open>obj\<close> and \<open>bks\<close> say whether the set and its bucket array are served by the allocator; only
  the first is tested, and without the second the loop writes through a null pointer.
\<close>

definition r_hash_set_new_full ::
  "bool \<Rightarrow> bool \<Rightarrow> (rpointer \<Rightarrow> rsize) option \<Rightarrow> (rpointer \<Rightarrow> rpointer \<Rightarrow> bool) option \<Rightarrow> rpointer
   \<Rightarrow> RHashSet option option" where
  "r_hash_set_new_full obj bks hash equal notify =
     (if obj then
        if bks then Some (Some (hs_fresh hash equal notify))
        else None
      else Some None)"

definition r_hash_set_size :: "RHashSet option \<Rightarrow> nat option" where
  "r_hash_set_size phs = do { hs \<leftarrow> phs; Some (hs_size hs) }"

definition r_hash_set_current_alloc_size :: "RHashSet option \<Rightarrow> nat option" where
  "r_hash_set_current_alloc_size phs =
     do { hs \<leftarrow> phs; Some (R_HASH_CONTAINER_ALLOC_IDX_TO_SIZE (hs_allocidx hs)) }"

definition r_hash_set_max_probe :: "RHashSet option \<Rightarrow> nat option" where
  "r_hash_set_max_probe phs =
     (case phs of None \<Rightarrow> Some 0
      | Some hs \<Rightarrow> oa_max_probe sb_hash (hs_buckets hs) (hs_allocidx hs)
                     [0 ..< R_HASH_CONTAINER_ALLOC_IDX_TO_SIZE (hs_allocidx hs)] 0)"

definition r_hash_set_hash :: "RHashSet \<Rightarrow> rpointer \<Rightarrow> rsize" where
  "r_hash_set_hash hs item =
     (let ret = hs_hashfunc hs item in
      if ret = R_HASH_EMPTY \<or> ret = R_HASH_DELETED then R_HASH_DELETED - 1 else ret)"

definition r_hash_set_lookup_bucket :: "RHashSet \<Rightarrow> rpointer \<Rightarrow> (nat \<times> rsize) option" where
  "r_hash_set_lookup_bucket hs item =
     (let hash = r_hash_set_hash hs item in do {
        idx \<leftarrow> oa_probe
          (oa_lookup_stop sb_hash sb_item (oa_key_equal (hs_equalfunc hs)) item hash)
          (hs_buckets hs) (hs_allocidx hs) (R_HASH_HOME_BUCKET hash (hs_allocidx hs)) 0;
        Some (idx, hash)
      })"

definition r_hash_set_insert ::
  "RHashSet option \<Rightarrow> rpointer \<Rightarrow> (bool \<times> RHashSet option \<times> notify_call list) option" where
  "r_hash_set_insert phs item =
     (case phs of None \<Rightarrow> Some (False, None, [])
      | Some hs \<Rightarrow> do {
          let cap = R_HASH_CONTAINER_ALLOC_IDX_TO_SIZE (hs_allocidx hs);
          hs \<leftarrow> (if hs_size hs + hs_tombs hs \<ge> cap - drop_bit 2 cap
                 then r_hash_set_resize hs
                        (if hs_size hs \<ge> cap - drop_bit 2 cap then hs_allocidx hs + 1 else hs_allocidx hs)
                 else Some hs);
          (idx, hash) \<leftarrow> r_hash_set_lookup_bucket hs item;
          b \<leftarrow> fetch (hs_buckets hs) idx;
          let (n, h, calls) =
            (if sb_hash b = hash then (hs_size hs, sb_hash b, call_notify (hs_notify hs) (sb_item b))
             else (hs_size hs + 1, hash, []));
          buckets \<leftarrow> store (hs_buckets hs) idx (b\<lparr>sb_hash := h, sb_item := item\<rparr>);
          Some (True, Some (hs\<lparr>hs_size := n, hs_buckets := buckets\<rparr>), calls)
        })"

definition r_hash_set_contains :: "RHashSet option \<Rightarrow> rpointer \<Rightarrow> bool option" where
  "r_hash_set_contains phs item =
     (case phs of None \<Rightarrow> Some False
      | Some hs \<Rightarrow> do {
          (idx, hash) \<leftarrow> r_hash_set_lookup_bucket hs item;
          b \<leftarrow> fetch (hs_buckets hs) idx;
          Some (sb_hash b = hash)
        })"

text \<open>
  The last component is what is written through the out-pointer, with \<^const>\<open>None\<close>
  when nothing is written.
\<close>

definition r_hash_set_contains_full :: "RHashSet option \<Rightarrow> rpointer \<Rightarrow> (bool \<times> rpointer option) option" where
  "r_hash_set_contains_full phs item =
     (case phs of None \<Rightarrow> Some (False, None)
      | Some hs \<Rightarrow> do {
          (idx, hash) \<leftarrow> r_hash_set_lookup_bucket hs item;
          b \<leftarrow> fetch (hs_buckets hs) idx;
          Some (if sb_hash b = hash then (True, Some (sb_item b)) else (False, None))
        })"

definition r_hash_set_remove_all :: "RHashSet option \<Rightarrow> RHashSet option \<times> notify_call list" where
  "r_hash_set_remove_all phs =
     (case phs of None \<Rightarrow> (None, [])
      | Some hs \<Rightarrow>
          if hs_size hs = 0 \<and> hs_tombs hs = 0 then (Some hs, [])
          else (Some (hs\<lparr>hs_buckets := map (\<lambda>b. b\<lparr>sb_hash := R_HASH_EMPTY\<rparr>) (hs_buckets hs),
                         hs_size := 0, hs_tombs := 0\<rparr>),
                concat (map (\<lambda>b. if R_HASH_BUCKET_LIVE (sb_hash b)
                                 then call_notify (hs_notify hs) (sb_item b) else [])
                            (hs_buckets hs))))"

definition hs_tomb :: "RHashSetBucket \<Rightarrow> RHashSetBucket" where
  "hs_tomb b = b\<lparr>sb_hash := R_HASH_DELETED\<rparr>"

definition r_hash_set_remove ::
  "RHashSet option \<Rightarrow> rpointer \<Rightarrow> (bool \<times> RHashSet option \<times> notify_call list) option" where
  "r_hash_set_remove phs item =
     (case phs of None \<Rightarrow> Some (False, None, [])
      | Some hs \<Rightarrow> do {
          (idx, hash) \<leftarrow> r_hash_set_lookup_bucket hs item;
          b \<leftarrow> fetch (hs_buckets hs) idx;
          if sb_hash b \<noteq> hash then Some (False, Some hs, [])
          else do {
            buckets \<leftarrow> store (hs_buckets hs) idx (hs_tomb b);
            Some (True,
                  Some (hs\<lparr>hs_buckets := buckets, hs_size := hs_size hs - 1, hs_tombs := hs_tombs hs + 1\<rparr>),
                  call_notify (hs_notify hs) (sb_item b))
          }
        })"

definition r_hash_set_steal ::
  "RHashSet option \<Rightarrow> rpointer \<Rightarrow> (bool \<times> RHashSet option \<times> rpointer option) option" where
  "r_hash_set_steal phs item =
     (case phs of None \<Rightarrow> Some (False, None, None)
      | Some hs \<Rightarrow> do {
          (idx, hash) \<leftarrow> r_hash_set_lookup_bucket hs item;
          b \<leftarrow> fetch (hs_buckets hs) idx;
          if sb_hash b \<noteq> hash then Some (False, Some hs, Some NULL)
          else do {
            buckets \<leftarrow> store (hs_buckets hs) idx (hs_tomb b);
            Some (True,
                  Some (hs\<lparr>hs_buckets := buckets, hs_size := hs_size hs - 1, hs_tombs := hs_tombs hs + 1\<rparr>),
                  Some (sb_item b))
          }
        })"

text \<open>The visited items, in order; the callback may not change the set.\<close>

definition r_hash_set_foreach :: "RHashSet option \<Rightarrow> bool \<Rightarrow> bool \<times> rpointer list" where
  "r_hash_set_foreach phs func_given =
     (case phs of None \<Rightarrow> (False, [])
      | Some hs \<Rightarrow>
          if \<not> func_given then (False, [])
          else (True, concat (map (\<lambda>b. if R_HASH_BUCKET_LIVE (sb_hash b) then [sb_item b] else [])
                                  (hs_buckets hs))))"

section \<open>The invariant and the abstract set\<close>

abbreviation hs_keq :: "RHashSet \<Rightarrow> rpointer \<Rightarrow> rpointer \<Rightarrow> bool option" where
  "hs_keq hs \<equiv> oa_key_equal (hs_equalfunc hs)"

abbreviation hs_same_item :: "RHashSet \<Rightarrow> rpointer \<Rightarrow> rpointer \<Rightarrow> bool" where
  "hs_same_item hs x k \<equiv> hs_keq hs x k = Some True"

definition hs_contract :: "RHashSet \<Rightarrow> rpointer set \<Rightarrow> bool" where
  "hs_contract hs K = oa_contract (r_hash_set_hash hs) (hs_keq hs) K"

definition hs_inv :: "RHashSet \<Rightarrow> rpointer set \<Rightarrow> bool" where
  "hs_inv hs K \<longleftrightarrow> hs_contract hs K \<and>
     oa_wf sb_hash sb_item (r_hash_set_hash hs) (hs_keq hs) K
       (hs_buckets hs) (hs_allocidx hs) (hs_size hs) (hs_tombs hs)"

definition hs_entry :: "RHashSet \<Rightarrow> rpointer \<Rightarrow> RHashSetBucket option" where
  "hs_entry hs k = oa_find sb_hash sb_item (hs_keq hs) (hs_buckets hs) k"

text \<open>The items a set holds, up to the item equality.\<close>

definition hs_mem :: "RHashSet \<Rightarrow> rpointer \<Rightarrow> bool" where
  "hs_mem hs k \<longleftrightarrow> hs_entry hs k \<noteq> None"

definition hs_same_config :: "RHashSet \<Rightarrow> RHashSet \<Rightarrow> bool" where
  "hs_same_config hs hs' \<longleftrightarrow>
     hs_hashfunc hs' = hs_hashfunc hs \<and> hs_equalfunc hs' = hs_equalfunc hs \<and> hs_notify hs' = hs_notify hs"

interpretation hsb: oa_buckets sb_hash sb_item hs_tomb
  by unfold_locales (simp add: hs_tomb_def)

lemma hs_fresh_bucket_hash [simp]: "sb_hash hs_fresh_bucket = R_HASH_EMPTY"
  by (simp add: hs_fresh_bucket_def)

lemma r_hash_set_hash_update [simp]:
  "r_hash_set_hash (hs\<lparr>hs_size := n\<rparr>) = r_hash_set_hash hs"
  "r_hash_set_hash (hs\<lparr>hs_buckets := bs\<rparr>) = r_hash_set_hash hs"
  "r_hash_set_hash (hs\<lparr>hs_allocidx := a\<rparr>) = r_hash_set_hash hs"
  "r_hash_set_hash (hs\<lparr>hs_tombs := t\<rparr>) = r_hash_set_hash hs"
  by (simp_all add: r_hash_set_hash_def fun_eq_iff)

lemma hs_same_config_hash: "hs_same_config hs hs' \<Longrightarrow> r_hash_set_hash hs' = r_hash_set_hash hs"
  by (simp add: hs_same_config_def r_hash_set_hash_def fun_eq_iff)

lemma r_hash_set_hash_live: "R_HASH_BUCKET_LIVE (r_hash_set_hash hs k)"
  by (auto simp: r_hash_set_hash_def R_HASH_BUCKET_LIVE_def R_HASH_DELETED_def R_HASH_EMPTY_def Let_def)

lemma hs_invD:
  assumes "hs_inv hs K"
  shows "oa_wf sb_hash sb_item (r_hash_set_hash hs) (hs_keq hs) K
           (hs_buckets hs) (hs_allocidx hs) (hs_size hs) (hs_tombs hs)"
    and "oa_contract (r_hash_set_hash hs) (hs_keq hs) K"
  using assms by (simp_all add: hs_inv_def hs_contract_def)

lemma hs_inv_new:
  assumes "hs_contract (hs_fresh h e n) K"
  shows "hs_inv (hs_fresh h e n) K" and "\<not> hs_mem (hs_fresh h e n) k"
  using assms
  by (simp_all add: hs_inv_def hs_mem_def hs_entry_def hs_fresh_def hsb.wf_fresh hsb.wf_fresh(2) [of 0])

lemma hs_contract_identity:
  assumes "hs_equalfunc hs = None" and "inj_on (r_hash_set_hash hs) K"
  shows "hs_contract hs K"
  unfolding hs_contract_def oa_contract_def
  using r_hash_set_hash_live [of hs]
  by (intro conjI) (simp_all add: oa_key_equal_def assms(1) inj_on_eq_iff [OF assms(2)])

lemma hs_contract_direct:
  assumes "- 1 \<notin> K" and "- 2 \<notin> K"
  shows "hs_contract (hs_fresh None None n) K"
proof (rule hs_contract_identity)
  have "r_hash_set_hash (hs_fresh None None n) k = k" if "k \<in> K" for k
    using that assms by (auto simp: r_hash_set_hash_def hs_fresh_def r_direct_hash_def
        R_HASH_EMPTY_def R_HASH_DELETED_def)
  then show "inj_on (r_hash_set_hash (hs_fresh None None n)) K" by (auto intro: inj_onI)
qed (simp add: hs_fresh_def)

section \<open>What each operation does\<close>

lemma hs_lookup_bucket_cases:
  assumes inv: "hs_inv hs K" and k: "k \<in> K"
  obtains (found) i b where
      "r_hash_set_lookup_bucket hs k = Some (i, r_hash_set_hash hs k)"
      "i < length (hs_buckets hs)" "hs_buckets hs ! i = b" "sb_hash b = r_hash_set_hash hs k"
      "hs_same_item hs k (sb_item b)" "hs_entry hs k = Some b"
  | (absent) i where
      "r_hash_set_lookup_bucket hs k = Some (i, r_hash_set_hash hs k)"
      "i < length (hs_buckets hs)" "sb_hash (hs_buckets hs ! i) = R_HASH_EMPTY"
      "sb_hash (hs_buckets hs ! i) \<noteq> r_hash_set_hash hs k"
      "oa_reach sb_hash (hs_buckets hs) (hs_allocidx hs) (r_hash_set_hash hs k) i"
      "\<forall>j < length (hs_buckets hs). R_HASH_BUCKET_LIVE (sb_hash (hs_buckets hs ! j)) \<longrightarrow>
         \<not> hs_same_item hs k (sb_item (hs_buckets hs ! j))"
      "hs_entry hs k = None"
proof (cases rule: hsb.wf_lookup [OF hs_invD [OF inv] k])
  case (1 i)
  have "r_hash_set_lookup_bucket hs k = Some (i, r_hash_set_hash hs k)"
    unfolding r_hash_set_lookup_bucket_def Let_def 1(1) by simp
  then show ?thesis
    by (rule found [OF _ 1(2) refl 1(3,4)]) (simp only: hs_entry_def 1(5))
next
  case (2 i)
  have "r_hash_set_lookup_bucket hs k = Some (i, r_hash_set_hash hs k)"
    unfolding r_hash_set_lookup_bucket_def Let_def 2(1) by simp
  then show ?thesis
    by (rule absent [OF _ 2(2-6)]) (simp only: hs_entry_def 2(7))
qed

lemma hs_contains_spec:
  assumes "hs_inv hs K" and "k \<in> K"
  shows "r_hash_set_contains (Some hs) k = Some (hs_mem hs k)"
    and "r_hash_set_contains_full (Some hs) k
           = Some (hs_mem hs k, map_option sb_item (hs_entry hs k))"
  by (cases rule: hs_lookup_bucket_cases [OF assms];
      simp add: r_hash_set_contains_def r_hash_set_contains_full_def hs_mem_def)+

lemma r_hash_set_resize_correct:
  assumes inv: "hs_inv hs K" and a: "a \<le> 60" "hs_size hs \<le> oa_limit a"
  obtains hs' where "r_hash_set_resize hs a = Some hs'" "hs_inv hs' K" "hs_same_config hs hs'"
    "hs_size hs' = hs_size hs" "hs_tombs hs' = 0" "hs_allocidx hs' = a"
    "\<And>k. k \<in> K \<Longrightarrow> hs_entry hs' k = hs_entry hs k"
proof -
  note D = hs_invD [OF inv]
  obtain bs' where bs': "oa_rehash sb_hash (hs_buckets hs)
      (replicate (R_HASH_CONTAINER_ALLOC_IDX_TO_SIZE a) hs_fresh_bucket) a = Some bs'"
    "oa_wf sb_hash sb_item (r_hash_set_hash hs) (hs_keq hs) K bs' a (hs_size hs) 0"
    "\<And>k. k \<in> K \<Longrightarrow> oa_find sb_hash sb_item (hs_keq hs) bs' k
           = oa_find sb_hash sb_item (hs_keq hs) (hs_buckets hs) k"
    using hsb.wf_resize [OF D hs_fresh_bucket_hash a] by blast
  show ?thesis
    by (rule that [of "hs\<lparr>hs_buckets := bs', hs_allocidx := a, hs_tombs := 0\<rparr>"])
      (use D bs' in \<open>simp_all add: r_hash_set_resize_def hs_inv_def hs_contract_def hs_same_config_def
         hs_entry_def\<close>)
qed

lemma hs_make_room:
  assumes inv: "hs_inv hs K" and a: "hs_allocidx hs < 60"
  obtains hs' where
    "(if oa_limit (hs_allocidx hs) \<le> hs_size hs + hs_tombs hs
      then r_hash_set_resize hs
             (if oa_limit (hs_allocidx hs) \<le> hs_size hs then hs_allocidx hs + 1 else hs_allocidx hs)
      else Some hs) = Some hs'"
    "hs_inv hs' K" "hs_same_config hs hs'" "hs_size hs' = hs_size hs"
    "hs_size hs' + hs_tombs hs' < oa_limit (hs_allocidx hs')"
    "hs_allocidx hs' = (if oa_limit (hs_allocidx hs) \<le> hs_size hs then Suc (hs_allocidx hs) else hs_allocidx hs)"
    "\<And>k. k \<in> K \<Longrightarrow> hs_entry hs' k = hs_entry hs k"
proof (cases "oa_limit (hs_allocidx hs) \<le> hs_size hs + hs_tombs hs")
  case True
  let ?a = "if oa_limit (hs_allocidx hs) \<le> hs_size hs then hs_allocidx hs + 1 else hs_allocidx hs"
  have "hs_size hs \<le> oa_limit (hs_allocidx hs)" using hs_invD(1) [OF inv] by (simp add: oa_wf_def)
  moreover have "0 < oa_limit (hs_allocidx hs)" "oa_limit (Suc (hs_allocidx hs)) = 2 * oa_limit (hs_allocidx hs)"
    by (simp_all add: oa_limit_eq)
  ultimately have room: "hs_size hs < oa_limit ?a" by auto
  have "?a \<le> 60" using a by simp
  then obtain hs' where "r_hash_set_resize hs ?a = Some hs'" "hs_inv hs' K" "hs_same_config hs hs'"
    "hs_size hs' = hs_size hs" "hs_tombs hs' = 0" "hs_allocidx hs' = ?a"
    "\<And>k. k \<in> K \<Longrightarrow> hs_entry hs' k = hs_entry hs k"
    by (rule r_hash_set_resize_correct [OF inv _ less_imp_le [OF room]]) (rule that)
  with True room show ?thesis by (intro that [of hs']) (simp_all only: if_True Suc_eq_plus1 add_0_right)
next
  case False
  then show ?thesis by (intro that [of hs]) (simp_all add: inv hs_same_config_def)
qed

definition hs_drop_calls :: "RHashSet \<Rightarrow> RHashSetBucket option \<Rightarrow> notify_call list" where
  "hs_drop_calls hs e = (case e of None \<Rightarrow> [] | Some b \<Rightarrow> call_notify (hs_notify hs) (sb_item b))"

lemma sb_overwrite [simp]:
  "(b :: RHashSetBucket)\<lparr>sb_hash := h, sb_item := k\<rparr> = \<lparr>sb_item = k, sb_hash = h\<rparr>"
  by (cases b) simp

lemma hs_insert_spec:
  assumes inv: "hs_inv hs K" and item: "item \<in> K" and a: "hs_allocidx hs < 60"
  obtains hs' where
    "r_hash_set_insert (Some hs) item = Some (True, Some hs', hs_drop_calls hs (hs_entry hs item))"
    "hs_inv hs' K" "hs_same_config hs hs'"
    "hs_size hs' = (if hs_mem hs item then hs_size hs else Suc (hs_size hs))"
    "hs_allocidx hs' = (if oa_limit (hs_allocidx hs) \<le> hs_size hs then Suc (hs_allocidx hs) else hs_allocidx hs)"
    "\<And>k. k \<in> K \<Longrightarrow> hs_entry hs' k = (if hs_same_item hs k item
        then Some \<lparr>sb_item = item, sb_hash = r_hash_set_hash hs item\<rparr> else hs_entry hs k)"
proof -
  let ?b = "\<lparr>sb_item = item, sb_hash = r_hash_set_hash hs item\<rparr>"
  obtain h1 where h1: "(if oa_limit (hs_allocidx hs) \<le> hs_size hs + hs_tombs hs
      then r_hash_set_resize hs
             (if oa_limit (hs_allocidx hs) \<le> hs_size hs then hs_allocidx hs + 1 else hs_allocidx hs)
      else Some hs) = Some h1"
    and inv1: "hs_inv h1 K" and cfg: "hs_same_config hs h1" and sz: "hs_size h1 = hs_size hs"
    and room: "hs_size h1 + hs_tombs h1 < oa_limit (hs_allocidx h1)"
    and idx: "hs_allocidx h1 = (if oa_limit (hs_allocidx hs) \<le> hs_size hs then Suc (hs_allocidx hs) else hs_allocidx hs)"
    and ent: "\<And>k. k \<in> K \<Longrightarrow> hs_entry h1 k = hs_entry hs k"
    using hs_make_room [OF inv a] by blast
  note D = hs_invD [OF inv1] and hash = hs_same_config_hash [OF cfg]
  have eqf: "hs_equalfunc h1 = hs_equalfunc hs" "hs_notify h1 = hs_notify hs"
    using cfg by (simp_all add: hs_same_config_def)
  note ins = r_hash_set_insert_def Let_def option.case oa_limit_def [symmetric] h1 bind.bind_lunit
  show ?thesis
  proof (cases rule: hs_lookup_bucket_cases [OF inv1 item, case_names found absent])
    case (found i b)
    have live: "R_HASH_BUCKET_LIVE (sb_hash (hs_buckets h1 ! i))"
      using r_hash_set_hash_live found(3,4) by simp
    have R: "oa_wf sb_hash sb_item (r_hash_set_hash h1) (hs_keq h1) K ((hs_buckets h1)[i := ?b])
        (hs_allocidx h1) (hs_size h1) (hs_tombs h1)"
      "\<And>k. k \<in> K \<Longrightarrow> oa_find sb_hash sb_item (hs_keq h1) ((hs_buckets h1)[i := ?b]) k
        = (if hs_same_item h1 k item then Some ?b else oa_find sb_hash sb_item (hs_keq h1) (hs_buckets h1) k)"
      using hsb.wf_replace [OF D found(2) live, of ?b] found(3-5) item hash by simp_all
    let ?h' = "h1\<lparr>hs_buckets := (hs_buckets h1)[i := ?b]\<rparr>"
    have entry: "hs_entry hs item = Some b" using ent [OF item] found(6) by simp
    then have "r_hash_set_insert (Some hs) item = Some (True, Some ?h', hs_drop_calls hs (hs_entry hs item))"
      unfolding ins using found(1-4) hash eqf by (simp add: hs_drop_calls_def)
    then show ?thesis
    proof (rule that)
      show "hs_inv ?h' K" using R(1) D(2) by (simp add: hs_inv_def hs_contract_def)
      show "hs_same_config hs ?h'" using cfg by (simp add: hs_same_config_def)
      show "hs_size ?h' = (if hs_mem hs item then hs_size hs else Suc (hs_size hs))"
        using entry sz by (simp add: hs_mem_def)
    qed (use R(2) ent idx eqf(1) in \<open>simp_all add: hs_entry_def\<close>)
  next
    case (absent i)
    have R: "oa_wf sb_hash sb_item (r_hash_set_hash h1) (hs_keq h1) K ((hs_buckets h1)[i := ?b])
        (hs_allocidx h1) (Suc (hs_size h1)) (hs_tombs h1)"
      "\<And>k. k \<in> K \<Longrightarrow> oa_find sb_hash sb_item (hs_keq h1) ((hs_buckets h1)[i := ?b]) k
        = (if hs_same_item h1 k item then Some ?b else oa_find sb_hash sb_item (hs_keq h1) (hs_buckets h1) k)"
      using hsb.wf_put [OF D absent(2,3), of ?b] absent(5,6) item room hash by simp_all
    let ?h' = "h1\<lparr>hs_size := Suc (hs_size h1), hs_buckets := (hs_buckets h1)[i := ?b]\<rparr>"
    have entry: "hs_entry hs item = None" using ent [OF item] absent(7) by simp
    then have "r_hash_set_insert (Some hs) item = Some (True, Some ?h', hs_drop_calls hs (hs_entry hs item))"
      unfolding ins using absent(1,2,4) hash by (simp add: hs_drop_calls_def)
    then show ?thesis
    proof (rule that)
      show "hs_inv ?h' K" using R(1) D(2) by (simp add: hs_inv_def hs_contract_def)
      show "hs_same_config hs ?h'" using cfg by (simp add: hs_same_config_def)
      show "hs_size ?h' = (if hs_mem hs item then hs_size hs else Suc (hs_size hs))"
        using entry sz by (simp add: hs_mem_def)
    qed (use R(2) ent idx eqf(1) in \<open>simp_all add: hs_entry_def\<close>)
  qed
qed

lemma hs_entry_iff:
  assumes "hs_inv hs K" "k \<in> K"
  shows "hs_entry hs k = Some b \<longleftrightarrow> b \<in> oa_entries sb_hash (hs_buckets hs) \<and> hs_same_item hs k (sb_item b)"
proof -
  have "oa_core sb_hash sb_item (r_hash_set_hash hs) (hs_keq hs) K (hs_buckets hs) (hs_allocidx hs)"
    using hs_invD(1) [OF assms(1)] by (simp add: oa_wf_def)
  from oa_find_iff [OF this hs_invD(2) [OF assms(1)] assms(2)] show ?thesis by (simp add: hs_entry_def)
qed

lemma hs_entry_item:
  assumes "hs_inv hs K" "b \<in> oa_entries sb_hash (hs_buckets hs)"
  shows "sb_item b \<in> K"
  using oa_entry_key(1) [OF _ assms(2)] hs_invD(1) [OF assms(1)] by (auto simp: oa_wf_def)

lemma hs_entry_cong:
  assumes inv: "hs_inv hs K" and "j \<in> K" "k \<in> K" "hs_same_item hs j k"
  shows "hs_entry hs j = hs_entry hs k"
proof (rule option_eqI)
  fix b
  show "(hs_entry hs j = Some b) = (hs_entry hs k = Some b)"
    unfolding hs_entry_iff [OF inv assms(2)] hs_entry_iff [OF inv assms(3)]
    using oa_contractD(4,6) [OF hs_invD(2) [OF inv]] assms(2-4) hs_entry_item [OF inv] by blast
qed

lemma hs_remove_spec:
  assumes inv: "hs_inv hs K" and item: "item \<in> K"
  obtains (absent) "hs_entry hs item = None"
      "r_hash_set_remove (Some hs) item = Some (False, Some hs, [])"
      "r_hash_set_steal (Some hs) item = Some (False, Some hs, Some NULL)"
  | (present) b hs' where "hs_entry hs item = Some b"
      "r_hash_set_remove (Some hs) item = Some (True, Some hs', hs_drop_calls hs (Some b))"
      "r_hash_set_steal (Some hs) item = Some (True, Some hs', Some (sb_item b))"
      "hs_inv hs' K" "hs_same_config hs hs'" "hs_size hs = Suc (hs_size hs')" "hs_allocidx hs' = hs_allocidx hs"
      "\<And>k. k \<in> K \<Longrightarrow> hs_entry hs' k = (if hs_same_item hs k item then None else hs_entry hs k)"
proof (cases rule: hs_lookup_bucket_cases [OF inv item, case_names found absent])
  case (found i b)
  have live: "R_HASH_BUCKET_LIVE (sb_hash (hs_buckets hs ! i))"
    using r_hash_set_hash_live found(3,4) by simp
  let ?hs' = "hs\<lparr>hs_buckets := (hs_buckets hs)[i := hs_tomb b], hs_size := hs_size hs - 1,
                hs_tombs := hs_tombs hs + 1\<rparr>"
  note del = hsb.wf_delete [OF hs_invD [OF inv] found(2) live, unfolded found(3)]
  show ?thesis
  proof (rule present [OF found(6), of ?hs'])
    show "hs_inv ?hs' K" using del(1) hs_invD(2) [OF inv] by (simp add: hs_inv_def hs_contract_def)
    show "hs_entry ?hs' k = (if hs_same_item hs k item then None else hs_entry hs k)" if "k \<in> K" for k
    proof -
      have "sb_item b \<in> K" using hs_entry_item [OF inv] found(6) hs_entry_iff [OF inv item] by blast
      then have "hs_same_item hs k (sb_item b) \<longleftrightarrow> hs_same_item hs k item"
        using oa_contractD(4,6) [OF hs_invD(2) [OF inv]] found(5) item that by blast
      then show ?thesis using del(3) [OF that] by (simp add: hs_entry_def)
    qed
  qed (use found del(2) in \<open>simp_all add: r_hash_set_remove_def r_hash_set_steal_def hs_drop_calls_def
         hs_same_config_def\<close>)
next
  case (absent i)
  show ?thesis
    by (rule that(1) [OF absent(7)])
      (use absent(1,2,4) in \<open>simp_all add: r_hash_set_remove_def r_hash_set_steal_def\<close>)
qed

lemma hs_remove_all_spec:
  assumes inv: "hs_inv hs K"
  obtains hs' where
    "r_hash_set_remove_all (Some hs)
       = (Some hs', concat (map (\<lambda>b. if R_HASH_BUCKET_LIVE (sb_hash b) then call_notify (hs_notify hs) (sb_item b)
                                     else []) (hs_buckets hs)))"
    "hs_inv hs' K" "hs_same_config hs hs'" "hs_size hs' = 0" "hs_allocidx hs' = hs_allocidx hs"
    "\<And>k. hs_entry hs' k = None"
proof (cases "hs_size hs = 0 \<and> hs_tombs hs = 0")
  case True
  then have "filter (\<lambda>b. R_HASH_BUCKET_LIVE (sb_hash b)) (hs_buckets hs) = []"
    using hs_invD(1) [OF inv] by (simp add: oa_wf_def oa_live_def)
  then have dead: "\<forall>b \<in> set (hs_buckets hs). \<not> R_HASH_BUCKET_LIVE (sb_hash b)"
    by (simp add: filter_empty_conv)
  then have "concat (map (\<lambda>b. if R_HASH_BUCKET_LIVE (sb_hash b) then call_notify (hs_notify hs) (sb_item b)
      else []) (hs_buckets hs)) = []" by simp
  moreover have "hs_entry hs k = None" for k
    using dead by (auto simp: hs_entry_def oa_find_None oa_entries_def)
  ultimately show ?thesis
    using True by (intro that [of hs]) (simp_all add: r_hash_set_remove_all_def hs_same_config_def inv)
next
  case False
  note D = hs_invD [OF inv]
  let ?bs = "map (\<lambda>b. b\<lparr>sb_hash := R_HASH_EMPTY\<rparr>) (hs_buckets hs)"
  let ?hs' = "hs\<lparr>hs_buckets := ?bs, hs_size := 0, hs_tombs := 0\<rparr>"
  have wf: "oa_wf sb_hash sb_item (r_hash_set_hash hs) (hs_keq hs) K ?bs (hs_allocidx hs) 0 0"
    using D(1) by (auto simp: oa_wf_def oa_core_def oa_live_def oa_tombs_def filter_empty_conv)
  have "hs_entry ?hs' k = None" for k
    by (auto simp: hs_entry_def oa_find_None oa_entries_def)
  moreover have "r_hash_set_remove_all (Some hs) = (Some ?hs', concat (map (\<lambda>b.
      if R_HASH_BUCKET_LIVE (sb_hash b) then call_notify (hs_notify hs) (sb_item b) else []) (hs_buckets hs)))"
    unfolding r_hash_set_remove_all_def option.case if_not_P [OF False] ..
  ultimately show ?thesis
    using wf D(2) by (intro that [of ?hs']) (simp_all add: hs_same_config_def hs_inv_def hs_contract_def)
qed

section \<open>Sequences of operations\<close>

datatype hs_op = HS_Insert rpointer | HS_Contains rpointer | HS_Remove rpointer | HS_Steal rpointer | HS_Remove_All

fun hs_exec :: "hs_op \<Rightarrow> RHashSet option \<Rightarrow> (bool \<times> RHashSet option) option" where
  "hs_exec (HS_Insert k) p = do { (r, p', _) \<leftarrow> r_hash_set_insert p k; Some (r, p') }"
| "hs_exec (HS_Contains k) p = do { r \<leftarrow> r_hash_set_contains p k; Some (r, p) }"
| "hs_exec (HS_Remove k) p = do { (r, p', _) \<leftarrow> r_hash_set_remove p k; Some (r, p') }"
| "hs_exec (HS_Steal k) p = do { (r, p', _) \<leftarrow> r_hash_set_steal p k; Some (r, p') }"
| "hs_exec HS_Remove_All p = Some (True, fst (r_hash_set_remove_all p))"

fun hs_run :: "hs_op list \<Rightarrow> RHashSet option \<Rightarrow> (bool list \<times> RHashSet option) option" where
  "hs_run [] p = Some ([], p)"
| "hs_run (x # xs) p = do {
     (r, p') \<leftarrow> hs_exec x p;
     (rs, p'') \<leftarrow> hs_run xs p';
     Some (r # rs, p'')
   }"

text \<open>The specification: a set of items, up to the item equality.\<close>

fun set_exec :: "(rpointer \<Rightarrow> rpointer \<Rightarrow> bool) \<Rightarrow> hs_op \<Rightarrow> (rpointer \<Rightarrow> bool) \<Rightarrow> bool \<times> (rpointer \<Rightarrow> bool)" where
  "set_exec eq (HS_Insert k) s = (True, \<lambda>x. eq x k \<or> s x)"
| "set_exec eq (HS_Contains k) s = (s k, s)"
| "set_exec eq (HS_Remove k) s = (s k, \<lambda>x. \<not> eq x k \<and> s x)"
| "set_exec eq (HS_Steal k) s = (s k, \<lambda>x. \<not> eq x k \<and> s x)"
| "set_exec eq HS_Remove_All s = (True, \<lambda>x. False)"

fun set_run :: "(rpointer \<Rightarrow> rpointer \<Rightarrow> bool) \<Rightarrow> hs_op list \<Rightarrow> (rpointer \<Rightarrow> bool) \<Rightarrow> bool list \<times> (rpointer \<Rightarrow> bool)" where
  "set_run eq [] s = ([], s)"
| "set_run eq (x # xs) s = (let (r, s') = set_exec eq x s; (rs, s'') = set_run eq xs s' in (r # rs, s''))"

fun hs_op_item :: "hs_op \<Rightarrow> rpointer set" where
  "hs_op_item (HS_Insert k) = {k}"
| "hs_op_item (HS_Contains k) = {k}"
| "hs_op_item (HS_Remove k) = {k}"
| "hs_op_item (HS_Steal k) = {k}"
| "hs_op_item HS_Remove_All = {}"

definition hs_grown :: "RHashSet \<Rightarrow> nat \<Rightarrow> bool" where
  "hs_grown hs n \<longleftrightarrow> hs_size hs \<le> n \<and> (hs_allocidx hs = 0 \<or> 6 * 2 ^ (hs_allocidx hs - 1) \<le> n)"

lemma hs_grown_room:
  assumes "hs_grown hs n" "n < 2 ^ 61"
  shows "hs_allocidx hs < 60"
proof (rule ccontr)
  assume "\<not> hs_allocidx hs < 60"
  then have "59 \<le> hs_allocidx hs - 1" "hs_allocidx hs \<noteq> 0" by auto
  then have "2 ^ 59 \<le> (2 :: nat) ^ (hs_allocidx hs - 1)" by (intro power_increasing) simp_all
  with assms \<open>hs_allocidx hs \<noteq> 0\<close> show False by (simp add: hs_grown_def)
qed

definition hs_simulates :: "rpointer set \<Rightarrow> nat \<Rightarrow> RHashSet \<Rightarrow> (rpointer \<Rightarrow> bool) \<Rightarrow> bool" where
  "hs_simulates K n hs s \<longleftrightarrow> hs_inv hs K \<and> hs_grown hs n \<and> (\<forall>k \<in> K. hs_mem hs k = s k)"

lemma hs_exec_insert:
  assumes sim: "hs_simulates K n hs s" and k: "k \<in> K" and n: "n < 2 ^ 61"
  shows "\<exists>hs'. hs_exec (HS_Insert k) (Some hs) = Some (True, Some hs') \<and>
     hs_same_config hs hs' \<and> hs_simulates K (Suc n) hs' (\<lambda>x. hs_same_item hs x k \<or> s x)"
proof -
  have inv: "hs_inv hs K" and grown: "hs_grown hs n" and s: "\<And>k. k \<in> K \<Longrightarrow> hs_mem hs k = s k"
    using sim by (simp_all add: hs_simulates_def)
  show ?thesis
  proof (rule hs_insert_spec [OF inv k hs_grown_room [OF grown n]])
    fix hs'
    assume *: "r_hash_set_insert (Some hs) k = Some (True, Some hs', hs_drop_calls hs (hs_entry hs k))"
      "hs_inv hs' K" "hs_same_config hs hs'"
      "hs_size hs' = (if hs_mem hs k then hs_size hs else Suc (hs_size hs))"
      "hs_allocidx hs' = (if oa_limit (hs_allocidx hs) \<le> hs_size hs then Suc (hs_allocidx hs) else hs_allocidx hs)"
      "\<And>x. x \<in> K \<Longrightarrow> hs_entry hs' x = (if hs_same_item hs x k
          then Some \<lparr>sb_item = k, sb_hash = r_hash_set_hash hs k\<rparr> else hs_entry hs x)"
    have "hs_grown hs' (Suc n)"
      using grown *(4,5) unfolding hs_grown_def oa_limit_eq by (auto split: if_splits)
    moreover have "hs_mem hs' x = (hs_same_item hs x k \<or> s x)" if "x \<in> K" for x
      using *(6) [OF that] s [OF that] by (simp add: hs_mem_def)
    ultimately show ?thesis using *(1-3) by (auto simp: hs_simulates_def)
  qed
qed

lemma hs_exec_remove:
  assumes sim: "hs_simulates K n hs s" and k: "k \<in> K"
  shows "\<exists>hs'. hs_exec (HS_Remove k) (Some hs) = Some (s k, Some hs') \<and>
     hs_exec (HS_Steal k) (Some hs) = Some (s k, Some hs') \<and>
     hs_same_config hs hs' \<and> hs_simulates K (Suc n) hs' (\<lambda>x. \<not> hs_same_item hs x k \<and> s x)"
proof -
  have inv: "hs_inv hs K" and grown: "hs_grown hs n" and s: "\<And>k. k \<in> K \<Longrightarrow> hs_mem hs k = s k"
    using sim by (simp_all add: hs_simulates_def)
  show ?thesis
  proof (cases rule: hs_remove_spec [OF inv k, case_names absent present])
    case absent
    have "hs_mem hs x = (\<not> hs_same_item hs x k \<and> s x)" if "x \<in> K" for x
      using hs_entry_cong [OF inv that k] absent(1) s [OF that] by (auto simp: hs_mem_def)
    moreover have "hs_grown hs (Suc n)" using grown by (auto simp: hs_grown_def)
    moreover have "\<not> s k" using s [OF k] absent(1) by (simp add: hs_mem_def)
    ultimately show ?thesis
      using absent inv by (auto simp: hs_simulates_def hs_same_config_def)
  next
    case (present b hs')
    have "hs_mem hs' x = (\<not> hs_same_item hs x k \<and> s x)" if "x \<in> K" for x
      using present(8) [OF that] s [OF that] by (simp add: hs_mem_def)
    moreover have "hs_grown hs' (Suc n)" using grown present(6,7) by (auto simp: hs_grown_def)
    moreover have "s k" using s [OF k] present(1) by (simp add: hs_mem_def)
    ultimately show ?thesis using present(2-5) by (auto simp: hs_simulates_def)
  qed
qed

lemma hs_exec_refines:
  assumes sim: "hs_simulates K n hs s" and op: "hs_op_item x \<subseteq> K" and n: "n < 2 ^ 61"
  shows "\<exists>hs'. hs_exec x (Some hs) = Some (fst (set_exec (hs_same_item hs) x s), Some hs') \<and>
     hs_same_config hs hs' \<and> hs_simulates K (Suc n) hs' (snd (set_exec (hs_same_item hs) x s))"
proof (cases x)
  case (HS_Insert k)
  with hs_exec_insert [OF sim _ n] op show ?thesis by simp
next
  case (HS_Contains k)
  then have "hs_exec x (Some hs) = Some (s k, Some hs)"
    using sim op hs_contains_spec(1) [of hs K k] by (simp add: hs_simulates_def)
  moreover have "hs_same_config hs hs \<and> hs_simulates K (Suc n) hs s"
    using sim by (auto simp: hs_simulates_def hs_grown_def hs_same_config_def)
  ultimately show ?thesis using HS_Contains by simp
next
  case (HS_Remove k)
  then have "k \<in> K" using op by simp
  from hs_exec_remove [OF sim this] show ?thesis unfolding HS_Remove set_exec.simps fst_conv snd_conv by blast
next
  case (HS_Steal k)
  then have "k \<in> K" using op by simp
  from hs_exec_remove [OF sim this] show ?thesis unfolding HS_Steal set_exec.simps fst_conv snd_conv by blast
next
  case HS_Remove_All
  have inv: "hs_inv hs K" using sim by (simp add: hs_simulates_def)
  show ?thesis
  proof (rule hs_remove_all_spec [OF inv])
    fix hs'
    assume "r_hash_set_remove_all (Some hs) = (Some hs', concat (map (\<lambda>b.
        if R_HASH_BUCKET_LIVE (sb_hash b) then call_notify (hs_notify hs) (sb_item b) else []) (hs_buckets hs)))"
      "hs_inv hs' K" "hs_same_config hs hs'" "hs_size hs' = 0" "hs_allocidx hs' = hs_allocidx hs"
      "\<And>k. hs_entry hs' k = None"
    with HS_Remove_All sim show ?thesis by (auto simp: hs_simulates_def hs_grown_def hs_mem_def)
  qed
qed

lemma hs_run_refines:
  assumes "hs_simulates K n hs s" and "\<forall>x \<in> set xs. hs_op_item x \<subseteq> K" and "n + length xs < 2 ^ 61"
  shows "\<exists>hs'. hs_run xs (Some hs) = Some (fst (set_run (hs_same_item hs) xs s), Some hs') \<and>
     hs_same_config hs hs' \<and> hs_simulates K (n + length xs) hs' (snd (set_run (hs_same_item hs) xs s))"
  using assms
proof (induction xs arbitrary: n hs s)
  case Nil
  then show ?case by (simp add: hs_same_config_def)
next
  case (Cons x xs)
  obtain h1 where h1: "hs_exec x (Some hs) = Some (fst (set_exec (hs_same_item hs) x s), Some h1)"
    "hs_same_config hs h1" "hs_simulates K (Suc n) h1 (snd (set_exec (hs_same_item hs) x s))"
    using hs_exec_refines [OF Cons.prems(1), of x] Cons.prems(2,3) by auto
  have eq: "hs_same_item h1 = hs_same_item hs" using h1(2) by (simp add: hs_same_config_def)
  obtain h2 where h2: "hs_run xs (Some h1)
      = Some (fst (set_run (hs_same_item hs) xs (snd (set_exec (hs_same_item hs) x s))), Some h2)"
    "hs_same_config h1 h2"
    "hs_simulates K (Suc n + length xs) h2
       (snd (set_run (hs_same_item hs) xs (snd (set_exec (hs_same_item hs) x s))))"
    using Cons.IH [OF h1(3)] Cons.prems(2,3) unfolding eq by auto
  have "hs_same_config hs h2" using h1(2) h2(2) by (simp add: hs_same_config_def)
  with h1(1) h2(1,3) show ?case by (simp add: case_prod_beta Let_def)
qed

section \<open>Properties\<close>

text \<open>
  C7. A hash set refines a set.  Any sequence of insertions, membership tests, removals, steals
  and clears on a new set (its two allocations served), over items on which the hash and the equality fit together,
  returns the results of the same calls on a mathematical set, and the final hash set stands
  for the final set; a traversal of it visits each member exactly once.
\<close>

theorem r_hash_set_refines_set:
  assumes "hs_contract (hs_fresh h e nf) K"
    and "\<forall>x \<in> set ops. hs_op_item x \<subseteq> K" and "length ops < 2 ^ 61"
  shows "\<exists>hs hs' visited. r_hash_set_new_full True True h e nf = Some (Some hs) \<and>
    hs_run ops (Some hs)
      = Some (fst (set_run (\<lambda>x k. oa_key_equal e x k = Some True) ops (\<lambda>_. False)), Some hs') \<and>
    hs_inv hs' K \<and>
    (\<forall>k \<in> K. hs_mem hs' k = snd (set_run (\<lambda>x k. oa_key_equal e x k = Some True) ops (\<lambda>_. False)) k) \<and>
    r_hash_set_foreach (Some hs') True = (True, visited) \<and> length visited = hs_size hs' \<and>
    (\<forall>k \<in> K. hs_mem hs' k \<longleftrightarrow> (\<exists>x \<in> set visited. oa_key_equal e k x = Some True))"
proof -
  let ?hs = "hs_fresh h e nf"
  have "hs_simulates K 0 ?hs (\<lambda>_. False)"
    using hs_inv_new [OF assms(1)] by (simp add: hs_simulates_def hs_grown_def hs_fresh_def)
  from hs_run_refines [OF this assms(2)] assms(3) obtain hs' where
    run: "hs_run ops (Some ?hs) = Some (fst (set_run (\<lambda>x k. oa_key_equal e x k = Some True) ops (\<lambda>_. False)), Some hs')"
    and cfg: "hs_same_config ?hs hs'" and inv: "hs_inv hs' K"
    and mem: "\<forall>k \<in> K. hs_mem hs' k = snd (set_run (\<lambda>x k. oa_key_equal e x k = Some True) ops (\<lambda>_. False)) k"
    by (auto simp: hs_simulates_def hs_fresh_def)
  have e: "hs_equalfunc hs' = e" using cfg by (simp add: hs_same_config_def hs_fresh_def)
  let ?visited = "map sb_item (filter (\<lambda>b. R_HASH_BUCKET_LIVE (sb_hash b)) (hs_buckets hs'))"
  have flat: "concat (map (\<lambda>b. if R_HASH_BUCKET_LIVE (sb_hash b) then [sb_item b] else []) bs)
      = map sb_item (filter (\<lambda>b. R_HASH_BUCKET_LIVE (sb_hash b)) bs)" for bs
    by (induction bs) simp_all
  have "r_hash_set_foreach (Some hs') True = (True, ?visited)"
    by (simp add: r_hash_set_foreach_def flat)
  moreover have "length ?visited = hs_size hs'"
    using hs_invD(1) [OF inv] by (simp add: oa_wf_def oa_live_def)
  moreover have "hs_mem hs' k \<longleftrightarrow> (\<exists>x \<in> set ?visited. oa_key_equal e k x = Some True)" if "k \<in> K" for k
    using hs_entry_iff [OF inv that] by (auto simp: hs_mem_def e oa_entries_def)
  moreover have "r_hash_set_new_full True True h e nf = Some (Some ?hs)" by (simp add: r_hash_set_new_full_def)
  ultimately show ?thesis using run inv mem by blast
qed

theorem r_hash_set_refines_set_witness:
  "\<exists>hs hs'. r_hash_set_new_full True True None None 0 = Some (Some hs) \<and>
     hs_run [HS_Insert 1, HS_Insert 2, HS_Remove 1, HS_Contains 1, HS_Contains 2] (Some hs) = Some ([True, True, True, False, True], Some hs')"
proof -
  have "hs_contract (hs_fresh None None 0) {1, 2}" by (rule hs_contract_direct) simp_all
  from r_hash_set_refines_set [OF this, of "[HS_Insert 1, HS_Insert 2, HS_Remove 1, HS_Contains 1, HS_Contains 2]"]
  show ?thesis by (auto simp: oa_key_equal_def Let_def)
qed

end
