(* ===== verification/RDll.thy ===== *)
theory RDll
  imports RPrelude
begin

text \<open>
  Doubly linked nodes in a store, for every node type with a next and a previous pointer: the
  shape of a list segment, and what linking and unlinking a node does to it.  The list
  macros (\<^verbatim>\<open>RList\<close>) and the timeout list (\<^verbatim>\<open>RTimeoutCBList\<close>) interpret it.
\<close>

text \<open>
  \<open>dll nxt prv h q ps r\<close>: the addresses \<open>ps\<close> hold a chain of nodes; the first one
  points back to \<open>q\<close> and the last one points on to \<open>r\<close>.
\<close>

primrec dll ::
  "('n \<Rightarrow> rpointer) \<Rightarrow> ('n \<Rightarrow> rpointer) \<Rightarrow> 'n store \<Rightarrow> rpointer \<Rightarrow> rpointer list \<Rightarrow> rpointer \<Rightarrow> bool" where
  "dll nxt prv h q [] r \<longleftrightarrow> True"
| "dll nxt prv h q (p # ps) r \<longleftrightarrow>
     p \<noteq> NULL \<and> (\<exists>n. h p = Some n \<and> prv n = q \<and> nxt n = hd (ps @ [r])) \<and> dll nxt prv h p ps r"

lemma dll_append:
  "dll nxt prv h q (xs @ ys) r \<longleftrightarrow> dll nxt prv h q xs (hd (ys @ [r])) \<and> dll nxt prv h (last (q # xs)) ys r"
  by (induction xs arbitrary: q) (auto simp: hd_append)

lemma dll_cong:
  "dll nxt prv h q ps r \<Longrightarrow> \<forall>a \<in> set ps. h' a = h a \<Longrightarrow> dll nxt prv h' q ps r"
  by (induction ps arbitrary: q) auto

lemma dll_frame [simp]: "p \<notin> set ps \<Longrightarrow> dll nxt prv (h(p := x)) q ps r = dll nxt prv h q ps r"
  by (induction ps arbitrary: q) auto

lemma dll_nodes:
  assumes "dll nxt prv h q ps r" "p \<in> set ps"
  shows "p \<noteq> NULL" and "\<exists>n. h p = Some n"
  using assms by (induction ps arbitrary: q) auto

lemma dll_nth:
  assumes "dll nxt prv h q ps r" "i < length ps"
  shows "\<exists>n. h (ps ! i) = Some n \<and> ps ! i \<noteq> NULL \<and> prv n = (q # ps) ! i \<and> nxt n = (ps @ [r]) ! Suc i"
  using assms
proof (induction ps arbitrary: q i)
  case (Cons p ps)
  show ?case
  proof (cases i)
    case 0
    with Cons.prems show ?thesis by (cases ps) auto
  next
    case (Suc j)
    with Cons.IH [of p j] Cons.prems show ?thesis by auto
  qed
qed simp

lemma dll_distinct:
  assumes "dll nxt prv h q ps NULL"
  shows "distinct ps"
proof -
  have same: "ps ! i = ps ! j \<Longrightarrow> i < j \<Longrightarrow> j < length ps \<Longrightarrow> False" for i j
  proof (induction "length ps - j" arbitrary: i j)
    case (Suc k)
    then have "i < length ps" by simp
    from dll_nth [OF assms this] dll_nth [OF assms Suc.prems(3)] Suc.prems(1)
    have step: "(ps @ [NULL]) ! Suc i = (ps @ [NULL]) ! Suc j" by auto
    have "Suc i < length ps" using Suc.prems by simp
    then have nonnull: "ps ! Suc i \<noteq> NULL" using dll_nth [OF assms, of "Suc i"] by blast
    show False
    proof (cases "Suc j < length ps")
      case True
      with step \<open>Suc i < length ps\<close> have "ps ! Suc i = ps ! Suc j" by (simp add: nth_append)
      moreover have "k = length ps - Suc j" using Suc.hyps(2) by simp
      ultimately show False using Suc.hyps(1) [of "Suc j" "Suc i"] Suc.prems True by simp
    next
      case False
      with step nonnull Suc.prems \<open>Suc i < length ps\<close> show False by (auto simp: nth_append)
    qed
  qed simp
  show ?thesis
    unfolding distinct_conv_nth
  proof (intro allI impI)
    fix i j assume "i < length ps" "j < length ps" "i \<noteq> j"
    then show "ps ! i \<noteq> ps ! j" using same [of i j] same [of j i] by (cases "i < j") auto
  qed
qed

text \<open>What a node type offers: reading and writing its two pointers.\<close>

locale dnode =
  fixes nxt prv :: "'n \<Rightarrow> rpointer"
    and snxt sprv :: "rpointer \<Rightarrow> 'n \<Rightarrow> 'n"
  assumes nxt_snxt [simp]: "nxt (snxt q n) = q" and prv_snxt [simp]: "prv (snxt q n) = prv n"
    and prv_sprv [simp]: "prv (sprv q n) = q" and nxt_sprv [simp]: "nxt (sprv q n) = nxt n"
begin

lemma retarget_last:
  assumes "dll nxt prv h q xs r" "distinct xs"
    and "\<forall>a \<in> set xs. h' a = map_option (if a = last xs then snxt r' else id) (h a)"
  shows "dll nxt prv h' q xs r'"
  using assms
proof (induction xs arbitrary: q)
  case (Cons p xs)
  show ?case
  proof (cases xs)
    case Nil
    with Cons.prems show ?thesis by auto
  next
    case (Cons p' xs')
    have "last xs \<in> set xs" using Cons by simp
    then have p: "p \<noteq> last xs" using Cons.prems(2) by auto
    have "dll nxt prv h' p xs r'" using Cons.IH [of p] Cons.prems Cons by auto
    with Cons.prems p Cons show ?thesis by auto
  qed
qed simp

lemma retarget_first:
  assumes "dll nxt prv h q xs r" "distinct xs"
    and "\<forall>a \<in> set xs. h' a = map_option (if a = hd xs then sprv q' else id) (h a)"
  shows "dll nxt prv h' q' xs r"
proof (cases xs)
  case (Cons p ps)
  have "\<forall>a \<in> set ps. h' a = h a" using assms(2,3) Cons by (auto simp: option.map_id)
  then have "dll nxt prv h' p ps r" using assms(1) Cons by (auto intro: dll_cong)
  with assms Cons show ?thesis by auto
qed simp

text \<open>Linking a node between two segments, in whatever order the pointers are written.\<close>

lemma link:
  assumes dll: "dll nxt prv h q (xs @ ys) r" and d: "distinct (xs @ ys)" "p \<noteq> NULL"
    and p: "h' p = Some n" "prv n = last (q # xs)" "nxt n = hd (ys @ [r])"
    and xs: "\<forall>a \<in> set xs. h' a = map_option (if a = last xs then snxt p else id) (h a)"
    and ys: "\<forall>a \<in> set ys. h' a = map_option (if a = hd ys then sprv p else id) (h a)"
  shows "dll nxt prv h' q (xs @ p # ys) r"
proof -
  have "dll nxt prv h q xs (hd (ys @ [r]))" "dll nxt prv h (last (q # xs)) ys r"
    using dll by (simp_all add: dll_append)
  then have "dll nxt prv h' q xs p" "dll nxt prv h' p ys r"
    using retarget_last [OF _ _ xs] retarget_first [OF _ _ ys] d(1) by auto
  with p d(2) show ?thesis by (simp add: dll_append)
qed

lemma unlink:
  assumes dll: "dll nxt prv h q (xs @ p # ys) r" and d: "distinct (xs @ p # ys)"
    and xs: "\<forall>a \<in> set xs. h' a = map_option (if a = last xs then snxt (hd (ys @ [r])) else id) (h a)"
    and ys: "\<forall>a \<in> set ys. h' a = map_option (if a = hd ys then sprv (last (q # xs)) else id) (h a)"
  shows "dll nxt prv h' q (xs @ ys) r"
proof -
  have "dll nxt prv h q xs p" "dll nxt prv h p ys r"
    using dll by (simp_all add: dll_append)
  then have "dll nxt prv h' q xs (hd (ys @ [r]))" "dll nxt prv h' (last (q # xs)) ys r"
    using retarget_last [OF _ _ xs] retarget_first [OF _ _ ys] d by auto
  then show ?thesis by (simp add: dll_append)
qed

end

end
