(* ===== verification/RList.thy ===== *)
theory RList
  imports RDll "HOL-Library.Multiset"
begin

text \<open>
  \<^verbatim>\<open>include/rlib/data/rlist-internal.h\<close> and \<^verbatim>\<open>rlib/data/rlist.c\<close>: the doubly and
  singly linked lists that the macros \<^verbatim>\<open>R__LIST_IMPL\<close> and \<^verbatim>\<open>R__SLIST_IMPL\<close> generate,
  on an explicit store of nodes.

  The macros take the data type, so the nodes are polymorphic in it.  An allocation is given
  the address it returns as the argument \<open>new\<close>.  \<open>clear\<close> stands for the macro's clear hook (the
  destroy notifications of the data), and \<open>ref\<close> for how the data is passed to a callback: its
  value for \<^verbatim>\<open>RList\<close>, its address for the callback lists.  Callbacks do not change the list.
\<close>

section \<open>Doubly linked lists\<close>

record 'd RList =
  l_data :: 'd
  l_next :: rpointer
  l_prev :: rpointer

type_synonym 'd lstore = "'d RList store"

abbreviation set_next :: "rpointer \<Rightarrow> 'd RList \<Rightarrow> 'd RList" where
  "set_next p n \<equiv> n\<lparr>l_next := p\<rparr>"

abbreviation set_prev :: "rpointer \<Rightarrow> 'd RList \<Rightarrow> 'd RList" where
  "set_prev p n \<equiv> n\<lparr>l_prev := p\<rparr>"

partial_function (option) r_list_first_loop :: "'d lstore \<Rightarrow> rpointer \<Rightarrow> rpointer option" where
  "r_list_first_loop h lst = do {
     n \<leftarrow> deref h lst;
     if l_prev n \<noteq> NULL then r_list_first_loop h (l_prev n) else Some lst
   }"

definition r_list_first :: "'d lstore \<Rightarrow> rpointer \<Rightarrow> rpointer option" where
  "r_list_first h lst = (if lst \<noteq> NULL then r_list_first_loop h lst else Some lst)"

partial_function (option) r_list_last_loop :: "'d lstore \<Rightarrow> rpointer \<Rightarrow> rpointer option" where
  "r_list_last_loop h lst = do {
     n \<leftarrow> deref h lst;
     if l_next n \<noteq> NULL then r_list_last_loop h (l_next n) else Some lst
   }"

definition r_list_last :: "'d lstore \<Rightarrow> rpointer \<Rightarrow> rpointer option" where
  "r_list_last h lst = (if lst \<noteq> NULL then r_list_last_loop h lst else Some lst)"

fun r_list_nth :: "'d lstore \<Rightarrow> rpointer \<Rightarrow> nat \<Rightarrow> rpointer option" where
  "r_list_nth h lst 0 = Some lst"
| "r_list_nth h lst (Suc n) =
     (if lst \<noteq> NULL then do { nd \<leftarrow> deref h lst; r_list_nth h (l_next nd) n } else Some lst)"

text \<open>The nodes a loop along one of the pointers visits.\<close>

partial_function (option) r_list_walk ::
  "('d RList \<Rightarrow> rpointer) \<Rightarrow> 'd lstore \<Rightarrow> rpointer \<Rightarrow> (rpointer \<times> 'd) list option" where
  "r_list_walk step h it =
     (if it = NULL then Some []
      else do {
        n \<leftarrow> deref h it;
        rest \<leftarrow> r_list_walk step h (step n);
        Some ((it, l_data n) # rest)
      })"

definition r_list_len :: "'d lstore \<Rightarrow> rpointer \<Rightarrow> nat option" where
  "r_list_len h lst =
     (if lst \<noteq> NULL then do {
        n \<leftarrow> deref h lst;
        after \<leftarrow> r_list_walk l_next h (l_next n);
        before \<leftarrow> r_list_walk l_prev h (l_prev n);
        Some (length after + length before + 1)
      }
      else Some 0)"

partial_function (option) r_list_find ::
  "('d RList \<Rightarrow> rpointer) \<Rightarrow> 'd lstore \<Rightarrow> ('d \<Rightarrow> bool) \<Rightarrow> rpointer \<Rightarrow> rpointer option" where
  "r_list_find step h P it =
     (if it = NULL then Some NULL
      else do {
        n \<leftarrow> deref h it;
        if P (l_data n) then Some it else r_list_find step h P (step n)
      })"

definition r_list_contains_full :: "'d lstore \<Rightarrow> rpointer \<Rightarrow> 'd \<Rightarrow> bool option" where
  "r_list_contains_full h lst data =
     (if lst \<noteq> NULL then do {
        p \<leftarrow> r_list_find l_next h (\<lambda>d. d = data) lst;
        if p \<noteq> NULL then Some True
        else do {
          n \<leftarrow> deref h lst;
          p \<leftarrow> r_list_find l_prev h (\<lambda>d. d = data) (l_prev n);
          Some (p \<noteq> NULL)
        }
      }
      else Some False)"

definition r_list_foreach :: "(rpointer \<Rightarrow> 'd \<Rightarrow> rpointer) \<Rightarrow> 'd lstore \<Rightarrow> rpointer \<Rightarrow> rpointer list option" where
  "r_list_foreach ref h lst = do {
     visited \<leftarrow> r_list_walk l_next h lst;
     Some (map (\<lambda>(p, d). ref p d) visited)
   }"

definition r_list_alloc0 :: "'d lstore \<Rightarrow> rpointer \<Rightarrow> 'd \<Rightarrow> 'd lstore" where
  "r_list_alloc0 h new zero = h(new \<mapsto> \<lparr>l_data = zero, l_next = NULL, l_prev = NULL\<rparr>)"

definition r_list_alloc_copy :: "'d lstore \<Rightarrow> rpointer \<Rightarrow> 'd \<Rightarrow> 'd lstore" where
  "r_list_alloc_copy h new data = h(new \<mapsto> \<lparr>l_data = data, l_next = NULL, l_prev = NULL\<rparr>)"

definition r_list_prepend_link :: "'d lstore \<Rightarrow> rpointer \<Rightarrow> rpointer \<Rightarrow> (rpointer \<times> 'd lstore) option" where
  "r_list_prepend_link h lst entry = do {
     first \<leftarrow> r_list_first h lst;
     h \<leftarrow> assign h entry (set_next first);
     h \<leftarrow> (if first \<noteq> NULL then assign h first (set_prev entry) else Some h);
     Some (entry, h)
   }"

definition r_list_append_link :: "'d lstore \<Rightarrow> rpointer \<Rightarrow> rpointer \<Rightarrow> (rpointer \<times> 'd lstore) option" where
  "r_list_append_link h lst entry =
     (if lst \<noteq> NULL then do {
        last \<leftarrow> r_list_last h lst;
        h \<leftarrow> assign h last (set_next entry);
        h \<leftarrow> assign h entry (set_prev last);
        Some (lst, h)
      }
      else Some (entry, h))"

definition r_list_prepend_copy :: "'d lstore \<Rightarrow> rpointer \<Rightarrow> rpointer \<Rightarrow> 'd \<Rightarrow> (rpointer \<times> 'd lstore) option" where
  "r_list_prepend_copy h new lst data = r_list_prepend_link (r_list_alloc_copy h new data) lst new"

definition r_list_append_copy :: "'d lstore \<Rightarrow> rpointer \<Rightarrow> rpointer \<Rightarrow> 'd \<Rightarrow> (rpointer \<times> 'd lstore) option" where
  "r_list_append_copy h new lst data = r_list_append_link (r_list_alloc_copy h new data) lst new"

definition r_list_insert_after ::
  "'d lstore \<Rightarrow> rpointer \<Rightarrow> rpointer \<Rightarrow> rpointer \<Rightarrow> 'd \<Rightarrow> (rpointer \<times> 'd lstore) option" where
  "r_list_insert_after h new head entry data = do {
     let h = r_list_alloc_copy h new data;
     if head = NULL then Some (new, h)
     else do {
       let entry = (if entry = NULL then head else entry);
       e \<leftarrow> deref h entry;
       h \<leftarrow> assign h new (set_next (l_next e));
       h \<leftarrow> assign h new (set_prev entry);
       e \<leftarrow> deref h entry;
       h \<leftarrow> (if l_next e \<noteq> NULL then assign h (l_next e) (set_prev new) else Some h);
       h \<leftarrow> assign h entry (set_next new);
       Some (head, h)
     }
   }"

definition r_list_insert_before ::
  "'d lstore \<Rightarrow> rpointer \<Rightarrow> rpointer \<Rightarrow> rpointer \<Rightarrow> 'd \<Rightarrow> (rpointer \<times> 'd lstore) option" where
  "r_list_insert_before h new head entry data = do {
     let h = r_list_alloc_copy h new data;
     if head \<noteq> NULL \<and> entry \<noteq> NULL \<and> entry \<noteq> head then do {
       e \<leftarrow> deref h entry;
       h \<leftarrow> assign h new (set_prev (l_prev e));
       h \<leftarrow> assign h new (set_next entry);
       e \<leftarrow> deref h entry;
       h \<leftarrow> assign h (l_prev e) (set_next new);
       h \<leftarrow> assign h entry (set_prev new);
       Some (head, h)
     }
     else r_list_prepend_link h head new
   }"

definition r_list_free1 ::
  "('d \<Rightarrow> notify_call list) \<Rightarrow> 'd lstore \<Rightarrow> rpointer \<Rightarrow> ('d lstore \<times> notify_call list) option" where
  "r_list_free1 clear h lst = do {
     n \<leftarrow> deref h lst;
     h \<leftarrow> release h lst;
     Some (h, clear (l_data n))
   }"

definition r_list_free1_full ::
  "('d \<Rightarrow> notify_call list) \<Rightarrow> (rpointer \<Rightarrow> 'd \<Rightarrow> rpointer) \<Rightarrow> 'd lstore \<Rightarrow> rpointer \<Rightarrow> rpointer
   \<Rightarrow> ('d lstore \<times> notify_call list) option" where
  "r_list_free1_full clear ref h lst notify =
     (if lst \<noteq> NULL then do {
        n \<leftarrow> deref h lst;
        (h, calls) \<leftarrow> r_list_free1 clear h lst;
        Some (h, call_notify notify (ref lst (l_data n)) @ calls)
      }
      else Some (h, []))"

definition r_list_remove_link :: "'d lstore \<Rightarrow> rpointer \<Rightarrow> rpointer \<Rightarrow> (rpointer \<times> 'd lstore) option" where
  "r_list_remove_link h head entry =
     (if entry \<noteq> NULL then do {
        e \<leftarrow> deref h entry;
        let next = l_next e;
        let prev = l_prev e;
        head' \<leftarrow> (if head = entry then do { n \<leftarrow> deref h head; Some (l_next n) } else Some head);
        h \<leftarrow> (if prev \<noteq> NULL then assign h prev (set_next (l_next e)) else Some h);
        e \<leftarrow> deref h entry;
        h \<leftarrow> (if next \<noteq> NULL then assign h next (set_prev (l_prev e)) else Some h);
        Some (head', h)
      }
      else Some (head, h))"

definition r_list_destroy_link ::
  "('d \<Rightarrow> notify_call list) \<Rightarrow> 'd lstore \<Rightarrow> rpointer \<Rightarrow> rpointer
   \<Rightarrow> (rpointer \<times> 'd lstore \<times> notify_call list) option" where
  "r_list_destroy_link clear h head entry = do {
     (head, h) \<leftarrow> r_list_remove_link h head entry;
     (h, calls) \<leftarrow> r_list_free1 clear h entry;
     Some (head, h, calls)
   }"

definition r_list_remove ::
  "('d \<Rightarrow> notify_call list) \<Rightarrow> 'd lstore \<Rightarrow> rpointer \<Rightarrow> 'd
   \<Rightarrow> (rpointer \<times> 'd lstore \<times> notify_call list) option" where
  "r_list_remove clear h head data = do {
     it \<leftarrow> r_list_find l_next h (\<lambda>d. d = data) head;
     if it \<noteq> NULL then r_list_destroy_link clear h head it else Some (head, h, [])
   }"

text \<open>A destroy loop along one of the pointers; each node is freed by \<open>free\<close>.\<close>

partial_function (option) r_list_destroy_loop ::
  "('d lstore \<Rightarrow> rpointer \<Rightarrow> ('d lstore \<times> notify_call list) option) \<Rightarrow> ('d RList \<Rightarrow> rpointer)
   \<Rightarrow> 'd lstore \<Rightarrow> rpointer \<Rightarrow> notify_call list \<Rightarrow> ('d lstore \<times> notify_call list) option" where
  "r_list_destroy_loop free step h it calls =
     (if it = NULL then Some (h, calls)
      else do {
        n \<leftarrow> deref h it;
        (h, new) \<leftarrow> free h it;
        r_list_destroy_loop free step h (step n) (calls @ new)
      })"

definition r_list_destroy_with ::
  "('d lstore \<Rightarrow> rpointer \<Rightarrow> ('d lstore \<times> notify_call list) option) \<Rightarrow> 'd lstore \<Rightarrow> rpointer
   \<Rightarrow> ('d lstore \<times> notify_call list) option" where
  "r_list_destroy_with free h head =
     (if head \<noteq> NULL then do {
        n \<leftarrow> deref h head;
        (h, after) \<leftarrow> r_list_destroy_loop free l_next h (l_next n) [];
        n \<leftarrow> deref h head;
        (h, before) \<leftarrow> r_list_destroy_loop free l_prev h (l_prev n) [];
        (h, own) \<leftarrow> free h head;
        Some (h, after @ before @ own)
      }
      else Some (h, []))"

definition r_list_destroy ::
  "('d \<Rightarrow> notify_call list) \<Rightarrow> 'd lstore \<Rightarrow> rpointer \<Rightarrow> ('d lstore \<times> notify_call list) option" where
  "r_list_destroy clear h head = r_list_destroy_with (r_list_free1 clear) h head"

definition r_list_destroy_full ::
  "('d \<Rightarrow> notify_call list) \<Rightarrow> (rpointer \<Rightarrow> 'd \<Rightarrow> rpointer) \<Rightarrow> 'd lstore \<Rightarrow> rpointer \<Rightarrow> rpointer
   \<Rightarrow> ('d lstore \<times> notify_call list) option" where
  "r_list_destroy_full clear ref h head notify =
     r_list_destroy_with (\<lambda>h p. r_list_free1_full clear ref h p notify) h head"

section \<open>The lists a store holds\<close>

interpretation rl: dnode l_next l_prev set_next set_prev
  by unfold_locales simp_all

text \<open>The nodes of a complete list, in order, and their data.\<close>

definition is_list :: "'d lstore \<Rightarrow> rpointer list \<Rightarrow> bool" where
  "is_list h ps = dll l_next l_prev h NULL ps NULL"

definition contents :: "'d lstore \<Rightarrow> rpointer list \<Rightarrow> 'd list" where
  "contents h ps = map (\<lambda>p. l_data (the (h p))) ps"

lemma contents_simps [simp]:
  "contents h [] = []" "contents h (p # ps) = l_data (the (h p)) # contents h ps"
  "contents h (ps @ qs) = contents h ps @ contents h qs" "length (contents h ps) = length ps"
  by (simp_all add: contents_def)

lemma contents_cong: "(\<And>p. p \<in> set ps \<Longrightarrow> map_option l_data (h' p) = map_option l_data (h p)) \<Longrightarrow>
    \<forall>p \<in> set ps. h p \<noteq> None \<Longrightarrow> contents h' ps = contents h ps"
  unfolding contents_def by (rule map_cong) (force split: option.splits)+

lemma is_list_distinct: "is_list h ps \<Longrightarrow> distinct ps"
  unfolding is_list_def by (rule dll_distinct)

lemma is_list_node: "is_list h ps \<Longrightarrow> p \<in> set ps \<Longrightarrow> p \<noteq> NULL \<and> (\<exists>n. h p = Some n)"
  unfolding is_list_def using dll_nodes by blast

lemma last_loop:
  "dll l_next l_prev h q (p # ps) NULL \<Longrightarrow> r_list_last_loop h p = Some (last (p # ps))"
proof (induction ps arbitrary: p q)
  case Nil
  then show ?case by (subst r_list_last_loop.simps) auto
next
  case (Cons p' ps)
  then obtain n where n: "h p = Some n" "l_next n = p'" "p' \<noteq> NULL" "p \<noteq> NULL" by auto
  from Cons have "r_list_last_loop h p' = Some (last (p' # ps))" by auto
  with n show ?case by (subst r_list_last_loop.simps) simp
qed

lemma first_loop:
  "dll l_next l_prev h NULL (ps @ [p]) r \<Longrightarrow> r_list_first_loop h p = Some (hd (ps @ [p]))"
proof (induction ps arbitrary: p r rule: rev_induct)
  case Nil
  then show ?case by (subst r_list_first_loop.simps) auto
next
  case (snoc p' ps)
  then obtain n where n: "h p = Some n" "l_prev n = p'" "p' \<noteq> NULL" "p \<noteq> NULL" by (auto simp: dll_append)
  from snoc have "r_list_first_loop h p' = Some (hd (ps @ [p']))" by (auto simp: dll_append)
  with n show ?case by (subst r_list_first_loop.simps) (simp add: hd_append)
qed

lemma first_last:
  assumes "is_list h ps" "p \<in> set ps"
  shows "r_list_first h p = Some (hd ps)" and "r_list_last h p = Some (last ps)"
proof -
  obtain xs ys where ps: "ps = xs @ p # ys" using assms(2) by (auto simp: in_set_conv_decomp)
  have seg: "dll l_next l_prev h NULL (xs @ [p]) (hd (ys @ [NULL]))"
    "dll l_next l_prev h (last (NULL # xs)) (p # ys) NULL"
    using assms(1) by (auto simp: is_list_def ps dll_append)
  have "p \<noteq> NULL" using is_list_node [OF assms] by blast
  then show "r_list_first h p = Some (hd ps)" "r_list_last h p = Some (last ps)"
    using first_loop [OF seg(1)] last_loop [OF seg(2)]
    by (simp_all add: r_list_first_def r_list_last_def ps hd_append)
qed

lemma walk_next:
  "dll l_next l_prev h q ps NULL \<Longrightarrow>
   r_list_walk l_next h (head_of ps) = Some (map (\<lambda>p. (p, l_data (the (h p)))) ps)"
proof (induction ps arbitrary: q)
  case Nil
  then show ?case by (subst r_list_walk.simps) simp
next
  case (Cons p ps)
  then obtain n where "h p = Some n" "l_next n = head_of ps" "p \<noteq> NULL" by auto
  with Cons show ?case by (subst r_list_walk.simps) auto
qed

lemma walk_prev:
  "dll l_next l_prev h NULL ps r \<Longrightarrow>
   r_list_walk l_prev h (last (NULL # ps)) = Some (rev (map (\<lambda>p. (p, l_data (the (h p)))) ps))"
proof (induction ps arbitrary: r rule: rev_induct)
  case Nil
  then show ?case by (subst r_list_walk.simps) simp
next
  case (snoc p ps)
  then obtain n where "h p = Some n" "l_prev n = last (NULL # ps)" "p \<noteq> NULL" by (auto simp: dll_append)
  moreover have "r_list_walk l_prev h (last (NULL # ps)) = Some (rev (map (\<lambda>p. (p, l_data (the (h p)))) ps))"
    using snoc by (auto simp: dll_append)
  ultimately show ?case by (subst r_list_walk.simps) simp
qed

lemma find_next:
  "dll l_next l_prev h q ps NULL \<Longrightarrow>
   r_list_find l_next h P (head_of ps) = Some (head_of (dropWhile (\<lambda>p. \<not> P (l_data (the (h p)))) ps))"
proof (induction ps arbitrary: q)
  case Nil
  then show ?case by (subst r_list_find.simps) simp
next
  case (Cons p ps)
  then obtain n where "h p = Some n" "l_next n = head_of ps" "p \<noteq> NULL" by auto
  with Cons show ?case by (subst r_list_find.simps) auto
qed

lemma find_prev:
  "dll l_next l_prev h NULL ps r \<Longrightarrow>
   \<exists>p. r_list_find l_prev h P (last (NULL # ps)) = Some p \<and> (p \<noteq> NULL \<longleftrightarrow> (\<exists>d \<in> set (contents h ps). P d))"
proof (induction ps arbitrary: r rule: rev_induct)
  case Nil
  then show ?case by (subst r_list_find.simps) simp
next
  case (snoc p ps)
  then obtain n where "h p = Some n" "l_prev n = last (NULL # ps)" "p \<noteq> NULL" by (auto simp: dll_append)
  with snoc show ?case by (subst r_list_find.simps) (auto simp: dll_append)
qed

lemma len_spec:
  assumes "is_list h ps" "p \<in> set ps"
  shows "r_list_len h p = Some (length ps)"
proof -
  obtain xs ys where ps: "ps = xs @ p # ys" using assms(2) by (auto simp: in_set_conv_decomp)
  have dll: "dll l_next l_prev h NULL xs p" "dll l_next l_prev h p ys NULL"
    using assms(1) by (auto simp: is_list_def ps dll_append)
  obtain n where n: "h p = Some n" "l_prev n = last (NULL # xs)" "l_next n = head_of ys" "p \<noteq> NULL"
    using assms(1) by (auto simp: is_list_def ps dll_append)
  then show ?thesis
    using walk_next [OF dll(2)] walk_prev [OF dll(1)] by (simp add: r_list_len_def ps)
qed

lemma contains_spec:
  assumes "is_list h ps" "p \<in> set ps"
  shows "r_list_contains_full h p d = Some (d \<in> set (contents h ps))"
proof -
  obtain xs ys where ps: "ps = xs @ p # ys" using assms(2) by (auto simp: in_set_conv_decomp)
  have dll: "dll l_next l_prev h NULL xs p" "dll l_next l_prev h (last (NULL # xs)) (p # ys) NULL"
    using assms(1) by (auto simp: is_list_def ps dll_append)
  obtain n where n: "h p = Some n" "l_prev n = last (NULL # xs)" "p \<noteq> NULL"
    using assms(1) by (auto simp: is_list_def ps dll_append)
  let ?rest = "dropWhile (\<lambda>p. \<not> l_data (the (h p)) = d) (p # ys)"
  have f: "r_list_find l_next h (\<lambda>x. x = d) p = Some (head_of ?rest)"
    using find_next [OF dll(2), of "\<lambda>x. x = d"] by simp
  show ?thesis
  proof (cases "d \<in> set (contents h (p # ys))")
    case True
    then have ne: "?rest \<noteq> []" by (auto simp: contents_def dropWhile_eq_Nil_conv)
    then have "hd ?rest \<in> set (p # ys)" using hd_in_set set_dropWhileD by metis
    then have "hd ?rest \<noteq> NULL" using dll_nodes(1) [OF dll(2)] by blast
    then show ?thesis
      using True ne f n(3) by (auto simp: r_list_contains_full_def ps hd_append)
  next
    case False
    then have "?rest = []" by (auto simp: contents_def dropWhile_eq_Nil_conv)
    with f have f0: "r_list_find l_next h (\<lambda>x. x = d) p = Some NULL" by simp
    from find_prev [OF dll(1), of "\<lambda>x. x = d"] obtain q where
      "r_list_find l_prev h (\<lambda>x. x = d) (last (NULL # xs)) = Some q"
      "q \<noteq> NULL \<longleftrightarrow> d \<in> set (contents h xs)" by auto
    with f0 n False show ?thesis by (auto simp: r_list_contains_full_def ps)
  qed
qed

section \<open>Insertions\<close>

text \<open>
  What an edit of a list establishes: the new node sequence, its data, and that no node
  outside the two sequences is touched.
\<close>

definition list_edit ::
  "'d lstore \<Rightarrow> rpointer list \<Rightarrow> 'd lstore \<Rightarrow> rpointer list \<Rightarrow> 'd list \<Rightarrow> bool" where
  "list_edit h ps h' ps' ds \<longleftrightarrow>
     is_list h' ps' \<and> contents h' ps' = ds \<and> (\<forall>a. a \<notin> set ps \<union> set ps' \<longrightarrow> h' a = h a)"

lemma list_edit_link:
  assumes l: "is_list h (xs @ ys)" and p: "p \<notin> set (xs @ ys)" "p \<noteq> NULL"
    and n: "h' p = Some \<lparr>l_data = d, l_next = head_of ys, l_prev = last (NULL # xs)\<rparr>"
    and rest: "\<forall>a. a \<noteq> p \<longrightarrow> h' a = map_option
       ((if a = last (NULL # xs) then set_next p else id) \<circ> (if a = head_of ys then set_prev p else id)) (h a)"
    and null: "h NULL = None"
  shows "list_edit h (xs @ ys) h' (xs @ p # ys) (contents h xs @ d # contents h ys)"
  unfolding list_edit_def
proof (intro conjI allI impI)
  have d: "distinct (xs @ ys)" using is_list_distinct [OF l] .
  have nn: "a \<noteq> NULL \<and> h a \<noteq> None \<and> a \<noteq> p" if "a \<in> set (xs @ ys)" for a
    using is_list_node [OF l that] p(1) that by auto
  have xs: "\<forall>a \<in> set xs. h' a = map_option (if a = last xs then set_next p else id) (h a)"
  proof
    fix a assume a: "a \<in> set xs"
    then have "a \<noteq> head_of ys" using d nn [of a] by (cases ys) auto
    then show "h' a = map_option (if a = last xs then set_next p else id) (h a)"
      using rest nn [of a] a by auto
  qed
  have ys: "\<forall>a \<in> set ys. h' a = map_option (if a = hd ys then set_prev p else id) (h a)"
  proof
    fix a assume a: "a \<in> set ys"
    have "a \<noteq> last (NULL # xs)" using d nn [of a] a last_in_set [of xs] by (auto simp: disjoint_iff)
    then show "h' a = map_option (if a = hd ys then set_prev p else id) (h a)"
      using rest nn [of a] a by (cases ys) auto
  qed
  show "is_list h' (xs @ p # ys)"
    unfolding is_list_def
    by (rule rl.link [where h = h and h' = h' and p = p, OF _ _ _ n]) (use l d p(2) n xs ys in \<open>simp_all add: is_list_def\<close>)
  have "map_option l_data (h' a) = map_option l_data (h a)" if "a \<in> set (xs @ ys)" for a
    using rest nn [OF that] by (simp add: option.map_comp) (auto intro!: option.map_cong)
  then have "contents h' xs = contents h xs" "contents h' ys = contents h ys"
    using nn by (auto intro!: contents_cong)
  then show "contents h' (xs @ p # ys) = contents h xs @ d # contents h ys" using n by simp
  fix a assume a: "a \<notin> set (xs @ ys) \<union> set (xs @ p # ys)"
  have "last (NULL # xs) = NULL \<or> last (NULL # xs) \<in> set xs" "head_of ys = NULL \<or> head_of ys \<in> set ys"
    by (auto simp: hd_append)
  with a null have "a \<noteq> last (NULL # xs) \<and> a \<noteq> head_of ys \<or> h a = None" by auto
  with rest a show "h' a = h a" by (auto simp: option.map_id)
qed

text \<open>The two ways to name a list: by its first node, or by any node of it.\<close>

lemma node_cases:
  assumes "is_list h ps" "lst = NULL \<and> ps = [] \<or> lst \<in> set ps"
  obtains (empty) "ps = []" "lst = NULL" | (node) "lst \<in> set ps" "lst \<noteq> NULL" "ps \<noteq> []"
  using assms is_list_node by fastforce

lemma is_list_alloc:
  assumes "is_list h ps" "h p = None"
  shows "p \<notin> set ps" "is_list (r_list_alloc_copy h p d) ps"
    "contents (r_list_alloc_copy h p d) ps = contents h ps"
proof -
  show p: "p \<notin> set ps" using assms is_list_node by fastforce
  then show "is_list (r_list_alloc_copy h p d) ps"
    using assms(1) by (simp add: is_list_def r_list_alloc_copy_def)
  show "contents (r_list_alloc_copy h p d) ps = contents h ps"
    using p by (auto simp: r_list_alloc_copy_def contents_def)
qed

lemma prepend_copy_spec:
  assumes l: "is_list h ps" and lst: "lst = NULL \<and> ps = [] \<or> lst \<in> set ps"
    and new: "h new = None" "new \<noteq> NULL" and null: "h NULL = None"
  shows "\<exists>h'. r_list_prepend_copy h new lst d = Some (new, h') \<and>
     list_edit h ps h' (new # ps) (d # contents h ps)"
proof -
  let ?h = "r_list_alloc_copy h new d"
  note al = is_list_alloc [OF l new(1)]
  have "r_list_first ?h lst = Some (head_of ps)"
    using node_cases [OF l lst] first_last(1) [OF al(2) [of d], of lst] by cases (auto simp: r_list_first_def [of _ NULL])
  moreover have "\<exists>n. h (hd ps) = Some n \<and> hd ps \<noteq> NULL \<and> hd ps \<noteq> new" if "ps \<noteq> []"
    using that is_list_node [OF l, of "hd ps"] al(1) by fastforce
  ultimately obtain h' where h': "r_list_prepend_copy h new lst d = Some (new, h')"
    "h' new = Some \<lparr>l_data = d, l_next = head_of ps, l_prev = NULL\<rparr>"
    "\<forall>a. a \<noteq> new \<longrightarrow> h' a = map_option (if a = head_of ps then set_prev new else id) (h a)"
    using new null by (cases ps)
      (auto simp: r_list_prepend_copy_def r_list_prepend_link_def r_list_alloc_copy_def option.map_id)
  have "list_edit h ([] @ ps) h' ([] @ new # ps) (contents h [] @ d # contents h ps)"
    by (rule list_edit_link) (use l al(1) new h'(2,3) null in \<open>auto simp: option.map_id\<close>)
  then show ?thesis using h'(1) by simp
qed

lemma append_copy_spec:
  assumes l: "is_list h ps" and lst: "lst = NULL \<and> ps = [] \<or> lst \<in> set ps"
    and new: "h new = None" "new \<noteq> NULL" and null: "h NULL = None"
  shows "\<exists>h'. r_list_append_copy h new lst d = Some (if ps = [] then new else lst, h') \<and>
     list_edit h ps h' (ps @ [new]) (contents h ps @ [d])"
proof -
  let ?h = "r_list_alloc_copy h new d"
  note al = is_list_alloc [OF l new(1)]
  have "\<exists>h'. r_list_append_copy h new lst d = Some (if ps = [] then new else lst, h') \<and>
    h' new = Some \<lparr>l_data = d, l_next = NULL, l_prev = last (NULL # ps)\<rparr> \<and>
    (\<forall>a. a \<noteq> new \<longrightarrow> h' a = map_option (if a = last (NULL # ps) then set_next new else id) (h a))"
  proof (cases rule: node_cases [OF l lst, case_names empty node])
    case empty
    then show ?thesis using null
      by (auto simp: r_list_append_copy_def r_list_append_link_def r_list_alloc_copy_def option.map_id)
  next
    case node
    obtain n where "h (last ps) = Some n" "last ps \<noteq> NULL" "last ps \<noteq> new"
      using is_list_node [OF l, of "last ps"] al(1) node(3) by fastforce
    with node first_last(2) [OF al(2) [of d] node(1)] new show ?thesis
      by (auto simp: r_list_append_copy_def r_list_append_link_def r_list_alloc_copy_def option.map_id)
  qed
  then obtain h' where h': "r_list_append_copy h new lst d = Some (if ps = [] then new else lst, h')"
    "h' new = Some \<lparr>l_data = d, l_next = NULL, l_prev = last (NULL # ps)\<rparr>"
    "\<forall>a. a \<noteq> new \<longrightarrow> h' a = map_option (if a = last (NULL # ps) then set_next new else id) (h a)" by blast
  have "list_edit h (ps @ []) h' (ps @ new # []) (contents h ps @ d # contents h [])"
    by (rule list_edit_link) (use l al(1) new h'(2,3) null in \<open>auto simp: option.map_id\<close>)
  then show ?thesis using h'(1) by simp
qed

lemma insert_after_spec:
  assumes l: "is_list h (xs @ e # ys)" and new: "h new = None" "new \<noteq> NULL" and null: "h NULL = None"
    and head: "head \<noteq> NULL" and entry: "entry = e \<or> entry = NULL \<and> head = e"
  shows "\<exists>h'. r_list_insert_after h new head entry d = Some (head, h') \<and>
     list_edit h (xs @ e # ys) h' (xs @ e # new # ys) (contents h (xs @ [e]) @ d # contents h ys)"
proof -
  let ?ps = "xs @ e # ys"
  note al = is_list_alloc [OF l new(1)]
  obtain n where n: "h e = Some n" "l_next n = head_of ys" "e \<noteq> NULL" "e \<noteq> new"
    using l al(1) by (auto simp: is_list_def dll_append)
  have dist: "e \<notin> set ys" using is_list_distinct [OF l] by simp
  have hd: "\<exists>m. h (hd ys) = Some m \<and> hd ys \<noteq> NULL \<and> hd ys \<noteq> new \<and> hd ys \<noteq> e" if "ys \<noteq> []"
    using that is_list_node [OF l, of "hd ys"] al(1) dist hd_in_set [OF that] by fastforce
  have sel: "(if entry = NULL then head else entry) = e" using entry n(3) by auto
  have "\<exists>h'. r_list_insert_after h new head entry d = Some (head, h') \<and>
    h' new = Some \<lparr>l_data = d, l_next = head_of ys, l_prev = e\<rparr> \<and>
    (\<forall>a. a \<noteq> new \<longrightarrow> h' a = map_option
       ((if a = e then set_next new else id) \<circ> (if a = head_of ys then set_prev new else id)) (h a))"
    unfolding r_list_insert_after_def Let_def sel
    using new null n hd head by (cases ys) (auto simp: r_list_alloc_copy_def option.map_id)
  then obtain h' where h': "r_list_insert_after h new head entry d = Some (head, h')"
    "h' new = Some \<lparr>l_data = d, l_next = head_of ys, l_prev = e\<rparr>"
    "\<forall>a. a \<noteq> new \<longrightarrow> h' a = map_option
       ((if a = e then set_next new else id) \<circ> (if a = head_of ys then set_prev new else id)) (h a)" by blast
  have "list_edit h ((xs @ [e]) @ ys) h' ((xs @ [e]) @ new # ys) (contents h (xs @ [e]) @ d # contents h ys)"
    by (rule list_edit_link) (use l al(1) new h'(2,3) null in simp_all)
  then show ?thesis using h'(1) by simp
qed

lemma insert_before_spec:
  assumes l: "is_list h (xs @ e # ys)" and new: "h new = None" "new \<noteq> NULL" and null: "h NULL = None"
    and xs: "xs \<noteq> []"
  shows "\<exists>h'. r_list_insert_before h new (hd xs) e d = Some (hd xs, h') \<and>
     list_edit h (xs @ e # ys) h' (xs @ new # e # ys) (contents h xs @ d # contents h (e # ys))"
proof -
  let ?ps = "xs @ e # ys"
  note al = is_list_alloc [OF l new(1)]
  obtain n where n: "h e = Some n" "l_prev n = last xs" "e \<noteq> NULL" "e \<noteq> new"
    using l al(1) xs by (auto simp: is_list_def dll_append)
  have dist: "e \<notin> set xs" using is_list_distinct [OF l] by simp
  obtain m where m: "h (last xs) = Some m" "last xs \<noteq> NULL" "last xs \<noteq> new" "last xs \<noteq> e"
    using xs is_list_node [OF l, of "last xs"] al(1) dist last_in_set [OF xs] by fastforce
  have hd: "hd xs \<noteq> NULL" "e \<noteq> hd xs" using is_list_node [OF l, of "hd xs"] xs dist hd_in_set [OF xs] by auto
  obtain h' where h': "r_list_insert_before h new (hd xs) e d = Some (hd xs, h')"
    "h' new = Some \<lparr>l_data = d, l_next = e, l_prev = last xs\<rparr>"
    "\<forall>a. a \<noteq> new \<longrightarrow> h' a = map_option
       ((if a = last xs then set_next new else id) \<circ> (if a = e then set_prev new else id)) (h a)"
    using new n m hd by (auto simp: r_list_insert_before_def r_list_alloc_copy_def option.map_id Let_def)
  have "list_edit h (xs @ e # ys) h' (xs @ new # e # ys) (contents h xs @ d # contents h (e # ys))"
    by (rule list_edit_link) (use l al(1) new h'(2,3) null xs in simp_all)
  then show ?thesis using h'(1) by blast
qed

section \<open>Removals\<close>

lemma list_edit_unlink:
  assumes l: "is_list h (xs @ p # ys)" and null: "h NULL = None"
    and rest: "\<forall>a. a \<noteq> p \<longrightarrow> h' a = map_option
       ((if a = last (NULL # xs) then set_next (head_of ys) else id)
        \<circ> (if a = head_of ys then set_prev (last (NULL # xs)) else id)) (h a)"
  shows "list_edit h (xs @ p # ys) h' (xs @ ys) (contents h (xs @ ys))"
  unfolding list_edit_def
proof (intro conjI allI impI)
  have d: "distinct (xs @ p # ys)" using is_list_distinct [OF l] .
  have nn: "a \<noteq> NULL \<and> h a \<noteq> None \<and> a \<noteq> p" if "a \<in> set (xs @ ys)" for a
    using is_list_node [OF l, of a] d that by auto
  have xs: "\<forall>a \<in> set xs. h' a = map_option (if a = last xs then set_next (head_of ys) else id) (h a)"
  proof
    fix a assume a: "a \<in> set xs"
    then have "a \<noteq> head_of ys" using d nn [of a] by (cases ys) auto
    then show "h' a = map_option (if a = last xs then set_next (head_of ys) else id) (h a)"
      using rest nn [of a] a by auto
  qed
  have ys: "\<forall>a \<in> set ys. h' a = map_option (if a = hd ys then set_prev (last (NULL # xs)) else id) (h a)"
  proof
    fix a assume a: "a \<in> set ys"
    have "a \<noteq> last (NULL # xs)" using d nn [of a] a last_in_set [of xs] by (auto simp: disjoint_iff)
    then show "h' a = map_option (if a = hd ys then set_prev (last (NULL # xs)) else id) (h a)"
      using rest nn [of a] a by (cases ys) auto
  qed
  show "is_list h' (xs @ ys)"
    unfolding is_list_def
    by (rule rl.unlink [where h = h and h' = h' and p = p]) (use l d xs ys in \<open>simp_all add: is_list_def\<close>)
  have "map_option l_data (h' a) = map_option l_data (h a)" if "a \<in> set (xs @ ys)" for a
    using rest nn [OF that] by (simp add: option.map_comp) (auto intro!: option.map_cong)
  then show "contents h' (xs @ ys) = contents h (xs @ ys)"
    using nn by (auto intro!: contents_cong)
  fix a assume a: "a \<notin> set (xs @ p # ys) \<union> set (xs @ ys)"
  have "last (NULL # xs) = NULL \<or> last (NULL # xs) \<in> set xs" "head_of ys = NULL \<or> head_of ys \<in> set ys"
    by (auto simp: hd_append)
  with a null have "a \<noteq> last (NULL # xs) \<and> a \<noteq> head_of ys \<or> h a = None" by auto
  with rest a show "h' a = h a" by (auto simp: option.map_id)
qed

lemma remove_link_spec:
  assumes l: "is_list h (xs @ p # ys)" and null: "h NULL = None"
  shows "\<exists>h'. r_list_remove_link h (head_of (xs @ p # ys)) p = Some (head_of (xs @ ys), h') \<and>
     h' p = h p \<and> list_edit h (xs @ p # ys) h' (xs @ ys) (contents h (xs @ ys))"
proof -
  obtain n where n: "h p = Some n" "l_next n = head_of ys" "l_prev n = last (NULL # xs)" "p \<noteq> NULL"
    using l by (auto simp: is_list_def dll_append)
  have d: "distinct (xs @ p # ys)" using is_list_distinct [OF l] .
  have nd: "\<exists>m. h a = Some m \<and> a \<noteq> NULL \<and> a \<noteq> p" if "a \<in> set (xs @ ys)" for a
    using is_list_node [OF l, of a] d that by auto
  have last: "\<exists>m. h (last xs) = Some m \<and> last xs \<noteq> NULL \<and> last xs \<noteq> p" if "xs \<noteq> []"
    using nd [of "last xs"] that by simp
  have hd: "\<exists>m. h (hd ys) = Some m \<and> hd ys \<noteq> NULL \<and> hd ys \<noteq> p" if "ys \<noteq> []"
    using nd [of "hd ys"] that by simp
  have ne: "last xs \<noteq> hd ys" if "xs \<noteq> []" "ys \<noteq> []"
    using d last_in_set [OF that(1)] hd_in_set [OF that(2)] by auto
  have head: "head_of (xs @ p # ys) = (if xs = [] then p else hd xs)"
    "head_of (xs @ ys) = (if xs = [] then head_of ys else hd xs)" "xs \<noteq> [] \<Longrightarrow> hd xs \<noteq> p"
    using d by (cases xs; auto)+
  have "\<exists>h'. r_list_remove_link h (head_of (xs @ p # ys)) p = Some (head_of (xs @ ys), h') \<and> h' p = h p \<and>
    (\<forall>a. a \<noteq> p \<longrightarrow> h' a = map_option ((if a = last (NULL # xs) then set_next (head_of ys) else id)
        \<circ> (if a = head_of ys then set_prev (last (NULL # xs)) else id)) (h a))"
    unfolding head r_list_remove_link_def Let_def
    using n last hd ne null head(3)
    by (cases "xs = []"; cases ys) (auto simp: option.map_id)
  with list_edit_unlink [OF l null] show ?thesis by blast
qed

lemma destroy_link_spec:
  assumes l: "is_list h (xs @ p # ys)" and null: "h NULL = None"
  shows "\<exists>h'. r_list_destroy_link clear h (head_of (xs @ p # ys)) p
       = Some (head_of (xs @ ys), h', clear (l_data (the (h p)))) \<and>
     h' p = None \<and> list_edit h (xs @ p # ys) h' (xs @ ys) (contents h (xs @ ys))"
proof -
  obtain h1 where h1: "r_list_remove_link h (head_of (xs @ p # ys)) p = Some (head_of (xs @ ys), h1)"
    "h1 p = h p" "list_edit h (xs @ p # ys) h1 (xs @ ys) (contents h (xs @ ys))"
    using remove_link_spec [OF l null] by blast
  obtain n where n: "h p = Some n" "p \<noteq> NULL" using is_list_node [OF l, of p] by auto
  have p: "p \<notin> set (xs @ ys)" using is_list_distinct [OF l] by simp
  have "contents (h1(p := None)) (xs @ ys) = contents h1 (xs @ ys)"
    using p by (auto simp: contents_def)
  then have "list_edit h (xs @ p # ys) (h1(p := None)) (xs @ ys) (contents h (xs @ ys))"
    using h1(3) p by (auto simp: list_edit_def is_list_def)
  moreover have "r_list_destroy_link clear h (head_of (xs @ p # ys)) p
      = Some (head_of (xs @ ys), h1(p := None), clear (l_data (the (h p))))"
    using h1(1,2) n by (simp add: r_list_destroy_link_def r_list_free1_def)
  ultimately show ?thesis by auto
qed

lemma list_remove_spec:
  assumes l: "is_list h ps" and null: "h NULL = None"
  shows "\<exists>h' ps' calls. r_list_remove clear h (head_of ps) d = Some (head_of ps', h', calls) \<and>
     list_edit h ps h' ps' (remove1 d (contents h ps)) \<and>
     calls = (if d \<in> set (contents h ps) then clear d else [])"
proof (cases "d \<in> set (contents h ps)")
  case True
  then have "\<exists>p \<in> set ps. l_data (the (h p)) = d" by (auto simp: contents_def)
  then obtain xs p ys where ps: "ps = xs @ p # ys" and pd: "l_data (the (h p)) = d"
    and xs: "\<forall>q \<in> set xs. \<not> l_data (the (h q)) = d"
    using split_list_first_prop [of ps "\<lambda>p. l_data (the (h p)) = d"] by blast
  have p: "p \<noteq> NULL" using is_list_node [OF l, of p] by (simp add: ps)
  have "dropWhile (\<lambda>p. \<not> l_data (the (h p)) = d) ps = p # ys"
    using xs pd by (simp add: ps dropWhile_append)
  then have f: "r_list_find l_next h (\<lambda>x. x = d) (head_of ps) = Some p"
    using find_next [OF l [unfolded is_list_def], of "\<lambda>x. x = d"] by simp
  obtain h' where h': "r_list_destroy_link clear h (head_of ps) p = Some (head_of (xs @ ys), h', clear d)"
    "list_edit h ps h' (xs @ ys) (contents h (xs @ ys))"
    using destroy_link_spec [OF l [unfolded ps] null, of clear] unfolding pd ps by blast
  have "d \<notin> set (contents h xs)" using xs by (auto simp: contents_def)
  then have "remove1 d (contents h ps) = contents h (xs @ ys)"
    using pd by (simp add: ps remove1_append)
  then show ?thesis using f p h' True by (auto simp: r_list_remove_def intro!: exI [of _ "xs @ ys"])
next
  case False
  then have none: "dropWhile (\<lambda>p. \<not> l_data (the (h p)) = d) ps = []"
    by (auto simp: contents_def dropWhile_eq_Nil_conv)
  have "r_list_find l_next h (\<lambda>x. x = d) (head_of ps) = Some NULL"
    using find_next [OF l [unfolded is_list_def], of "\<lambda>x. x = d"] unfolding none by simp
  then show ?thesis
    using False l by (auto simp: r_list_remove_def list_edit_def remove1_idem intro!: exI [of _ ps])
qed

text \<open>A node destructor that releases the node and makes the calls \<open>f\<close>.\<close>

definition frees_node ::
  "('d lstore \<Rightarrow> rpointer \<Rightarrow> ('d lstore \<times> notify_call list) option)
   \<Rightarrow> (rpointer \<Rightarrow> 'd \<Rightarrow> notify_call list) \<Rightarrow> bool" where
  "frees_node free f \<longleftrightarrow>
     (\<forall>h p n. h p = Some n \<longrightarrow> p \<noteq> NULL \<longrightarrow> free h p = Some (h(p := None), f p (l_data n)))"

lemma destroy_loop_next:
  assumes "dll l_next l_prev h q ps NULL" "distinct ps" and free: "frees_node free f"
  shows "r_list_destroy_loop free l_next h (head_of ps) calls
     = Some (\<lambda>a. if a \<in> set ps then None else h a, calls @ concat (map (\<lambda>p. f p (l_data (the (h p)))) ps))"
  using assms(1,2)
proof (induction ps arbitrary: h q calls)
  case Nil
  then show ?case by (subst r_list_destroy_loop.simps) simp
next
  case (Cons p ps)
  then obtain n where n: "h p = Some n" "l_next n = head_of ps" "p \<noteq> NULL" by auto
  have "dll l_next l_prev (h(p := None)) p ps NULL" "distinct ps" using Cons.prems by auto
  note IH = Cons.IH [OF this, of "calls @ f p (l_data n)"]
  have same: "map (\<lambda>x. f x (l_data (the ((h(p := None)) x)))) ps = map (\<lambda>x. f x (l_data (the (h x)))) ps"
    using Cons.prems(2) by auto
  have gone: "(\<lambda>a. if a \<in> set ps then None else (h(p := None)) a) = (\<lambda>a. if a \<in> set (p # ps) then None else h a)"
    by auto
  show ?case
    using n free [unfolded frees_node_def, rule_format, of h p n] IH [unfolded same gone] by (subst r_list_destroy_loop.simps) (simp add: fun_upd_def)
qed

lemma destroy_with_spec:
  assumes l: "is_list h ps" and null: "h NULL = None"
    and free: "frees_node free f"
  shows "\<exists>calls. r_list_destroy_with free h (head_of ps) = Some (\<lambda>a. if a \<in> set ps then None else h a, calls) \<and>
     calls = concat (map (\<lambda>p. f p (l_data (the (h p)))) (tl ps @ take 1 ps))"
proof (cases ps)
  case Nil
  then show ?thesis by (simp add: r_list_destroy_with_def)
next
  case (Cons p qs)
  obtain n where n: "h p = Some n" "l_next n = head_of qs" "l_prev n = NULL" "p \<noteq> NULL"
    using l by (auto simp: is_list_def Cons)
  have d: "p \<notin> set qs" "distinct qs" using is_list_distinct [OF l] by (simp_all add: Cons)
  have "dll l_next l_prev h p qs NULL" using l by (simp add: is_list_def Cons)
  note loop = destroy_loop_next [OF this d(2) free, of "[]"]
  have prev: "r_list_destroy_loop free l_prev h' NULL [] = Some (h', [])" for h'
    by (subst r_list_destroy_loop.simps) simp
  let ?h' = "\<lambda>a. if a \<in> set qs then None else h a"
  have "?h'(p := None) = (\<lambda>a. if a \<in> set ps then None else h a)" by (auto simp: Cons)
  moreover have "free ?h' p = Some (?h'(p := None), f p (l_data n))" using free [unfolded frees_node_def, rule_format, of ?h' p n] n d by simp
  ultimately have "r_list_destroy_with free h p = Some (\<lambda>a. if a \<in> set ps then None else h a,
      concat (map (\<lambda>p. f p (l_data (the (h p)))) qs) @ f p (l_data n))"
    using n loop prev d by (simp add: r_list_destroy_with_def)
  then show ?thesis using n by (simp add: Cons)
qed

section \<open>Properties of the doubly linked lists\<close>

text \<open>
  C8. Queries on a well-formed list, from any node of it: the first and the last node, the
  length and membership are those of the whole list, whatever node they are asked at, while a
  traversal visits the nodes from the given one to the end, each once and in order; the loops
  end.
\<close>

theorem r_list_queries:
  assumes "is_list h (xs @ p # ys)"
  shows "r_list_first h p = Some (hd (xs @ [p])) \<and> r_list_last h p = Some (last (p # ys)) \<and>
     r_list_len h p = Some (length xs + 1 + length ys) \<and>
     r_list_contains_full h p d = Some (d \<in> set (contents h (xs @ p # ys))) \<and>
     r_list_foreach ref h p = Some (map (\<lambda>p. ref p (l_data (the (h p)))) (p # ys))"
proof -
  have p: "p \<in> set (xs @ p # ys)" by simp
  have "dll l_next l_prev h (last (NULL # xs)) (p # ys) NULL"
    using assms by (simp add: is_list_def dll_append)
  from walk_next [OF this] show ?thesis
    using first_last [OF assms p] len_spec [OF assms p] contains_spec [OF assms p]
    by (simp add: r_list_foreach_def comp_def hd_append)
qed

text \<open>A store with the list of the two nodes 16 and 32.\<close>

definition two_nodes :: "rpointer lstore" where
  "two_nodes = (\<lambda>_. None)(16 \<mapsto> \<lparr>l_data = 1, l_next = 32, l_prev = 0\<rparr>, 32 \<mapsto> \<lparr>l_data = 2, l_next = 0, l_prev = 16\<rparr>)"

lemma two_nodes: "is_list two_nodes [16, 32]" "two_nodes 0 = None"
  "two_nodes 48 = None" "contents two_nodes [16] = [1]" "contents two_nodes [32] = [2]"
  by (simp_all add: is_list_def two_nodes_def)

theorem r_list_queries_witness:
  "r_list_first two_nodes 32 = Some 16 \<and> r_list_len two_nodes 32 = Some 2 \<and>
   r_list_contains_full two_nodes 32 1 = Some True \<and> r_list_foreach (\<lambda>_ d. d) two_nodes 32 = Some [2]"
  using r_list_queries [of two_nodes "[16]" 32 "[]" 1 "\<lambda>_ d. d"] two_nodes(1) by (simp add: two_nodes_def)

text \<open>
  C9. The four insertions put the new node where they say and nowhere else: at the front, at
  the end, after or before a given node; the result is a well-formed list with the data of the
  old one and the new datum in place, and no other node of the store changes.  On the empty list
  each of them makes the list of the new node.
\<close>

theorem r_list_insertions:
  assumes l: "is_list h (xs @ e # ys)" and new: "h new = None" "new \<noteq> NULL" and null: "h NULL = None"
  shows "(\<exists>h'. r_list_prepend_copy h new e d = Some (new, h') \<and>
       list_edit h (xs @ e # ys) h' (new # xs @ e # ys) (d # contents h (xs @ e # ys))) \<and>
     (\<exists>h'. r_list_append_copy h new e d = Some (e, h') \<and>
       list_edit h (xs @ e # ys) h' (xs @ e # ys @ [new]) (contents h (xs @ e # ys) @ [d])) \<and>
     (\<exists>h'. r_list_insert_after h new (hd (xs @ [e])) e d = Some (hd (xs @ [e]), h') \<and>
       list_edit h (xs @ e # ys) h' (xs @ e # new # ys) (contents h (xs @ [e]) @ d # contents h ys)) \<and>
     (\<exists>h'. r_list_insert_before h new (hd (xs @ [e])) e d = Some (if xs = [] then new else hd xs, h') \<and>
       list_edit h (xs @ e # ys) h' (xs @ new # e # ys) (contents h xs @ d # contents h (e # ys))) \<and>
     (\<forall>op \<in> {r_list_prepend_copy h new NULL d, r_list_append_copy h new NULL d,
          r_list_insert_after h new NULL NULL d, r_list_insert_before h new NULL NULL d}.
       \<exists>h'. op = Some (new, h') \<and> list_edit h [] h' [new] [d])"
proof (intro conjI)
  have first: "r_list_first g NULL = Some NULL" for g :: "'a lstore"
    by (simp add: r_list_first_def)
  show "\<forall>op \<in> {r_list_prepend_copy h new NULL d, r_list_append_copy h new NULL d,
          r_list_insert_after h new NULL NULL d, r_list_insert_before h new NULL NULL d}.
       \<exists>h'. op = Some (new, h') \<and> list_edit h [] h' [new] [d]"
    using new null by (auto simp: r_list_prepend_copy_def r_list_append_copy_def r_list_insert_after_def
        r_list_insert_before_def r_list_prepend_link_def r_list_append_link_def r_list_alloc_copy_def first
        list_edit_def is_list_def)
  have e: "e \<in> set (xs @ e # ys)" by simp
  show pre: "\<exists>h'. r_list_prepend_copy h new e d = Some (new, h') \<and>
       list_edit h (xs @ e # ys) h' (new # xs @ e # ys) (d # contents h (xs @ e # ys))"
    using prepend_copy_spec [OF l _ new null, of e d] by simp
  show "\<exists>h'. r_list_append_copy h new e d = Some (e, h') \<and>
       list_edit h (xs @ e # ys) h' (xs @ e # ys @ [new]) (contents h (xs @ e # ys) @ [d])"
    using append_copy_spec [OF l _ new null, of e d] by simp
  have "hd (xs @ [e]) \<noteq> NULL" using is_list_node [OF l, of "hd (xs @ [e])"] by (cases xs) auto
  then show "\<exists>h'. r_list_insert_after h new (hd (xs @ [e])) e d = Some (hd (xs @ [e]), h') \<and>
       list_edit h (xs @ e # ys) h' (xs @ e # new # ys) (contents h (xs @ [e]) @ d # contents h ys)"
    using insert_after_spec [OF l new null, of "hd (xs @ [e])" e d] by simp
  show "\<exists>h'. r_list_insert_before h new (hd (xs @ [e])) e d = Some (if xs = [] then new else hd xs, h') \<and>
       list_edit h (xs @ e # ys) h' (xs @ new # e # ys) (contents h xs @ d # contents h (e # ys))"
  proof (cases "xs = []")
    case True
    then have "r_list_insert_before h new (hd (xs @ [e])) e d = r_list_prepend_copy h new e d"
      by (simp add: r_list_insert_before_def r_list_prepend_copy_def Let_def)
    with True pre show ?thesis by simp
  next
    case False
    with insert_before_spec [OF l new null False, of d] show ?thesis by simp
  qed
qed

theorem r_list_insertions_witness:
  "\<exists>h'. r_list_insert_before two_nodes 48 16 32 9 = Some (16, h') \<and> is_list h' [16, 48, 32] \<and>
     contents h' [16, 48, 32] = [1, 9, 2]"
  using r_list_insertions [of two_nodes "[16]" 32 "[]" 48 9] two_nodes
  by (auto simp: list_edit_def)

text \<open>
  C10. Removing a node unlinks exactly it: the remaining nodes form a well-formed list with
  their data, the freed node is gone from the store, its data goes to the clear hook, and no
  other node changes.  Removing by value drops the first node with that datum.  Destroying a
  list frees every node of it once and nothing else.
\<close>

theorem r_list_removals:
  assumes l: "is_list h (xs @ p # ys)" and null: "h NULL = None"
  shows "(\<exists>h'. r_list_destroy_link clear h (hd (xs @ [p])) p = Some (head_of (xs @ ys), h', clear (l_data (the (h p)))) \<and>
       h' p = None \<and> list_edit h (xs @ p # ys) h' (xs @ ys) (contents h (xs @ ys))) \<and>
     (\<exists>h' ps'. r_list_remove clear h (hd (xs @ [p])) d
         = Some (head_of ps', h', if d \<in> set (contents h (xs @ p # ys)) then clear d else []) \<and>
       list_edit h (xs @ p # ys) h' ps' (remove1 d (contents h (xs @ p # ys)))) \<and>
     (\<exists>h' calls. r_list_destroy clear h (hd (xs @ [p])) = Some (h', calls) \<and>
       (\<forall>a. h' a = (if a \<in> set (xs @ p # ys) then None else h a)) \<and>
       mset calls = mset (concat (map clear (contents h (xs @ p # ys)))))"
proof (intro conjI)
  have hd: "head_of (xs @ p # ys) = hd (xs @ [p])" by (cases xs) auto
  show "\<exists>h'. r_list_destroy_link clear h (hd (xs @ [p])) p = Some (head_of (xs @ ys), h', clear (l_data (the (h p)))) \<and>
       h' p = None \<and> list_edit h (xs @ p # ys) h' (xs @ ys) (contents h (xs @ ys))"
    using destroy_link_spec [OF l null, of clear] unfolding hd .
  show "\<exists>h' ps'. r_list_remove clear h (hd (xs @ [p])) d
         = Some (head_of ps', h', if d \<in> set (contents h (xs @ p # ys)) then clear d else []) \<and>
       list_edit h (xs @ p # ys) h' ps' (remove1 d (contents h (xs @ p # ys)))"
    using list_remove_spec [OF l null, of clear d] unfolding hd by blast
  have "frees_node (r_list_free1 clear) (\<lambda>p d. clear d)"
    by (simp add: frees_node_def r_list_free1_def)
  from destroy_with_spec [OF l null this] have d:
    "r_list_destroy clear h (hd (xs @ [p])) = Some (\<lambda>a. if a \<in> set (xs @ p # ys) then None else h a,
       concat (map (\<lambda>p. clear (l_data (the (h p)))) (tl (xs @ p # ys) @ take 1 (xs @ p # ys))))"
    unfolding hd r_list_destroy_def by simp
  have m: "mset (concat (map (\<lambda>p. clear (l_data (the (h p)))) (tl qs @ take 1 qs)))
      = mset (concat (map clear (contents h qs)))" for qs
    by (cases qs) (simp_all add: contents_def comp_def)
  show "\<exists>h' calls. r_list_destroy clear h (hd (xs @ [p])) = Some (h', calls) \<and>
       (\<forall>a. h' a = (if a \<in> set (xs @ p # ys) then None else h a)) \<and>
       mset calls = mset (concat (map clear (contents h (xs @ p # ys))))"
    by (intro exI conjI, rule d) (simp_all only: m simp_thms)
qed

theorem r_list_removals_witness:
  "\<exists>h'. r_list_destroy_link (\<lambda>d. []) two_nodes 16 16 = Some (32, h', []) \<and> is_list h' [32] \<and> contents h' [32] = [2]"
  using r_list_removals [of two_nodes "[]" 16 "[32]" "\<lambda>d. []" 1] two_nodes
  by (auto simp: list_edit_def)

end
