(* ===== verification/RSList.thy ===== *)
theory RSList
  imports RPrelude
begin

text \<open>
  The singly linked lists of \<^verbatim>\<open>R__SLIST_IMPL\<close> in
  \<^verbatim>\<open>include/rlib/data/rlist-internal.h\<close>, on an explicit store of nodes, with the
  conventions of \<^verbatim>\<open>RList\<close>: \<open>new\<close> is the address an allocation returns, \<open>clear\<close> the clear
  hook of the data and \<open>ref\<close> the way the data is passed to a callback.
\<close>

record 'd RSList =
  sl_data :: 'd
  sl_next :: rpointer

type_synonym 'd slstore = "'d RSList store"

abbreviation set_snext :: "rpointer \<Rightarrow> 'd RSList \<Rightarrow> 'd RSList" where
  "set_snext p n \<equiv> n\<lparr>sl_next := p\<rparr>"

section \<open>Operations\<close>

partial_function (option) r_slist_last_loop :: "'d slstore \<Rightarrow> rpointer \<Rightarrow> rpointer option" where
  "r_slist_last_loop h lst = do {
     n \<leftarrow> deref h lst;
     if sl_next n \<noteq> NULL then r_slist_last_loop h (sl_next n) else Some lst
   }"

definition r_slist_last :: "'d slstore \<Rightarrow> rpointer \<Rightarrow> rpointer option" where
  "r_slist_last h lst = (if lst \<noteq> NULL then r_slist_last_loop h lst else Some lst)"

fun r_slist_nth :: "'d slstore \<Rightarrow> rpointer \<Rightarrow> nat \<Rightarrow> rpointer option" where
  "r_slist_nth h lst 0 = Some lst"
| "r_slist_nth h lst (Suc n) =
     (if lst \<noteq> NULL then do { nd \<leftarrow> deref h lst; r_slist_nth h (sl_next nd) n } else Some lst)"

text \<open>The nodes a loop along the next pointers visits.\<close>

partial_function (option) r_slist_walk :: "'d slstore \<Rightarrow> rpointer \<Rightarrow> (rpointer \<times> 'd) list option" where
  "r_slist_walk h lst =
     (if lst = NULL then Some []
      else do {
        n \<leftarrow> deref h lst;
        rest \<leftarrow> r_slist_walk h (sl_next n);
        Some ((lst, sl_data n) # rest)
      })"

definition r_slist_alloc_copy :: "'d slstore \<Rightarrow> rpointer \<Rightarrow> 'd \<Rightarrow> 'd slstore" where
  "r_slist_alloc_copy h new data = h(new \<mapsto> \<lparr>sl_data = data, sl_next = NULL\<rparr>)"

text \<open>The copy loop; \<open>news\<close> are the addresses of the allocations it makes.\<close>

fun r_slist_copy_loop :: "'d slstore \<Rightarrow> rpointer list \<Rightarrow> rpointer \<Rightarrow> rpointer \<Rightarrow> 'd slstore option" where
  "r_slist_copy_loop h [] lst lastp = (if lst = NULL then Some h else None)"
| "r_slist_copy_loop h (new # news) lst lastp =
     (if lst = NULL then Some h
      else do {
        n \<leftarrow> deref h lst;
        let h = r_slist_alloc_copy h new (sl_data n);
        h \<leftarrow> assign h lastp (set_snext new);
        n \<leftarrow> deref h lst;
        l \<leftarrow> deref h lastp;
        r_slist_copy_loop h news (sl_next n) (sl_next l)
      })"

definition r_slist_copy :: "'d slstore \<Rightarrow> rpointer list \<Rightarrow> rpointer \<Rightarrow> (rpointer \<times> 'd slstore) option" where
  "r_slist_copy h news lst =
     (if lst = NULL then Some (NULL, h)
      else (case news of [] \<Rightarrow> None
            | new # news' \<Rightarrow> do {
                n \<leftarrow> deref h lst;
                let h = r_slist_alloc_copy h new (sl_data n);
                n \<leftarrow> deref h lst;
                h \<leftarrow> r_slist_copy_loop h news' (sl_next n) new;
                Some (new, h)
              }))"

definition r_slist_merge :: "'d slstore \<Rightarrow> rpointer \<Rightarrow> rpointer \<Rightarrow> (rpointer \<times> 'd slstore) option" where
  "r_slist_merge h a b =
     (if a \<noteq> NULL then do {
        last \<leftarrow> r_slist_last h a;
        h \<leftarrow> assign h last (set_snext b);
        Some (a, h)
      }
      else Some (b, h))"

definition r_slist_len :: "'d slstore \<Rightarrow> rpointer \<Rightarrow> nat option" where
  "r_slist_len h lst = map_option length (r_slist_walk h lst)"

partial_function (option) r_slist_contains_full :: "'d slstore \<Rightarrow> rpointer \<Rightarrow> 'd \<Rightarrow> bool option" where
  "r_slist_contains_full h lst data =
     (if lst = NULL then Some False
      else do {
        n \<leftarrow> deref h lst;
        if sl_data n = data then Some True else r_slist_contains_full h (sl_next n) data
      })"

definition r_slist_foreach :: "(rpointer \<Rightarrow> 'd \<Rightarrow> rpointer) \<Rightarrow> 'd slstore \<Rightarrow> rpointer \<Rightarrow> rpointer list option" where
  "r_slist_foreach ref h lst = map_option (map (\<lambda>(p, d). ref p d)) (r_slist_walk h lst)"

definition r_slist_prepend_link :: "'d slstore \<Rightarrow> rpointer \<Rightarrow> rpointer \<Rightarrow> (rpointer \<times> 'd slstore) option" where
  "r_slist_prepend_link h lst entry = do {
     h \<leftarrow> assign h entry (set_snext lst);
     Some (entry, h)
   }"

definition r_slist_append_link :: "'d slstore \<Rightarrow> rpointer \<Rightarrow> rpointer \<Rightarrow> (rpointer \<times> 'd slstore) option" where
  "r_slist_append_link h lst entry =
     (if lst \<noteq> NULL then do {
        last \<leftarrow> r_slist_last h lst;
        h \<leftarrow> assign h last (set_snext entry);
        Some (lst, h)
      }
      else Some (entry, h))"

definition r_slist_prepend_copy :: "'d slstore \<Rightarrow> rpointer \<Rightarrow> rpointer \<Rightarrow> 'd \<Rightarrow> (rpointer \<times> 'd slstore) option" where
  "r_slist_prepend_copy h new lst data = r_slist_prepend_link (r_slist_alloc_copy h new data) lst new"

definition r_slist_append_copy :: "'d slstore \<Rightarrow> rpointer \<Rightarrow> rpointer \<Rightarrow> 'd \<Rightarrow> (rpointer \<times> 'd slstore) option" where
  "r_slist_append_copy h new lst data = r_slist_append_link (r_slist_alloc_copy h new data) lst new"

definition r_slist_insert_after ::
  "'d slstore \<Rightarrow> rpointer \<Rightarrow> rpointer \<Rightarrow> rpointer \<Rightarrow> 'd \<Rightarrow> (rpointer \<times> 'd slstore) option" where
  "r_slist_insert_after h new head entry data = do {
     let h = r_slist_alloc_copy h new data;
     if head = NULL then Some (new, h)
     else do {
       let entry = (if entry = NULL then head else entry);
       e \<leftarrow> deref h entry;
       h \<leftarrow> assign h new (set_snext (sl_next e));
       h \<leftarrow> assign h entry (set_snext new);
       Some (head, h)
     }
   }"

definition r_slist_free1 ::
  "('d \<Rightarrow> notify_call list) \<Rightarrow> 'd slstore \<Rightarrow> rpointer \<Rightarrow> ('d slstore \<times> notify_call list) option" where
  "r_slist_free1 clear h lst = do {
     n \<leftarrow> deref h lst;
     h \<leftarrow> release h lst;
     Some (h, clear (sl_data n))
   }"

definition r_slist_free1_full ::
  "('d \<Rightarrow> notify_call list) \<Rightarrow> (rpointer \<Rightarrow> 'd \<Rightarrow> rpointer) \<Rightarrow> 'd slstore \<Rightarrow> rpointer \<Rightarrow> rpointer
   \<Rightarrow> ('d slstore \<times> notify_call list) option" where
  "r_slist_free1_full clear ref h lst notify =
     (if lst \<noteq> NULL then do {
        n \<leftarrow> deref h lst;
        (h, calls) \<leftarrow> r_slist_free1 clear h lst;
        Some (h, call_notify notify (ref lst (sl_data n)) @ calls)
      }
      else Some (h, []))"

partial_function (option) r_slist_remove_loop ::
  "('d \<Rightarrow> notify_call list) \<Rightarrow> 'd slstore \<Rightarrow> 'd \<Rightarrow> rpointer \<Rightarrow> rpointer \<Rightarrow> rpointer
   \<Rightarrow> (rpointer \<times> 'd slstore \<times> notify_call list) option" where
  "r_slist_remove_loop clear h data ret prev head =
     (if head = NULL then Some (ret, h, [])
      else do {
        n \<leftarrow> deref h head;
        if sl_data n = data then do {
          let ret = (if ret = head then sl_next n else ret);
          h \<leftarrow> (if prev \<noteq> NULL then assign h prev (set_snext (sl_next n)) else Some h);
          (h, calls) \<leftarrow> r_slist_free1 clear h head;
          Some (ret, h, calls)
        }
        else r_slist_remove_loop clear h data ret head (sl_next n)
      })"

definition r_slist_remove ::
  "('d \<Rightarrow> notify_call list) \<Rightarrow> 'd slstore \<Rightarrow> rpointer \<Rightarrow> 'd
   \<Rightarrow> (rpointer \<times> 'd slstore \<times> notify_call list) option" where
  "r_slist_remove clear h head data = r_slist_remove_loop clear h data head NULL head"

partial_function (option) r_slist_remove_link_loop ::
  "'d slstore \<Rightarrow> rpointer \<Rightarrow> rpointer \<Rightarrow> 'd slstore option" where
  "r_slist_remove_link_loop h entry it = do {
     n \<leftarrow> deref h it;
     if sl_next n = NULL then Some h
     else if sl_next n = entry then do {
       e \<leftarrow> deref h entry;
       assign h it (set_snext (sl_next e))
     }
     else r_slist_remove_link_loop h entry (sl_next n)
   }"

definition r_slist_remove_link :: "'d slstore \<Rightarrow> rpointer \<Rightarrow> rpointer \<Rightarrow> (rpointer \<times> 'd slstore) option" where
  "r_slist_remove_link h head entry =
     (if head = NULL \<or> entry = NULL then Some (head, h)
      else if head = entry then do { n \<leftarrow> deref h head; Some (sl_next n, h) }
      else do { h \<leftarrow> r_slist_remove_link_loop h entry head; Some (head, h) })"

text \<open>
  The predicate removal.  The step of the loop reads the node it stands on, also when the
  body has freed it; the caller's head pointer is never written.
\<close>

partial_function (option) r_slist_foreach_remove_loop ::
  "('d \<Rightarrow> notify_call list) \<Rightarrow> ('d \<Rightarrow> bool) \<Rightarrow> 'd slstore \<Rightarrow> rpointer \<Rightarrow> rpointer \<Rightarrow> nat \<Rightarrow> notify_call list
   \<Rightarrow> (nat \<times> 'd slstore \<times> notify_call list) option" where
  "r_slist_foreach_remove_loop clear func h it prev ret calls =
     (if it = NULL then Some (ret, h, calls)
      else do {
        n \<leftarrow> deref h it;
        (h, ret, calls) \<leftarrow>
          (if func (sl_data n) then do {
             h \<leftarrow> (if prev \<noteq> NULL then assign h prev (set_snext (sl_next n)) else Some h);
             (h, new) \<leftarrow> r_slist_free1 clear h it;
             Some (h, ret + 1, calls @ new)
           }
           else Some (h, ret, calls));
        n \<leftarrow> deref h it;
        r_slist_foreach_remove_loop clear func h (sl_next n) it ret calls
      })"

definition r_slist_foreach_remove ::
  "('d \<Rightarrow> notify_call list) \<Rightarrow> ('d \<Rightarrow> bool) \<Rightarrow> 'd slstore \<Rightarrow> rpointer \<Rightarrow> (nat \<times> 'd slstore \<times> notify_call list) option" where
  "r_slist_foreach_remove clear func h head = r_slist_foreach_remove_loop clear func h head NULL 0 []"

definition r_slist_destroy_link ::
  "('d \<Rightarrow> notify_call list) \<Rightarrow> 'd slstore \<Rightarrow> rpointer \<Rightarrow> rpointer
   \<Rightarrow> (rpointer \<times> 'd slstore \<times> notify_call list) option" where
  "r_slist_destroy_link clear h head entry = do {
     (head, h) \<leftarrow> r_slist_remove_link h head entry;
     (h, calls) \<leftarrow> r_slist_free1 clear h entry;
     Some (head, h, calls)
   }"

partial_function (option) r_slist_destroy_loop ::
  "('d slstore \<Rightarrow> rpointer \<Rightarrow> ('d slstore \<times> notify_call list) option) \<Rightarrow> 'd slstore \<Rightarrow> rpointer
   \<Rightarrow> notify_call list \<Rightarrow> ('d slstore \<times> notify_call list) option" where
  "r_slist_destroy_loop free h head calls =
     (if head = NULL then Some (h, calls)
      else do {
        n \<leftarrow> deref h head;
        (h, new) \<leftarrow> free h head;
        r_slist_destroy_loop free h (sl_next n) (calls @ new)
      })"

definition r_slist_destroy ::
  "('d \<Rightarrow> notify_call list) \<Rightarrow> 'd slstore \<Rightarrow> rpointer \<Rightarrow> ('d slstore \<times> notify_call list) option" where
  "r_slist_destroy clear h head = r_slist_destroy_loop (r_slist_free1 clear) h head []"

definition r_slist_destroy_full ::
  "('d \<Rightarrow> notify_call list) \<Rightarrow> (rpointer \<Rightarrow> 'd \<Rightarrow> rpointer) \<Rightarrow> 'd slstore \<Rightarrow> rpointer \<Rightarrow> rpointer
   \<Rightarrow> ('d slstore \<times> notify_call list) option" where
  "r_slist_destroy_full clear ref h head notify =
     r_slist_destroy_loop (\<lambda>h p. r_slist_free1_full clear ref h p notify) h head []"

section \<open>List segments\<close>

primrec sll :: "'d slstore \<Rightarrow> rpointer list \<Rightarrow> rpointer \<Rightarrow> bool" where
  "sll h [] r \<longleftrightarrow> True"
| "sll h (p # ps) r \<longleftrightarrow> p \<noteq> NULL \<and> (\<exists>n. h p = Some n \<and> sl_next n = hd (ps @ [r])) \<and> sll h ps r"

definition sl_contents :: "'d slstore \<Rightarrow> rpointer list \<Rightarrow> 'd list" where
  "sl_contents h ps = map (\<lambda>p. sl_data (the (h p))) ps"

lemma sll_append: "sll h (xs @ ys) r \<longleftrightarrow> sll h xs (hd (ys @ [r])) \<and> sll h ys r"
  by (induction xs) (auto simp: hd_append)

lemma sll_frame [simp]: "p \<notin> set ps \<Longrightarrow> sll (h(p := x)) ps r = sll h ps r"
  by (induction ps) auto

lemma sll_node: "sll h ps r \<Longrightarrow> p \<in> set ps \<Longrightarrow> p \<noteq> NULL \<and> (\<exists>n. h p = Some n)"
  by (induction ps) auto

lemma sll_determ: "sll h ps NULL \<Longrightarrow> sll h qs NULL \<Longrightarrow> head_of ps = head_of qs \<Longrightarrow> ps = qs"
proof (induction ps arbitrary: qs)
  case Nil
  then show ?case by (cases qs) auto
next
  case (Cons p ps)
  show ?case
  proof (cases qs)
    case Nil
    with Cons.prems(1,3) show ?thesis by simp
  next
    case (Cons q qs')
    from Cons Cons.prems(3) have "q = p" by simp
    then have "head_of ps = head_of qs'" "sll h qs' NULL" using Cons.prems(1,2) Cons by auto
    with Cons.IH [of qs'] Cons.prems(1) Cons \<open>q = p\<close> show ?thesis by simp
  qed
qed

lemma sll_distinct: "sll h ps NULL \<Longrightarrow> distinct ps"
proof (induction ps)
  case (Cons p ps)
  have "p \<notin> set ps"
  proof
    assume "p \<in> set ps"
    then obtain xs ys where ps: "ps = xs @ p # ys" by (auto simp: in_set_conv_decomp)
    have "p # ys = p # ps" by (rule sll_determ) (use Cons.prems ps in \<open>auto simp: sll_append\<close>)
    then show False using arg_cong [of _ _ length] by (simp add: ps)
  qed
  with Cons show ?case by auto
qed simp

lemma sll_retarget:
  assumes "sll h (xs @ [p]) r" "distinct (xs @ [p])" "h p = Some n"
  shows "sll (h(p \<mapsto> set_snext r' n)) (xs @ [p]) r'"
  using assms by (auto simp: sll_append)

lemma slast_loop: "sll h (p # ps) NULL \<Longrightarrow> r_slist_last_loop h p = Some (last (p # ps))"
proof (induction ps arbitrary: p)
  case Nil
  then show ?case by (subst r_slist_last_loop.simps) auto
next
  case (Cons p' ps)
  then obtain n where n: "h p = Some n" "sl_next n = p'" "p' \<noteq> NULL" "p \<noteq> NULL" by auto
  from Cons have "r_slist_last_loop h p' = Some (last (p' # ps))" by auto
  with n show ?case by (subst r_slist_last_loop.simps) simp
qed

lemma swalk: "sll h ps NULL \<Longrightarrow> r_slist_walk h (head_of ps) = Some (map (\<lambda>p. (p, sl_data (the (h p)))) ps)"
proof (induction ps)
  case Nil
  then show ?case by (subst r_slist_walk.simps) simp
next
  case (Cons p ps)
  then obtain n where "h p = Some n" "sl_next n = head_of ps" "p \<noteq> NULL" by auto
  with Cons show ?case by (subst r_slist_walk.simps) auto
qed

section \<open>Properties\<close>

text \<open>
  C11. Every removal of the predicate removal is a use after free: as soon as the callback
  selects an element of a well-formed list the loop reads the node it has just freed to find
  the next one.  Only a call that selects nothing returns.
\<close>

theorem r_slist_foreach_remove_use_after_free:
  assumes "sll h ps NULL" and "\<exists>d \<in> set (sl_contents h ps). func d"
  shows "r_slist_foreach_remove clear func h (head_of ps) = None"
proof -
  have "r_slist_foreach_remove_loop clear func h (head_of ps) prev ret calls = None"
    if "sll h ps NULL" "\<exists>d \<in> set (sl_contents h ps). func d" "prev \<notin> set ps"
      "prev \<noteq> NULL \<longrightarrow> h prev \<noteq> None" "distinct ps" for prev ret calls
    using that
  proof (induction ps arbitrary: prev ret calls)
    case Nil
    then show ?case by (simp add: sl_contents_def)
  next
    case (Cons p ps)
    then obtain n where n: "h p = Some n" "sl_next n = head_of ps" "p \<noteq> NULL" by auto
    show ?case
    proof (cases "func (sl_data n)")
      case True
      with n Cons.prems show ?thesis
        by (subst r_slist_foreach_remove_loop.simps)
          (auto simp: r_slist_free1_def deref_def split: bind_splits)
    next
      case False
      then have "r_slist_foreach_remove_loop clear func h (head_of ps) p ret calls = None"
        using Cons n by (auto simp: sl_contents_def)
      with False n show ?thesis by (subst r_slist_foreach_remove_loop.simps) simp
    qed
  qed
  from this [OF assms] sll_node [OF assms(1)] sll_distinct [OF assms(1)] show ?thesis
    by (auto simp: r_slist_foreach_remove_def)
qed

theorem r_slist_foreach_remove_use_after_free_witness:
  "r_slist_foreach_remove (\<lambda>d. []) (\<lambda>d. d = 2)
     ((\<lambda>_. None)(16 \<mapsto> \<lparr>sl_data = 1, sl_next = 32\<rparr>, 32 \<mapsto> \<lparr>sl_data = (2 :: nat), sl_next = 0\<rparr>)) 16 = None"
  using r_slist_foreach_remove_use_after_free [of "(\<lambda>_. None)(16 \<mapsto> \<lparr>sl_data = 1, sl_next = 32\<rparr>,
      32 \<mapsto> \<lparr>sl_data = (2 :: nat), sl_next = 0\<rparr>)" "[16, 32]" "\<lambda>d. d = 2" "\<lambda>d. []"]
  by (simp add: sl_contents_def)

text \<open>What an edit of a singly linked list establishes; see \<^verbatim>\<open>RList\<close>.\<close>

definition slist_edit ::
  "'d slstore \<Rightarrow> rpointer list \<Rightarrow> 'd slstore \<Rightarrow> rpointer list \<Rightarrow> 'd list \<Rightarrow> bool" where
  "slist_edit h ps h' ps' ds \<longleftrightarrow>
     sll h' ps' NULL \<and> sl_contents h' ps' = ds \<and> (\<forall>a. a \<notin> set ps \<union> set ps' \<longrightarrow> h' a = h a)"

lemma sl_contents_simps [simp]:
  "sl_contents h [] = []" "sl_contents h (p # ps) = sl_data (the (h p)) # sl_contents h ps"
  "sl_contents h (ps @ qs) = sl_contents h ps @ sl_contents h qs"
  by (simp_all add: sl_contents_def)

lemma sl_contents_upd [simp]: "p \<notin> set ps \<Longrightarrow> sl_contents (h(p := x)) ps = sl_contents h ps"
  by (auto simp: sl_contents_def)

lemma sl_contents_snext [simp]: "h p = Some n \<Longrightarrow> sl_contents (h(p \<mapsto> set_snext q n)) ps = sl_contents h ps"
  by (auto simp: sl_contents_def)

lemma sll_fresh: "sll h ps NULL \<Longrightarrow> h new = None \<Longrightarrow> new \<notin> set ps"
  using sll_node by fastforce

lemma sappend_spec:
  assumes l: "sll h ps NULL" and new: "h new = None" "new \<noteq> NULL"
  shows "\<exists>h'. r_slist_append_copy h new (head_of ps) d = Some (head_of (ps @ [new]), h') \<and>
     slist_edit h ps h' (ps @ [new]) (sl_contents h ps @ [d])"
proof (cases ps rule: rev_cases)
  case Nil
  then show ?thesis
    using new by (auto simp: r_slist_append_copy_def r_slist_append_link_def r_slist_alloc_copy_def slist_edit_def)
next
  case (snoc qs p)
  let ?h = "r_slist_alloc_copy h new d"
  have nin: "new \<notin> set ps" using sll_fresh [OF l new(1)] .
  obtain n where n: "h p = Some n" "p \<noteq> NULL" "p \<noteq> new" using sll_node [OF l, of p] nin snoc by auto
  have l': "sll ?h ps NULL" using l nin by (simp add: r_slist_alloc_copy_def)
  have hd: "head_of ps \<noteq> NULL" "head_of (ps @ [new]) = head_of ps"
    using sll_node [OF l hd_in_set] snoc by (auto simp: hd_append)
  then have "r_slist_last ?h (head_of ps) = Some p"
    using slast_loop [of ?h "hd ps" "tl ps"] l' snoc
    by (cases qs) (auto simp: r_slist_last_def)
  with hd n have run: "r_slist_append_copy h new (head_of ps) d
      = Some (head_of (ps @ [new]), ?h(p \<mapsto> set_snext new n))"
    by (simp add: r_slist_append_copy_def r_slist_append_link_def r_slist_alloc_copy_def)
  have d: "distinct ps" using sll_distinct [OF l] .
  have "sll (?h(p \<mapsto> set_snext new n)) (qs @ [p]) new"
    by (rule sll_retarget) (use l' d n snoc in \<open>auto simp: r_slist_alloc_copy_def\<close>)
  then have "slist_edit h ps (?h(p \<mapsto> set_snext new n)) (ps @ [new]) (sl_contents h ps @ [d])"
    using n nin new(2) d snoc by (auto simp: slist_edit_def sll_append r_slist_alloc_copy_def)
  with run show ?thesis by blast
qed

lemma sprepend_spec:
  assumes l: "sll h ps NULL" and new: "h new = None" "new \<noteq> NULL"
  shows "\<exists>h'. r_slist_prepend_copy h new (head_of ps) d = Some (new, h') \<and>
     slist_edit h ps h' (new # ps) (d # sl_contents h ps)"
  using sll_fresh [OF l new(1)] l new
  by (auto simp: r_slist_prepend_copy_def r_slist_prepend_link_def r_slist_alloc_copy_def slist_edit_def)

lemma sunlink:
  assumes l: "sll h (xs @ p # ys) NULL"
  defines "h' \<equiv> (if xs = [] then h else h(last xs \<mapsto> set_snext (head_of ys) (the (h (last xs)))))"
  shows "sll h' (xs @ ys) NULL" and "sl_contents h' ps = sl_contents h ps" and "h' p = h p"
    and "a \<notin> set (xs @ p # ys) \<Longrightarrow> h' a = h a"
proof -
  have d: "distinct (xs @ p # ys)" using sll_distinct [OF l] .
  have n: "\<exists>n. h (last xs) = Some n" if "xs \<noteq> []" using sll_node [OF l, of "last xs"] that by auto
  show "sll h' (xs @ ys) NULL"
  proof (cases xs rule: rev_cases)
    case Nil
    then show ?thesis using l by (simp add: h'_def)
  next
    case (snoc us u)
    then obtain n where n: "h u = Some n" using n by auto
    have "sll (h(u \<mapsto> set_snext (head_of ys) n)) (us @ [u]) (head_of ys)"
      by (rule sll_retarget) (use l d n snoc in \<open>auto simp: sll_append\<close>)
    then show ?thesis using l d n snoc by (auto simp: h'_def sll_append)
  qed
  show "sl_contents h' ps = sl_contents h ps" using n by (cases "xs = []") (auto simp: h'_def)
  show "h' p = h p" using d by (auto simp: h'_def)
  show "h' a = h a" if "a \<notin> set (xs @ p # ys)" using that by (auto simp: h'_def)
qed

lemma sremove_loop:
  assumes "sll h (xs @ us @ p # ys) NULL" "\<forall>q \<in> set us. sl_data (the (h q)) \<noteq> d" "sl_data (the (h p)) = d"
    "head = head_of (xs @ us @ p # ys)"
  shows "r_slist_remove_loop clear h d head (last (NULL # xs)) (hd (us @ [p]))
    = Some (head_of (xs @ us @ ys),
        ((if xs @ us = [] then h else h(last (xs @ us) \<mapsto> set_snext (head_of ys) (the (h (last (xs @ us))))))(p := None)),
        clear d)"
  using assms
proof (induction us arbitrary: xs)
  case Nil
  then obtain n where n: "h p = Some n" "sl_next n = head_of ys" "p \<noteq> NULL" "sl_data n = d"
    by (auto simp: sll_append)
  have d: "distinct (xs @ p # ys)" using sll_distinct [OF Nil.prems(1)] by simp
  show ?case
  proof (cases "xs = []")
    case True
    then show ?thesis using n Nil.prems(4)
      by (subst r_slist_remove_loop.simps) (simp add: r_slist_free1_def Let_def)
  next
    case False
    have "p \<notin> set xs" using d by simp
    then have "last xs \<noteq> p" "hd xs \<noteq> p" using last_in_set [OF False] hd_in_set [OF False] by metis+
    moreover obtain m where "h (last xs) = Some m" "last xs \<noteq> NULL"
      using sll_node [OF Nil.prems(1), of "last xs"] last_in_set [OF False] by auto
    ultimately show ?thesis using False n Nil.prems(4)
      by (subst r_slist_remove_loop.simps) (simp add: r_slist_free1_def Let_def hd_append)
  qed
next
  case (Cons u us)
  obtain n where n: "h u = Some n" "sl_next n = hd (us @ [p])" "u \<noteq> NULL" "sl_data n \<noteq> d"
    using Cons.prems(1,2) by (auto simp: sll_append hd_append)
  have "r_slist_remove_loop clear h d head u (hd (us @ [p]))
      = Some (head_of ((xs @ [u]) @ us @ ys),
        ((if (xs @ [u]) @ us = [] then h else h(last ((xs @ [u]) @ us) \<mapsto>
            set_snext (head_of ys) (the (h (last ((xs @ [u]) @ us))))))(p := None)), clear d)"
    using Cons.IH [of "xs @ [u]"] Cons.prems by (simp add: fun_upd_def)
  with n show ?case by (subst r_slist_remove_loop.simps) simp
qed

lemma sremove_absent:
  "sll h ps NULL \<Longrightarrow> d \<notin> set (sl_contents h ps) \<Longrightarrow> r_slist_remove_loop clear h d ret prev (head_of ps) = Some (ret, h, [])"
proof (induction ps arbitrary: prev)
  case Nil
  then show ?case by (subst r_slist_remove_loop.simps) simp
next
  case (Cons p ps)
  then obtain n where "h p = Some n" "sl_next n = head_of ps" "p \<noteq> NULL" "sl_data n \<noteq> d" by (auto simp: sl_contents_def)
  with Cons show ?case by (subst r_slist_remove_loop.simps) (simp add: sl_contents_def)
qed

text \<open>
  C12. Editing a singly linked list, the empty one included: prepending and appending put the new
  node at the end they name, removing by value drops the first node that holds the value and
  frees it; the rest of the list keeps its order and data, and no other node of the store
  changes.  Removing a value that no node holds changes nothing.
\<close>

theorem r_slist_edits:
  assumes l: "sll h ps NULL" and new: "h new = None" "new \<noteq> NULL"
  shows "(\<exists>h'. r_slist_prepend_copy h new (head_of ps) e = Some (new, h') \<and>
       slist_edit h ps h' (new # ps) (e # sl_contents h ps)) \<and>
     (\<exists>h'. r_slist_append_copy h new (head_of ps) e = Some (head_of (ps @ [new]), h') \<and>
       slist_edit h ps h' (ps @ [new]) (sl_contents h ps @ [e])) \<and>
     (if d \<in> set (sl_contents h ps) then
        \<exists>h' ps' p. r_slist_remove clear h (head_of ps) d = Some (head_of ps', h', clear d) \<and>
          p \<in> set ps \<and> h' p = None \<and> ps' = remove1 p ps \<and>
          slist_edit h ps h' ps' (remove1 d (sl_contents h ps))
      else r_slist_remove clear h (head_of ps) d = Some (head_of ps, h, []))"
proof (intro conjI)
  show "\<exists>h'. r_slist_prepend_copy h new (head_of ps) e = Some (new, h') \<and>
       slist_edit h ps h' (new # ps) (e # sl_contents h ps)" by (rule sprepend_spec [OF l new])
  show "\<exists>h'. r_slist_append_copy h new (head_of ps) e = Some (head_of (ps @ [new]), h') \<and>
       slist_edit h ps h' (ps @ [new]) (sl_contents h ps @ [e])" by (rule sappend_spec [OF l new])
  show "if d \<in> set (sl_contents h ps) then
        \<exists>h' ps' p. r_slist_remove clear h (head_of ps) d = Some (head_of ps', h', clear d) \<and>
          p \<in> set ps \<and> h' p = None \<and> ps' = remove1 p ps \<and>
          slist_edit h ps h' ps' (remove1 d (sl_contents h ps))
      else r_slist_remove clear h (head_of ps) d = Some (head_of ps, h, [])"
  proof (cases "d \<in> set (sl_contents h ps)")
    case False
    then show ?thesis using sremove_absent [OF l False] by (simp add: r_slist_remove_def)
  next
    case d: True
    then have "\<exists>p \<in> set ps. sl_data (the (h p)) = d" by (auto simp: sl_contents_def)
    then obtain xs p ys where ps: "ps = xs @ p # ys" and p: "sl_data (the (h p)) = d"
      and xs: "\<forall>q \<in> set xs. sl_data (the (h q)) \<noteq> d"
      using split_list_first_prop [of ps "\<lambda>p. sl_data (the (h p)) = d"] by blast
    let ?h1 = "if xs = [] then h else h(last xs \<mapsto> set_snext (head_of ys) (the (h (last xs))))"
    have dist: "distinct (xs @ p # ys)" using sll_distinct [OF l] by (simp add: ps)
    note un = sunlink [OF l [unfolded ps]]
    have "r_slist_remove clear h (head_of ps) d = Some (head_of (xs @ ys), ?h1(p := None), clear d)"
      using sremove_loop [of h "[]" xs p ys d "head_of ps" clear] l xs p
      by (cases xs) (simp_all add: ps r_slist_remove_def)
    moreover have "remove1 d (sl_contents h ps) = sl_contents h (xs @ ys)"
      using xs p by (auto simp: ps remove1_append sl_contents_def)
    moreover have "slist_edit h ps (?h1(p := None)) (xs @ ys) (sl_contents h (xs @ ys))"
      using un(1,4) un(2) [of "xs @ ys"] dist by (auto simp: slist_edit_def ps)
    moreover have "remove1 p ps = xs @ ys" using dist by (simp add: ps remove1_append)
    ultimately have "\<exists>h' ps' p. r_slist_remove clear h (head_of ps) d = Some (head_of ps', h', clear d) \<and>
         p \<in> set ps \<and> h' p = None \<and> ps' = remove1 p ps \<and>
         slist_edit h ps h' ps' (remove1 d (sl_contents h ps))"
      by (intro exI [of _ "?h1(p := None)"] exI [of _ "xs @ ys"] exI [of _ p]) (simp add: ps)
    then show ?thesis using d by simp
  qed
qed

theorem r_slist_edits_witness:
  "\<exists>h' ps'. r_slist_remove (\<lambda>d. [])
       ((\<lambda>_. None)(16 \<mapsto> \<lparr>sl_data = 1, sl_next = 32\<rparr>, 32 \<mapsto> \<lparr>sl_data = (2 :: nat), sl_next = 0\<rparr>)) 16 1
     = Some (hd (ps' @ [0]), h', []) \<and> sll h' ps' 0 \<and> sl_contents h' ps' = [2]"
  using r_slist_edits [of "(\<lambda>_. None)(16 \<mapsto> \<lparr>sl_data = 1, sl_next = 32\<rparr>,
      32 \<mapsto> \<lparr>sl_data = (2 :: nat), sl_next = 0\<rparr>)" "[16, 32]" 48 5 1 "\<lambda>d. []"]
  by (auto simp: slist_edit_def)

end
