(* ===== verification/RCBList.thy ===== *)
theory RCBList
  imports RList RSList
begin

text \<open>
  \<^verbatim>\<open>include/rlib/data/rcbctx.h\<close> and the callback lists of \<^verbatim>\<open>rlib/data/rlist.c\<close>: lists
  whose data is a function with its two arguments and their destroy notifiers.  Invoking a
  callback is recorded as a triple of the function and its arguments; what a callback with a
  result returns is the parameter \<open>result\<close>.
\<close>

section \<open>Callback contexts\<close>

record RFuncCallbackCtx =
  ctx_cb :: rpointer
  ctx_data :: rpointer
  ctx_datanotify :: rpointer
  ctx_user :: rpointer
  ctx_usernotify :: rpointer

type_synonym cb_call = "rpointer \<times> rpointer \<times> rpointer"

definition r_func_callback_ctx_init ::
  "rpointer \<Rightarrow> rpointer \<Rightarrow> rpointer \<Rightarrow> rpointer \<Rightarrow> rpointer \<Rightarrow> RFuncCallbackCtx" where
  "r_func_callback_ctx_init cb data datanotify user usernotify =
     \<lparr>ctx_cb = cb, ctx_data = data, ctx_datanotify = datanotify, ctx_user = user, ctx_usernotify = usernotify\<rparr>"

definition r_func_callback_ctx_clear :: "RFuncCallbackCtx \<Rightarrow> notify_call list" where
  "r_func_callback_ctx_clear ctx =
     call_notify (ctx_datanotify ctx) (ctx_data ctx) @ call_notify (ctx_usernotify ctx) (ctx_user ctx)"

text \<open>Calling a null function does not return.\<close>

definition r_func_callback_ctx_call :: "RFuncCallbackCtx \<Rightarrow> cb_call option" where
  "r_func_callback_ctx_call ctx =
     (if ctx_cb ctx = NULL then None else Some (ctx_cb ctx, ctx_data ctx, ctx_user ctx))"

section \<open>Callback lists\<close>

type_synonym cbstore = "RFuncCallbackCtx lstore"

definition r_cblist_alloc_full :: "cbstore \<Rightarrow> rpointer \<Rightarrow> RFuncCallbackCtx \<Rightarrow> cbstore" where
  "r_cblist_alloc_full h new ctx = h(new \<mapsto> \<lparr>l_data = ctx, l_next = NULL, l_prev = NULL\<rparr>)"

definition r_cblist_prepend_full :: "cbstore \<Rightarrow> rpointer \<Rightarrow> rpointer \<Rightarrow> RFuncCallbackCtx \<Rightarrow> (rpointer \<times> cbstore) option" where
  "r_cblist_prepend_full h new entry ctx = do {
     let h = r_cblist_alloc_full h new ctx;
     h \<leftarrow> assign h new (set_next entry);
     h \<leftarrow> (if entry \<noteq> NULL then assign h entry (set_prev new) else Some h);
     Some (new, h)
   }"

definition r_cblist_append_full :: "cbstore \<Rightarrow> rpointer \<Rightarrow> rpointer \<Rightarrow> RFuncCallbackCtx \<Rightarrow> (rpointer \<times> cbstore) option" where
  "r_cblist_append_full h new entry ctx = do {
     let h = r_cblist_alloc_full h new ctx;
     if entry \<noteq> NULL then do {
       last \<leftarrow> r_list_last_loop h entry;
       h \<leftarrow> assign h last (set_next new);
       h \<leftarrow> assign h new (set_prev last);
       Some (entry, h)
     }
     else Some (new, h)
   }"

definition r_cblist_contains :: "cbstore \<Rightarrow> rpointer \<Rightarrow> rpointer \<Rightarrow> rpointer \<Rightarrow> bool option" where
  "r_cblist_contains h head cb data =
     (if head \<noteq> NULL then do {
        p \<leftarrow> r_list_find l_next h (\<lambda>c. ctx_cb c = cb \<and> ctx_data c = data) head;
        if p \<noteq> NULL then Some True
        else do {
          n \<leftarrow> deref h head;
          p \<leftarrow> r_list_find l_prev h (\<lambda>c. ctx_cb c = cb \<and> ctx_data c = data) (l_prev n);
          Some (p \<noteq> NULL)
        }
      }
      else Some False)"

partial_function (option) r_cblist_call_loop :: "cbstore \<Rightarrow> rpointer \<Rightarrow> nat \<Rightarrow> cb_call list \<Rightarrow> (nat \<times> cb_call list) option" where
  "r_cblist_call_loop h head ret calls =
     (if head = NULL then Some (ret, calls)
      else do {
        n \<leftarrow> deref h head;
        if ctx_cb (l_data n) \<noteq> NULL then do {
          c \<leftarrow> r_func_callback_ctx_call (l_data n);
          r_cblist_call_loop h (l_next n) (ret + 1) (calls @ [c])
        }
        else r_cblist_call_loop h (l_next n) ret calls
      })"

definition r_cblist_call :: "cbstore \<Rightarrow> rpointer \<Rightarrow> (nat \<times> cb_call list) option" where
  "r_cblist_call h head = r_cblist_call_loop h head 0 []"

section \<open>Callback lists with a result\<close>

definition r_cbrlist_alloc_full :: "cbstore \<Rightarrow> rpointer \<Rightarrow> RFuncCallbackCtx \<Rightarrow> cbstore" where
  "r_cbrlist_alloc_full h new ctx = h(new \<mapsto> \<lparr>l_data = ctx, l_next = NULL, l_prev = NULL\<rparr>)"

definition r_cbrlist_prepend_full :: "cbstore \<Rightarrow> rpointer \<Rightarrow> rpointer \<Rightarrow> RFuncCallbackCtx \<Rightarrow> (rpointer \<times> cbstore) option" where
  "r_cbrlist_prepend_full h new head ctx = do {
     let h = r_cbrlist_alloc_full h new ctx;
     h \<leftarrow> assign h new (set_next head);
     h \<leftarrow> (if head \<noteq> NULL then assign h head (set_prev new) else Some h);
     Some (new, h)
   }"

definition r_cbrlist_append_full :: "cbstore \<Rightarrow> rpointer \<Rightarrow> rpointer \<Rightarrow> RFuncCallbackCtx \<Rightarrow> (rpointer \<times> cbstore) option" where
  "r_cbrlist_append_full h new entry ctx = do {
     let h = r_cbrlist_alloc_full h new ctx;
     if entry \<noteq> NULL then do {
       last \<leftarrow> r_list_last_loop h entry;
       h \<leftarrow> assign h last (set_next new);
       h \<leftarrow> assign h new (set_prev last);
       Some (entry, h)
     }
     else Some (new, h)
   }"

definition r_cbrlist_contains :: "cbstore \<Rightarrow> rpointer \<Rightarrow> rpointer \<Rightarrow> rpointer \<Rightarrow> bool option" where
  "r_cbrlist_contains h lst cb data =
     (if lst \<noteq> NULL then do {
        p \<leftarrow> r_list_find l_next h (\<lambda>c. ctx_cb c = cb \<and> ctx_data c = data) lst;
        if p \<noteq> NULL then Some True
        else do {
          n \<leftarrow> deref h lst;
          p \<leftarrow> r_list_find l_prev h (\<lambda>c. ctx_cb c = cb \<and> ctx_data c = data) (l_prev n);
          Some (p \<noteq> NULL)
        }
      }
      else Some False)"

text \<open>The calls made so far and the destroy notifications so far are threaded through the loop.\<close>

partial_function (option) r_cbrlist_call_loop ::
  "(cb_call \<Rightarrow> bool) \<Rightarrow> cbstore \<Rightarrow> rpointer \<Rightarrow> rpointer \<Rightarrow> cb_call list \<Rightarrow> notify_call list
   \<Rightarrow> (rpointer \<times> cbstore \<times> cb_call list \<times> notify_call list) option" where
  "r_cbrlist_call_loop result h head it calls freed =
     (if it = NULL then Some (head, h, calls, freed)
      else do {
        n \<leftarrow> deref h it;
        let next = l_next n;
        (keep, calls) \<leftarrow>
          (if ctx_cb (l_data n) = NULL then Some (False, calls)
           else do {
             c \<leftarrow> r_func_callback_ctx_call (l_data n);
             Some (result c, calls @ [c])
           });
        if \<not> keep then do {
          let head = (if head = it then l_next n else head);
          h \<leftarrow> (if l_prev n \<noteq> NULL then assign h (l_prev n) (set_next (l_next n)) else Some h);
          n \<leftarrow> deref h it;
          h \<leftarrow> (if l_next n \<noteq> NULL then assign h (l_next n) (set_prev (l_prev n)) else Some h);
          (h, new) \<leftarrow> r_list_free1 r_func_callback_ctx_clear h it;
          r_cbrlist_call_loop result h head next calls (freed @ new)
        }
        else r_cbrlist_call_loop result h head next calls freed
      })"

definition r_cbrlist_call ::
  "(cb_call \<Rightarrow> bool) \<Rightarrow> cbstore \<Rightarrow> rpointer
   \<Rightarrow> (rpointer \<times> cbstore \<times> cb_call list \<times> notify_call list) option" where
  "r_cbrlist_call result h head = r_cbrlist_call_loop result h head head [] []"

section \<open>Singly linked callback lists\<close>

type_synonym cbsstore = "RFuncCallbackCtx slstore"

definition r_cbslist_alloc_full :: "cbsstore \<Rightarrow> rpointer \<Rightarrow> RFuncCallbackCtx \<Rightarrow> cbsstore" where
  "r_cbslist_alloc_full h new ctx = h(new \<mapsto> \<lparr>sl_data = ctx, sl_next = NULL\<rparr>)"

definition r_cbslist_prepend_full :: "cbsstore \<Rightarrow> rpointer \<Rightarrow> rpointer \<Rightarrow> RFuncCallbackCtx \<Rightarrow> (rpointer \<times> cbsstore) option" where
  "r_cbslist_prepend_full h new head ctx = r_slist_prepend_link (r_cbslist_alloc_full h new ctx) head new"

definition r_cbslist_append_full :: "cbsstore \<Rightarrow> rpointer \<Rightarrow> rpointer \<Rightarrow> RFuncCallbackCtx \<Rightarrow> (rpointer \<times> cbsstore) option" where
  "r_cbslist_append_full h new entry ctx = r_slist_append_link (r_cbslist_alloc_full h new ctx) entry new"

partial_function (option) r_cbslist_contains :: "cbsstore \<Rightarrow> rpointer \<Rightarrow> rpointer \<Rightarrow> rpointer \<Rightarrow> bool option" where
  "r_cbslist_contains h it cb data =
     (if it = NULL then Some False
      else do {
        n \<leftarrow> deref h it;
        if ctx_cb (sl_data n) = cb \<and> ctx_data (sl_data n) = data then Some True
        else r_cbslist_contains h (sl_next n) cb data
      })"

partial_function (option) r_cbslist_call_loop :: "cbsstore \<Rightarrow> rpointer \<Rightarrow> nat \<Rightarrow> cb_call list \<Rightarrow> (nat \<times> cb_call list) option" where
  "r_cbslist_call_loop h head ret calls =
     (if head = NULL then Some (ret, calls)
      else do {
        n \<leftarrow> deref h head;
        if ctx_cb (sl_data n) \<noteq> NULL then do {
          c \<leftarrow> r_func_callback_ctx_call (sl_data n);
          r_cbslist_call_loop h (sl_next n) (ret + 1) (calls @ [c])
        }
        else r_cbslist_call_loop h (sl_next n) ret calls
      })"

definition r_cbslist_call :: "cbsstore \<Rightarrow> rpointer \<Rightarrow> (nat \<times> cb_call list) option" where
  "r_cbslist_call h head = r_cbslist_call_loop h head 0 []"

section \<open>What the calls do\<close>

text \<open>The invocation of a context, and the contexts whose function is not null.\<close>

definition ctx_invoke :: "RFuncCallbackCtx \<Rightarrow> cb_call" where
  "ctx_invoke c = (ctx_cb c, ctx_data c, ctx_user c)"

abbreviation ctx_live :: "RFuncCallbackCtx \<Rightarrow> bool" where
  "ctx_live c \<equiv> ctx_cb c \<noteq> NULL"

lemma r_func_callback_ctx_call_live: "ctx_live c \<Longrightarrow> r_func_callback_ctx_call c = Some (ctx_invoke c)"
  by (simp add: r_func_callback_ctx_call_def ctx_invoke_def)

lemma cblist_call_loop:
  "dll l_next l_prev h q ps NULL \<Longrightarrow>
   r_cblist_call_loop h (head_of ps) ret calls
     = Some (ret + length (filter ctx_live (contents h ps)), calls @ map ctx_invoke (filter ctx_live (contents h ps)))"
proof (induction ps arbitrary: q ret calls)
  case Nil
  then show ?case by (subst r_cblist_call_loop.simps) simp
next
  case (Cons p ps)
  then obtain n where "h p = Some n" "l_next n = head_of ps" "p \<noteq> NULL" by auto
  moreover have "dll l_next l_prev h p ps NULL" using Cons.prems by simp
  ultimately show ?case
    using Cons.IH [of p] by (subst r_cblist_call_loop.simps) (simp add: r_func_callback_ctx_call_live)
qed

lemma cblist_call_spec:
  "is_list h ps \<Longrightarrow> r_cblist_call h (head_of ps)
     = Some (length (filter ctx_live (contents h ps)), map ctx_invoke (filter ctx_live (contents h ps)))"
  using cblist_call_loop [of h NULL ps 0 "[]"] by (simp add: r_cblist_call_def is_list_def)

text \<open>Unlinking and freeing inside the loop is the list's own unlink and free.\<close>

lemma cbrlist_step:
  assumes "it \<noteq> NULL" "h it = Some n"
  shows "r_cbrlist_call_loop result h head it calls freed =
     (let calls' = calls @ (if ctx_live (l_data n) then [ctx_invoke (l_data n)] else []) in
      if ctx_live (l_data n) \<and> result (ctx_invoke (l_data n))
      then r_cbrlist_call_loop result h head (l_next n) calls' freed
      else do {
        (head', h', new) \<leftarrow> r_list_destroy_link r_func_callback_ctx_clear h head it;
        r_cbrlist_call_loop result h' head' (l_next n) calls' (freed @ new)
      })"
  using assms
  by (subst r_cbrlist_call_loop.simps)
    (auto simp: r_func_callback_ctx_call_live r_list_destroy_link_def r_list_remove_link_def
      r_list_free1_def assign_def deref_def Let_def split: bind_splits)

abbreviation ctx_keep :: "(cb_call \<Rightarrow> bool) \<Rightarrow> RFuncCallbackCtx \<Rightarrow> bool" where
  "ctx_keep result c \<equiv> ctx_live c \<and> result (ctx_invoke c)"

lemma list_edit_trans:
  assumes "list_edit h ps h1 ps1 ds1" "list_edit h1 ps1 h2 ps2 ds2" "set ps1 \<subseteq> set ps" "set ps2 \<subseteq> set ps"
  shows "list_edit h ps h2 ps2 ds2"
proof -
  have "h2 a = h a" if "a \<notin> set ps" for a
  proof -
    have "a \<notin> set ps1" "a \<notin> set ps2" using that assms(3,4) by auto
    then show ?thesis using that assms(1,2) by (simp add: list_edit_def)
  qed
  with assms(2) show ?thesis by (simp add: list_edit_def)
qed

lemma list_edit_null: "is_list h ps \<Longrightarrow> list_edit h ps h' ps' ds \<Longrightarrow> h NULL = None \<Longrightarrow> h' NULL = None"
  using is_list_node [of h ps NULL] is_list_node [of h' ps' NULL] unfolding list_edit_def by fastforce

lemma cbrlist_call_loop:
  assumes "is_list h (xs @ ys)" and "h NULL = None"
  shows "\<exists>h' zs. r_cbrlist_call_loop result h (head_of (xs @ ys)) (head_of ys) calls freed
       = Some (head_of (xs @ zs), h', calls @ map ctx_invoke (filter ctx_live (contents h ys)),
           freed @ concat (map r_func_callback_ctx_clear (filter (\<lambda>c. \<not> ctx_keep result c) (contents h ys)))) \<and>
     set zs \<subseteq> set ys \<and> list_edit h (xs @ ys) h' (xs @ zs) (contents h xs @ filter (ctx_keep result) (contents h ys))"
  using assms
proof (induction ys arbitrary: xs h calls freed)
  case Nil
  then show ?case
    by (subst r_cbrlist_call_loop.simps) (auto simp: list_edit_def intro!: exI [of _ "[]"])
next
  case (Cons p ys)
  obtain n where n: "h p = Some n" "l_next n = head_of ys" "p \<noteq> NULL"
    using Cons.prems(1) by (auto simp: is_list_def dll_append)
  let ?calls = "calls @ (if ctx_live (l_data n) then [ctx_invoke (l_data n)] else [])"
  note step = cbrlist_step [of p h n result "head_of (xs @ p # ys)" calls freed, OF n(3,1)]
  show ?case
  proof (cases "ctx_keep result (l_data n)")
    case True
    from Cons.IH [of h "xs @ [p]" ?calls freed] Cons.prems obtain h' zs where
      "r_cbrlist_call_loop result h (head_of (xs @ p # ys)) (head_of ys) ?calls freed
       = Some (head_of ((xs @ [p]) @ zs), h', ?calls @ map ctx_invoke (filter ctx_live (contents h ys)),
           freed @ concat (map r_func_callback_ctx_clear (filter (\<lambda>c. \<not> ctx_keep result c) (contents h ys))))"
      "set zs \<subseteq> set ys"
      "list_edit h (xs @ p # ys) h' ((xs @ [p]) @ zs) (contents h (xs @ [p]) @ filter (ctx_keep result) (contents h ys))"
      by auto
    then show ?thesis
      using step True n by (intro exI [of _ h'] exI [of _ "p # zs"]) (auto simp: Let_def)
  next
    case False
    obtain h1 where h1: "r_list_destroy_link r_func_callback_ctx_clear h (head_of (xs @ p # ys)) p
        = Some (head_of (xs @ ys), h1, r_func_callback_ctx_clear (l_data n))"
      "list_edit h (xs @ p # ys) h1 (xs @ ys) (contents h (xs @ ys))"
      using destroy_link_spec [OF Cons.prems(1,2), of r_func_callback_ctx_clear] n(1) by auto
    have l1: "is_list h1 (xs @ ys)" and null1: "h1 NULL = None"
      using h1(2) list_edit_null [OF Cons.prems(1) h1(2) Cons.prems(2)] by (auto simp: list_edit_def)
    have same: "contents h1 xs = contents h xs" "contents h1 ys = contents h ys"
      using h1(2) by (simp_all add: list_edit_def append_eq_append_conv)
    from Cons.IH [OF l1 null1, of ?calls "freed @ r_func_callback_ctx_clear (l_data n)"] obtain h' zs where
      ih: "r_cbrlist_call_loop result h1 (head_of (xs @ ys)) (head_of ys) ?calls (freed @ r_func_callback_ctx_clear (l_data n))
       = Some (head_of (xs @ zs), h', ?calls @ map ctx_invoke (filter ctx_live (contents h ys)),
           (freed @ r_func_callback_ctx_clear (l_data n)) @
           concat (map r_func_callback_ctx_clear (filter (\<lambda>c. \<not> ctx_keep result c) (contents h ys))))"
      "set zs \<subseteq> set ys"
      "list_edit h1 (xs @ ys) h' (xs @ zs) (contents h xs @ filter (ctx_keep result) (contents h ys))"
      unfolding same by blast
    have "list_edit h (xs @ p # ys) h' (xs @ zs) (contents h xs @ filter (ctx_keep result) (contents h ys))"
      by (rule list_edit_trans [OF h1(2) ih(3)]) (use ih(2) in auto)
    then show ?thesis
      using step False n h1(1) ih(1,2) by (intro exI [of _ h'] exI [of _ zs]) (auto simp: Let_def)
  qed
qed



end
