(* ===== verification/RQueue.thy ===== *)
theory RQueue
  imports RCBList
begin

text \<open>
  \<^verbatim>\<open>include/rlib/data/rqueue.h\<close> and \<^verbatim>\<open>rlib/data/rqueuering.c\<close>: the list-backed
  queue, the callback queue and the ring queue.  The first two work on the node store of
  \<^verbatim>\<open>RList\<close>; the ring on an array.  Both queues of items satisfy one interface, a bounded
  first-in first-out queue.
\<close>

section \<open>The interface\<close>

datatype ('a, 'i) queue_op = Push 'a 'i | Pop

datatype 'i queue_result = Pushed bool | Popped 'i

text \<open>
  A sequence of operations on an implementation and on a list.  \<open>'a\<close> is what a push needs
  beside its item (the address of the node it allocates); \<open>ok\<close> says that it may be used.
  \<open>queue_ok\<close> asks that of every push in the state it is made in, and nothing of the operations:
  where one does not return there is nothing left to ask.
\<close>

fun queue_run ::
  "('s \<Rightarrow> 'a \<Rightarrow> 'i \<Rightarrow> (bool \<times> 's) option) \<Rightarrow> ('s \<Rightarrow> ('i \<times> 's) option) \<Rightarrow> ('a, 'i) queue_op list \<Rightarrow> 's
   \<Rightarrow> ('i queue_result list \<times> 's) option" where
  "queue_run push pop [] s = Some ([], s)"
| "queue_run push pop (Push a x # ops) s = do {
     (b, s) \<leftarrow> push s a x;
     (rs, s) \<leftarrow> queue_run push pop ops s;
     Some (Pushed b # rs, s)
   }"
| "queue_run push pop (Pop # ops) s = do {
     (x, s) \<leftarrow> pop s;
     (rs, s) \<leftarrow> queue_run push pop ops s;
     Some (Popped x # rs, s)
   }"

fun queue_ok ::
  "('s \<Rightarrow> 'a \<Rightarrow> bool) \<Rightarrow> ('s \<Rightarrow> 'a \<Rightarrow> 'i \<Rightarrow> (bool \<times> 's) option) \<Rightarrow> ('s \<Rightarrow> ('i \<times> 's) option)
   \<Rightarrow> ('a, 'i) queue_op list \<Rightarrow> 's \<Rightarrow> bool" where
  "queue_ok ok push pop [] s \<longleftrightarrow> True"
| "queue_ok ok push pop (Push a x # ops) s \<longleftrightarrow>
     ok s a \<and> (case push s a x of None \<Rightarrow> True | Some (b, s') \<Rightarrow> queue_ok ok push pop ops s')"
| "queue_ok ok push pop (Pop # ops) s \<longleftrightarrow>
     (case pop s of None \<Rightarrow> True | Some (x, s') \<Rightarrow> queue_ok ok push pop ops s')"

fun list_run ::
  "(nat \<Rightarrow> bool) \<Rightarrow> 'i \<Rightarrow> ('a, 'i) queue_op list \<Rightarrow> 'i list \<Rightarrow> 'i queue_result list \<times> 'i list" where
  "list_run room nil [] xs = ([], xs)"
| "list_run room nil (Push a x # ops) xs =
     (let (rs, ys) = list_run room nil ops (if room (length xs) then xs @ [x] else xs)
      in (Pushed (room (length xs)) # rs, ys))"
| "list_run room nil (Pop # ops) xs =
     (let (rs, ys) = list_run room nil ops (tl xs)
      in (Popped (case xs of [] \<Rightarrow> nil | x # _ \<Rightarrow> x) # rs, ys))"

locale fifo_queue =
  fixes inv :: "'s \<Rightarrow> bool" and items :: "'s \<Rightarrow> 'i list" and ok :: "'s \<Rightarrow> 'a \<Rightarrow> bool"
    and room :: "nat \<Rightarrow> bool" and nil :: 'i
    and push :: "'s \<Rightarrow> 'a \<Rightarrow> 'i \<Rightarrow> (bool \<times> 's) option" and pop :: "'s \<Rightarrow> ('i \<times> 's) option"
  assumes push_law: "inv s \<Longrightarrow> ok s a \<Longrightarrow> \<exists>s'. push s a x = Some (room (length (items s)), s') \<and> inv s' \<and>
      items s' = (if room (length (items s)) then items s @ [x] else items s)"
    and pop_law: "inv s \<Longrightarrow> \<exists>s'. pop s = Some (case items s of [] \<Rightarrow> nil | x # _ \<Rightarrow> x, s') \<and> inv s' \<and>
      items s' = tl (items s)"
begin

lemma run_refines:
  "inv s \<Longrightarrow> queue_ok ok push pop ops s \<Longrightarrow>
   \<exists>s'. queue_run push pop ops s = Some (fst (list_run room nil ops (items s)), s') \<and> inv s' \<and>
        items s' = snd (list_run room nil ops (items s))"
proof (induction ops arbitrary: s)
  case Nil
  then show ?case by simp
next
  case (Cons op ops)
  show ?case
  proof (cases op)
    case (Push a x)
    with push_law [of s a x] Cons.prems obtain s' where
      s': "push s a x = Some (room (length (items s)), s')" "inv s'"
        "items s' = (if room (length (items s)) then items s @ [x] else items s)" by auto
    with Cons.IH [of s'] Cons.prems Push show ?thesis by (auto simp: case_prod_beta Let_def)
  next
    case Pop
    from pop_law [of s] Cons.prems obtain s' where
      s': "pop s = Some (case items s of [] \<Rightarrow> nil | x # _ \<Rightarrow> x, s')" "inv s'" "items s' = tl (items s)" by auto
    with Cons.IH [of s'] Cons.prems Pop show ?thesis by (auto simp: case_prod_beta Let_def)
  qed
qed

lemma run_total: "inv s \<Longrightarrow> (\<And>s a. inv s \<Longrightarrow> ok s a) \<Longrightarrow> queue_ok ok push pop ops s"
proof (induction ops arbitrary: s)
  case (Cons op ops)
  show ?case
  proof (cases op)
    case (Push a x)
    obtain s' where "push s a x = Some (room (length (items s)), s')" "inv s'"
      using push_law [OF Cons.prems(1) Cons.prems(2) [OF Cons.prems(1)]] by blast
    with Push Cons.IH [OF _ Cons.prems(2)] Cons.prems show ?thesis by simp
  next
    case Pop
    obtain x s' where "pop s = Some (x, s')" "inv s'" using pop_law [OF Cons.prems(1)] by blast
    with Pop Cons.IH [OF _ Cons.prems(2)] show ?thesis by simp
  qed
qed simp

end

section \<open>The list-backed queue\<close>

record RQueueList =
  q_head :: rpointer
  q_tail :: rpointer
  q_size :: nat

definition r_queue_list_init :: RQueueList where
  "r_queue_list_init = \<lparr>q_head = NULL, q_tail = NULL, q_size = 0\<rparr>"

text \<open>Linking a node that is allocated with null pointers at the tail.\<close>

definition queue_link :: "'d lstore \<Rightarrow> RQueueList \<Rightarrow> rpointer \<Rightarrow> ('d lstore \<times> RQueueList) option" where
  "queue_link h q node =
     (if q_size q > 0 then do {
        h \<leftarrow> assign h node (set_prev (q_tail q));
        h \<leftarrow> assign h (q_tail q) (set_next node);
        Some (h, q\<lparr>q_size := q_size q + 1, q_tail := node\<rparr>)
      }
      else Some (h, q\<lparr>q_size := q_size q + 1, q_head := node, q_tail := node\<rparr>))"

definition r_queue_list_push ::
  "rpointer lstore \<Rightarrow> RQueueList \<Rightarrow> rpointer \<Rightarrow> rpointer \<Rightarrow> (rpointer \<times> rpointer lstore \<times> RQueueList) option" where
  "r_queue_list_push h q new item = do {
     let h = r_list_alloc_copy h new item;
     (h, q) \<leftarrow> queue_link h q new;
     Some (new, h, q)
   }"

definition r_queue_list_pop ::
  "rpointer lstore \<Rightarrow> RQueueList \<Rightarrow> (rpointer \<times> rpointer lstore \<times> RQueueList) option" where
  "r_queue_list_pop h q =
     (let it = q_head q in
      if it \<noteq> NULL then do {
        n \<leftarrow> deref h it;
        let q = q\<lparr>q_head := l_next n\<rparr>;
        h \<leftarrow> (if q_head q \<noteq> NULL then assign h (q_head q) (set_prev NULL) else Some h);
        let q = (if q_head q \<noteq> NULL then q else q\<lparr>q_tail := NULL\<rparr>);
        n \<leftarrow> deref h it;
        (h, _) \<leftarrow> r_list_free1 (\<lambda>d. []) h it;
        Some (l_data n, h, q\<lparr>q_size := q_size q - 1\<rparr>)
      }
      else Some (NULL, h, q))"

definition r_queue_list_peek :: "rpointer lstore \<Rightarrow> RQueueList \<Rightarrow> rpointer option" where
  "r_queue_list_peek h q =
     (if q_head q \<noteq> NULL then do { n \<leftarrow> deref h (q_head q); Some (l_data n) } else Some NULL)"

definition r_queue_list_remove_link ::
  "rpointer lstore \<Rightarrow> RQueueList \<Rightarrow> rpointer \<Rightarrow> (rpointer lstore \<times> RQueueList) option" where
  "r_queue_list_remove_link h q link = do {
     q \<leftarrow> (if link = q_tail q then do { n \<leftarrow> deref h (q_tail q); Some (q\<lparr>q_tail := l_prev n\<rparr>) } else Some q);
     (head, h, _) \<leftarrow> r_list_destroy_link (\<lambda>d. []) h (q_head q) link;
     Some (h, q\<lparr>q_head := head, q_size := q_size q - 1\<rparr>)
   }"

definition r_queue_list_clear ::
  "rpointer lstore \<Rightarrow> RQueueList \<Rightarrow> rpointer \<Rightarrow> (rpointer lstore \<times> RQueueList \<times> notify_call list) option" where
  "r_queue_list_clear h q notify = do {
     (h, calls) \<leftarrow> r_list_destroy_full (\<lambda>d. []) (\<lambda>p d. d) h (q_head q) notify;
     Some (h, r_queue_list_init, calls)
   }"

section \<open>The callback queue\<close>

definition r_cbqueue_init :: RQueueList where
  "r_cbqueue_init = \<lparr>q_head = NULL, q_tail = NULL, q_size = 0\<rparr>"

definition r_cbqueue_push ::
  "cbstore \<Rightarrow> RQueueList \<Rightarrow> rpointer \<Rightarrow> RFuncCallbackCtx \<Rightarrow> (rpointer \<times> cbstore \<times> RQueueList) option" where
  "r_cbqueue_push h q new ctx = do {
     let h = r_cblist_alloc_full h new ctx;
     (h, q) \<leftarrow> queue_link h q new;
     Some (new, h, q)
   }"

text \<open>The node stays allocated and belongs to the caller.\<close>

definition r_cbqueue_pop :: "cbstore \<Rightarrow> RQueueList \<Rightarrow> (rpointer \<times> cbstore \<times> RQueueList) option" where
  "r_cbqueue_pop h q =
     (let ret = q_head q in
      if ret \<noteq> NULL then do {
        n \<leftarrow> deref h ret;
        let q = q\<lparr>q_head := l_next n\<rparr>;
        h \<leftarrow> (if q_head q \<noteq> NULL then assign h (q_head q) (set_prev NULL) else Some h);
        let q = (if q_head q \<noteq> NULL then q else q\<lparr>q_tail := NULL\<rparr>);
        h \<leftarrow> assign h ret (set_prev NULL);
        Some (ret, h, q\<lparr>q_size := q_size q - 1\<rparr>)
      }
      else Some (NULL, h, q))"

definition r_cbqueue_peek :: "RQueueList \<Rightarrow> rpointer" where
  "r_cbqueue_peek q = q_head q"

definition r_cbqueue_remove_link ::
  "cbstore \<Rightarrow> RQueueList \<Rightarrow> rpointer \<Rightarrow> (cbstore \<times> RQueueList \<times> notify_call list) option" where
  "r_cbqueue_remove_link h q link = do {
     q \<leftarrow> (if link = q_tail q then do { n \<leftarrow> deref h (q_tail q); Some (q\<lparr>q_tail := l_prev n\<rparr>) } else Some q);
     (head, h, calls) \<leftarrow> r_list_destroy_link r_func_callback_ctx_clear h (q_head q) link;
     Some (h, q\<lparr>q_head := head, q_size := q_size q - 1\<rparr>, calls)
   }"

definition r_cbqueue_clear :: "cbstore \<Rightarrow> RQueueList \<Rightarrow> (cbstore \<times> RQueueList \<times> notify_call list) option" where
  "r_cbqueue_clear h q = do {
     (h, calls) \<leftarrow> r_list_destroy r_func_callback_ctx_clear h (q_head q);
     Some (h, r_cbqueue_init, calls)
   }"

definition r_cbqueue_call :: "cbstore \<Rightarrow> RQueueList \<Rightarrow> (nat \<times> cb_call list) option" where
  "r_cbqueue_call h q = r_cblist_call h (q_head q)"

definition r_cbqueue_call_pop ::
  "cbstore \<Rightarrow> RQueueList \<Rightarrow> (nat \<times> cb_call list \<times> cbstore \<times> RQueueList \<times> notify_call list) option" where
  "r_cbqueue_call_pop h q = do {
     let lst = q_head q;
     (ret, calls) \<leftarrow> r_cblist_call h lst;
     (h, freed) \<leftarrow> r_list_destroy r_func_callback_ctx_clear h lst;
     Some (ret, calls, h, r_cbqueue_init, freed)
   }"

definition r_cbqueue_merge ::
  "cbstore \<Rightarrow> RQueueList \<Rightarrow> RQueueList \<Rightarrow> (cbstore \<times> RQueueList \<times> RQueueList) option" where
  "r_cbqueue_merge h dst src =
     (if q_size dst > 0 \<and> q_size src > 0 then do {
        h \<leftarrow> assign h (q_tail dst) (set_next (q_head src));
        h \<leftarrow> assign h (q_head src) (set_prev (q_tail dst));
        Some (h, dst\<lparr>q_size := q_size dst + q_size src, q_tail := q_tail src\<rparr>, r_cbqueue_init)
      }
      else if q_size dst = 0 then Some (h, src, r_cbqueue_init)
      else Some (h, dst, r_cbqueue_init))"

section \<open>The ring queue\<close>

text \<open>
  The fields keep their widths: \<^verbatim>\<open>sizep1\<close> is a 32-bit \<^verbatim>\<open>ruint\<close>, the indices are
  64-bit.  A fresh buffer has arbitrary contents, given as \<open>junk\<close>.  \<open>obj\<close> and \<open>buf\<close> say
  whether the allocator serves the ring and its buffer; the constructor returns null, here
  \<^const>\<open>None\<close>, when one of them fails, having released what it had.
\<close>

record RQueueRing =
  r_buffer :: "rpointer list"
  r_sizep1 :: ruint32
  r_head :: rsize
  r_tail :: rsize

definition r_queue_ring_new :: "bool \<Rightarrow> bool \<Rightarrow> rpointer \<Rightarrow> rsize \<Rightarrow> RQueueRing option" where
  "r_queue_ring_new obj buf junk sz =
     (if sz = 0 then None
      else if sz \<ge> RSIZE_MAX div 8 then None
      else if obj then
        let sizep1 = (ucast (sz + 1) :: ruint32) in
        if \<not> buf then None
        else Some \<lparr>r_buffer = replicate (unat sizep1) junk, r_sizep1 = sizep1, r_head = 0, r_tail = 0\<rparr>
      else None)"

definition r_queue_ring_size :: "RQueueRing \<Rightarrow> rsize" where
  "r_queue_ring_size q =
     (if r_tail q \<ge> r_head q then r_tail q - r_head q
      else ucast (r_sizep1 q) - (r_head q - r_tail q))"

definition r_queue_ring_is_empty :: "RQueueRing \<Rightarrow> bool" where
  "r_queue_ring_is_empty q \<longleftrightarrow> r_tail q = r_head q"

text \<open>\<^verbatim>\<open>sizep1 - 1\<close> is computed in 32 bits and then compared in 64; a remainder by zero traps.\<close>

definition r_queue_ring_push :: "RQueueRing \<Rightarrow> rpointer \<Rightarrow> (bool \<times> RQueueRing) option" where
  "r_queue_ring_push q item =
     (if r_queue_ring_size q < ucast (r_sizep1 q - 1) then
        if r_sizep1 q = 0 then None
        else do {
          let tail = r_tail q mod ucast (r_sizep1 q);
          buffer \<leftarrow> store (r_buffer q) (unat tail) item;
          Some (True, q\<lparr>r_buffer := buffer, r_tail := tail + 1\<rparr>)
        }
      else Some (False, q))"

definition r_queue_ring_pop :: "RQueueRing \<Rightarrow> (rpointer \<times> RQueueRing) option" where
  "r_queue_ring_pop q =
     (if r_tail q = r_head q then Some (NULL, q)
      else if r_sizep1 q = 0 then None
      else do {
        let head = r_head q mod ucast (r_sizep1 q);
        x \<leftarrow> fetch (r_buffer q) (unat head);
        Some (x, q\<lparr>r_head := head + 1\<rparr>)
      })"

definition r_queue_ring_peek :: "RQueueRing \<Rightarrow> rpointer option" where
  "r_queue_ring_peek q =
     (if r_tail q = r_head q then Some NULL
      else if r_sizep1 q = 0 then None
      else fetch (r_buffer q) (unat (r_head q mod ucast (r_sizep1 q))))"

partial_function (option) r_queue_ring_clear_loop ::
  "RQueueRing \<Rightarrow> rpointer \<Rightarrow> notify_call list \<Rightarrow> (RQueueRing \<times> notify_call list) option" where
  "r_queue_ring_clear_loop q notify calls =
     (if \<not> r_queue_ring_is_empty q then do {
        (x, q) \<leftarrow> r_queue_ring_pop q;
        r_queue_ring_clear_loop q notify (calls @ call_notify notify x)
      }
      else Some (q, calls))"

definition r_queue_ring_clear :: "RQueueRing \<Rightarrow> rpointer \<Rightarrow> (RQueueRing \<times> notify_call list) option" where
  "r_queue_ring_clear q notify =
     (if notify \<noteq> NULL then r_queue_ring_clear_loop q notify []
      else Some (q\<lparr>r_head := 0, r_tail := 0\<rparr>, []))"

section \<open>The list-backed queue is a queue\<close>

text \<open>The nodes \<open>ps\<close> of a queue, from head to tail.\<close>

definition rq_inv :: "'d lstore \<Rightarrow> RQueueList \<Rightarrow> rpointer list \<Rightarrow> bool" where
  "rq_inv h q ps \<longleftrightarrow> is_list h ps \<and> h NULL = None \<and>
     q_head q = head_of ps \<and> q_tail q = last (NULL # ps) \<and> q_size q = length ps"

lemma rq_inv_init: "rq_inv (\<lambda>_. None) r_queue_list_init []"
  by (simp add: rq_inv_def is_list_def r_queue_list_init_def)

lemma queue_link_spec:
  assumes inv: "rq_inv h q ps" and new: "h new = None" "new \<noteq> NULL"
  shows "\<exists>h' q'. queue_link (h(new \<mapsto> \<lparr>l_data = d, l_next = NULL, l_prev = NULL\<rparr>)) q new = Some (h', q') \<and>
     rq_inv h' q' (ps @ [new]) \<and> list_edit h ps h' (ps @ [new]) (contents h ps @ [d])"
proof -
  have l: "is_list h ps" and null: "h NULL = None" using inv by (simp_all add: rq_inv_def)
  have nin: "new \<notin> set ps" using is_list_node [OF l] new(1) by fastforce
  have last: "\<exists>n. h (last ps) = Some n \<and> last ps \<noteq> NULL \<and> last ps \<noteq> new" if "ps \<noteq> []"
    using is_list_node [OF l last_in_set [OF that]] new(1) by auto
  have "\<exists>h'. queue_link (h(new \<mapsto> \<lparr>l_data = d, l_next = NULL, l_prev = NULL\<rparr>)) q new
        = Some (h', \<lparr>q_head = head_of (ps @ [new]), q_tail = new, q_size = Suc (length ps)\<rparr>) \<and>
    h' new = Some \<lparr>l_data = d, l_next = NULL, l_prev = last (NULL # ps)\<rparr> \<and>
    (\<forall>a. a \<noteq> new \<longrightarrow> h' a = map_option (if a = last (NULL # ps) then set_next new else id) (h a))"
    using inv new last null
    by (cases q; cases "ps = []") (auto simp: queue_link_def rq_inv_def option.map_id hd_append)
  then obtain h' where h': "queue_link (h(new \<mapsto> \<lparr>l_data = d, l_next = NULL, l_prev = NULL\<rparr>)) q new
        = Some (h', \<lparr>q_head = head_of (ps @ [new]), q_tail = new, q_size = Suc (length ps)\<rparr>)"
    "h' new = Some \<lparr>l_data = d, l_next = NULL, l_prev = last (NULL # ps)\<rparr>"
    "\<forall>a. a \<noteq> new \<longrightarrow> h' a = map_option (if a = last (NULL # ps) then set_next new else id) (h a)" by blast
  have "list_edit h (ps @ []) h' (ps @ new # []) (contents h ps @ d # contents h [])"
    by (rule list_edit_link) (use l nin new h'(2,3) null in \<open>auto simp: option.map_id\<close>)
  then have ed: "list_edit h ps h' (ps @ [new]) (contents h ps @ [d])" by simp
  moreover have "h' NULL = None" using list_edit_null [OF l ed null] .
  ultimately show ?thesis using h' by (auto simp: rq_inv_def list_edit_def)
qed

lemma queue_push_spec:
  assumes "rq_inv h q ps" and "h new = None" "new \<noteq> NULL"
  shows "\<exists>h' q'. r_queue_list_push h q new x = Some (new, h', q') \<and>
     rq_inv h' q' (ps @ [new]) \<and> list_edit h ps h' (ps @ [new]) (contents h ps @ [x])"
  using queue_link_spec [OF assms, of x] by (auto simp: r_queue_list_push_def r_list_alloc_copy_def)

lemma queue_pop_spec:
  assumes inv: "rq_inv h q (p # ps)"
  shows "\<exists>h' q'. r_queue_list_pop h q = Some (l_data (the (h p)), h', q') \<and> h' p = None \<and>
     rq_inv h' q' ps \<and> list_edit h (p # ps) h' ps (contents h ps)"
proof -
  have l: "is_list h (p # ps)" and null: "h NULL = None" and hd: "q_head q = p"
    using inv by (simp_all add: rq_inv_def)
  have d: "p \<notin> set ps" using is_list_distinct [OF l] by simp
  obtain n where n: "h p = Some n" "l_next n = head_of ps" "p \<noteq> NULL" using l by (auto simp: is_list_def)
  have nd: "\<exists>m. h (hd ps) = Some m \<and> hd ps \<noteq> NULL \<and> hd ps \<noteq> p" if "ps \<noteq> []"
    using is_list_node [OF l, of "hd ps"] d hd_in_set [OF that] by auto
  have "\<exists>h'. r_queue_list_pop h q = Some (l_data (the (h p)), h',
        \<lparr>q_head = head_of ps, q_tail = last (NULL # ps), q_size = length ps\<rparr>) \<and> h' p = None \<and>
    (\<forall>a. a \<noteq> p \<longrightarrow> h' a = map_option (if a = head_of ps then set_prev NULL else id) (h a))"
    using inv n nd hd null
    by (cases q; cases ps) (auto simp: r_queue_list_pop_def rq_inv_def r_list_free1_def option.map_id Let_def)
  then obtain h' where h': "r_queue_list_pop h q = Some (l_data (the (h p)), h',
        \<lparr>q_head = head_of ps, q_tail = last (NULL # ps), q_size = length ps\<rparr>)" "h' p = None"
    "\<forall>a. a \<noteq> p \<longrightarrow> h' a = map_option (if a = head_of ps then set_prev NULL else id) (h a)" by blast
  have "list_edit h ([] @ p # ps) h' ([] @ ps) (contents h ([] @ ps))"
    by (rule list_edit_unlink) (use l null h'(3) in \<open>auto simp: option.map_id\<close>)
  then have ed: "list_edit h (p # ps) h' ps (contents h ps)" by simp
  moreover have "h' NULL = None" using list_edit_null [OF l ed null] .
  ultimately show ?thesis using h' by (auto simp: rq_inv_def list_edit_def)
qed

lemma queue_pop_empty: "rq_inv h q [] \<Longrightarrow> r_queue_list_pop h q = Some (NULL, h, q)"
  by (simp add: r_queue_list_pop_def rq_inv_def)

text \<open>The queue as an instance of the interface: its state is the store and the record.\<close>

definition lq_items :: "rpointer lstore \<times> RQueueList \<Rightarrow> rpointer list" where
  "lq_items s = (case r_list_walk l_next (fst s) (q_head (snd s)) of None \<Rightarrow> [] | Some w \<Rightarrow> map snd w)"

definition lq_inv :: "rpointer lstore \<times> RQueueList \<Rightarrow> bool" where
  "lq_inv s \<longleftrightarrow> (\<exists>ps. rq_inv (fst s) (snd s) ps)"

definition lq_push ::
  "rpointer lstore \<times> RQueueList \<Rightarrow> rpointer \<Rightarrow> rpointer \<Rightarrow> (bool \<times> (rpointer lstore \<times> RQueueList)) option" where
  "lq_push s new x = map_option (\<lambda>(_, s'). (True, s')) (r_queue_list_push (fst s) (snd s) new x)"

definition lq_pop :: "rpointer lstore \<times> RQueueList \<Rightarrow> (rpointer \<times> (rpointer lstore \<times> RQueueList)) option" where
  "lq_pop s = r_queue_list_pop (fst s) (snd s)"

definition lq_fresh :: "rpointer lstore \<times> RQueueList \<Rightarrow> rpointer \<Rightarrow> bool" where
  "lq_fresh s new \<longleftrightarrow> fst s new = None \<and> new \<noteq> NULL"

lemma lq_items: "rq_inv h q ps \<Longrightarrow> lq_items (h, q) = contents h ps"
  using walk_next [of h NULL ps] by (simp add: lq_items_def rq_inv_def is_list_def contents_def comp_def)

interpretation lq: fifo_queue lq_inv lq_items lq_fresh "\<lambda>_. True" NULL lq_push lq_pop
proof
  fix s :: "rpointer lstore \<times> RQueueList" and a x
  assume inv: "lq_inv s"
  obtain h q where s: "s = (h, q)" by (cases s)
  with inv obtain ps where ps: "rq_inv h q ps" by (auto simp: lq_inv_def)
  note items = lq_items [OF ps]
  {
    assume "lq_fresh s a"
    then obtain h' q' where "r_queue_list_push h q a x = Some (a, h', q')" "rq_inv h' q' (ps @ [a])"
      "contents h' (ps @ [a]) = contents h ps @ [x]"
      using queue_push_spec [OF ps, of a x] by (auto simp: s lq_fresh_def list_edit_def)
    then show "\<exists>s'. lq_push s a x = Some (True, s') \<and> lq_inv s' \<and>
        lq_items s' = (if True then lq_items s @ [x] else lq_items s)"
      using items lq_items [of h' q' "ps @ [a]"] by (auto simp: lq_push_def s lq_inv_def)
  }
  show "\<exists>s'. lq_pop s = Some (case lq_items s of [] \<Rightarrow> NULL | x # _ \<Rightarrow> x, s') \<and> lq_inv s' \<and>
      lq_items s' = tl (lq_items s)"
  proof (cases ps)
    case Nil
    with ps items inv show ?thesis using queue_pop_empty [of h q] by (simp add: lq_pop_def s)
  next
    case (Cons p ps')
    then obtain h' q' where "r_queue_list_pop h q = Some (l_data (the (h p)), h', q')" "rq_inv h' q' ps'"
      "contents h' ps' = contents h ps'"
      using queue_pop_spec [of h q p ps'] ps by (auto simp: list_edit_def)
    with items Cons lq_items [of h' q' ps'] show ?thesis by (auto simp: lq_pop_def s lq_inv_def)
  qed
qed

text \<open>
  C14. The list-backed queue is first in, first out: any sequence of pushes and pops returns,
  with the results of the same sequence on a list that grows at its end and shrinks at its
  front, a pop of an empty queue giving null.  The only condition is that the allocator serves
  every push, with an address that is not null and not in use at that moment.
\<close>

theorem r_queue_list_refines:
  assumes "rq_inv h q ps" and "queue_ok lq_fresh lq_push lq_pop ops (h, q)"
  shows "\<exists>h' q' ps'. queue_run lq_push lq_pop ops (h, q)
       = Some (fst (list_run (\<lambda>_. True) NULL ops (contents h ps)), (h', q')) \<and>
     rq_inv h' q' ps' \<and> contents h' ps' = snd (list_run (\<lambda>_. True) NULL ops (contents h ps))"
proof -
  have "lq_inv (h, q)" using assms(1) by (auto simp: lq_inv_def)
  from lq.run_refines [OF this assms(2)] obtain h' q' ps' where
    "queue_run lq_push lq_pop ops (h, q) = Some (fst (list_run (\<lambda>_. True) NULL ops (contents h ps)), (h', q'))"
    "rq_inv h' q' ps'" "lq_items (h', q') = snd (list_run (\<lambda>_. True) NULL ops (contents h ps))"
    unfolding lq_items [OF assms(1)] by (auto simp: lq_inv_def)
  then show ?thesis using lq_items [of h' q' ps'] by auto
qed

theorem r_queue_list_refines_witness:
  "\<exists>s'. queue_run lq_push lq_pop [Push 16 5, Push 32 6, Pop, Pop, Pop] (\<lambda>_. None, r_queue_list_init)
     = Some ([Pushed True, Pushed True, Popped 5, Popped 6, Popped 0], s')"
proof -
  have ok: "queue_ok lq_fresh lq_push lq_pop [Push 16 5, Push 32 6, Pop, Pop, Pop] (\<lambda>_. None, r_queue_list_init)"
    by (simp add: lq_fresh_def lq_push_def lq_pop_def r_queue_list_push_def r_queue_list_pop_def queue_link_def
        r_list_alloc_copy_def r_queue_list_init_def r_list_free1_def Let_def)
  from r_queue_list_refines [OF rq_inv_init ok] show ?thesis by (auto simp: Let_def)
qed

section \<open>The ring queue is a bounded queue\<close>

text \<open>The number of items, from the two indices; they run up to \<^verbatim>\<open>sizep1\<close> inclusive.\<close>

definition ring_count :: "RQueueRing \<Rightarrow> nat" where
  "ring_count q =
     (if unat (r_head q) \<le> unat (r_tail q) then unat (r_tail q) - unat (r_head q)
      else unat (r_sizep1 q) - (unat (r_head q) - unat (r_tail q)))"

definition ring_inv :: "nat \<Rightarrow> RQueueRing \<Rightarrow> bool" where
  "ring_inv c q \<longleftrightarrow> unat (r_sizep1 q) = Suc c \<and> length (r_buffer q) = Suc c \<and>
     unat (r_head q) \<le> Suc c \<and> unat (r_tail q) \<le> Suc c \<and>
     (unat (r_tail q) = 0 \<longrightarrow> unat (r_head q) = 0) \<and> ring_count q \<le> c"

definition ring_items :: "RQueueRing \<Rightarrow> rpointer list" where
  "ring_items q = map (\<lambda>i. r_buffer q ! ((unat (r_head q) + i) mod unat (r_sizep1 q))) [0 ..< ring_count q]"

lemma ring_invD:
  assumes "ring_inv c q"
  shows "unat (r_sizep1 q) = Suc c" "length (r_buffer q) = Suc c" "unat (r_head q) \<le> Suc c"
    "unat (r_tail q) \<le> Suc c" "unat (r_tail q) = 0 \<longrightarrow> unat (r_head q) = 0" "ring_count q \<le> c"
    "Suc c < 2 ^ 32" "unat (ucast (r_sizep1 q) :: rsize) = Suc c" "r_sizep1 q \<noteq> 0"
    "unat (ucast (r_sizep1 q - 1) :: rsize) = c"
proof -
  show *: "unat (r_sizep1 q) = Suc c" "length (r_buffer q) = Suc c" "unat (r_head q) \<le> Suc c"
    "unat (r_tail q) \<le> Suc c" "unat (r_tail q) = 0 \<longrightarrow> unat (r_head q) = 0" "ring_count q \<le> c"
    using assms by (simp_all add: ring_inv_def)
  show "Suc c < 2 ^ 32" using unat_less_pow [of "r_sizep1 q"] *(1) by simp
  show "unat (ucast (r_sizep1 q) :: rsize) = Suc c" using *(1) by (simp add: unat_ucast_up)
  show nz: "r_sizep1 q \<noteq> 0" using *(1) by auto
  show "unat (ucast (r_sizep1 q - 1) :: rsize) = c"
    using *(1) nz by (simp add: unat_ucast_up unat_minus_one)
qed

lemma ring_size:
  assumes "ring_inv c q"
  shows "unat (r_queue_ring_size q) = ring_count q"
proof -
  note D = ring_invD [OF assms]
  show ?thesis
  proof (cases "r_head q \<le> r_tail q")
    case True
    then show ?thesis by (simp add: r_queue_ring_size_def ring_count_def word_le_nat_alt unat_sub)
  next
    case False
    then have le: "r_tail q \<le> r_head q" by simp
    then have d: "unat (r_head q - r_tail q) = unat (r_head q) - unat (r_tail q)" by (rule unat_sub)
    then have "r_head q - r_tail q \<le> ucast (r_sizep1 q)" using D(3,8) by (simp add: word_le_nat_alt)
    then show ?thesis
      using False d D(1,8) by (simp add: r_queue_ring_size_def ring_count_def word_le_nat_alt unat_sub)
  qed
qed

lemma ring_push_spec:
  assumes inv: "ring_inv c q"
  shows "\<exists>q'. r_queue_ring_push q x = Some (length (ring_items q) < c, q') \<and> ring_inv c q' \<and>
     ring_items q' = (if length (ring_items q) < c then ring_items q @ [x] else ring_items q)"
proof -
  note D = ring_invD [OF inv]
  let ?t = "unat (r_tail q)" and ?h = "unat (r_head q)" and ?n = "ring_count q"
  have full: "r_queue_ring_size q < ucast (r_sizep1 q - 1) \<longleftrightarrow> ?n < c"
    by (simp add: word_less_nat_alt ring_size [OF inv] D(10))
  have len: "length (ring_items q) = ?n" by (simp add: ring_items_def)
  show ?thesis
  proof (cases "?n < c")
    case False
    then show ?thesis using full len inv by (simp add: r_queue_ring_push_def)
  next
    case True
    let ?w = "r_tail q mod ucast (r_sizep1 q)"
    have w: "unat ?w = ?t mod Suc c" by (simp add: unat_mod_distrib D(8))
    have "Suc (?t mod Suc c) < 2 ^ LENGTH(64)"
      by (rule order_le_less_trans [of _ "Suc c"]) (use D(7) in simp_all)
    then have w1: "unat (?w + 1) = Suc (?t mod Suc c)"
      unfolding w [symmetric] by (rule unat_plus_1)
    let ?q' = "q\<lparr>r_buffer := (r_buffer q)[?t mod Suc c := x], r_tail := ?w + 1\<rparr>"
    have "?t mod Suc c < length (r_buffer q)" using D(2) by simp
    then have run: "r_queue_ring_push q x = Some (True, ?q')"
      using full True D(9) w by (simp add: r_queue_ring_push_def)
    have pos: "(?h + ?n) mod Suc c = ?t mod Suc c"
      using D(1,3,4,5) mod_add_self1 [of "Suc c" ?t] by (auto simp: ring_count_def)
    have "?t mod Suc c = (if ?t = Suc c then 0 else ?t)" using D(4) by auto
    then have count: "ring_count ?q' = Suc ?n"
      using D(1,3,4,5,6) True by (auto simp: ring_count_def w1 split: if_splits)
    have inv': "ring_inv c ?q'"
      using D(1-6) True w1 count mod_less_divisor [of "Suc c" ?t] by (simp add: ring_inv_def)
    have same: "(?h + i) mod Suc c \<noteq> ?t mod Suc c" if "i < ?n" for i
    proof
      assume "(?h + i) mod Suc c = ?t mod Suc c"
      then have "(?h + ?n) mod Suc c = (?h + i) mod Suc c" using pos by simp
      then have "Suc c dvd ?n - i" using that mod_eq_dvd_iff_nat [of "?h + i" "?h + ?n" "Suc c"] by simp
      then show False using that D(6) by (auto dest: dvd_imp_le)
    qed
    have "ring_items ?q' = ring_items q @ [x]"
      unfolding ring_items_def count using D(1,2) pos not_sym [OF same] by (auto simp: w)
    with run inv' len True show ?thesis by simp
  qed
qed

lemma ring_pop_spec:
  assumes inv: "ring_inv c q"
  shows "\<exists>q'. r_queue_ring_pop q = Some (case ring_items q of [] \<Rightarrow> NULL | x # _ \<Rightarrow> x, q') \<and> ring_inv c q' \<and>
     ring_items q' = tl (ring_items q)"
proof -
  note D = ring_invD [OF inv]
  let ?t = "unat (r_tail q)" and ?h = "unat (r_head q)" and ?n = "ring_count q"
  have empty: "r_tail q = r_head q \<longleftrightarrow> ?n = 0"
    using D(1,3,4,5) by (auto simp: ring_count_def word_unat_eq_iff)
  show ?thesis
  proof (cases "?n = 0")
    case True
    then show ?thesis using empty inv by (simp add: r_queue_ring_pop_def ring_items_def)
  next
    case False
    let ?w = "r_head q mod ucast (r_sizep1 q)"
    have w: "unat ?w = ?h mod Suc c" by (simp add: unat_mod_distrib D(8))
    have "Suc (?h mod Suc c) < 2 ^ LENGTH(64)"
      by (rule order_le_less_trans [of _ "Suc c"]) (use D(7) in simp_all)
    then have w1: "unat (?w + 1) = Suc (?h mod Suc c)"
      unfolding w [symmetric] by (rule unat_plus_1)
    let ?q' = "q\<lparr>r_head := ?w + 1\<rparr>"
    have "?h mod Suc c < length (r_buffer q)" using D(2) by simp
    then have run: "r_queue_ring_pop q = Some (r_buffer q ! (?h mod Suc c), ?q')"
      using empty False D(9) w by (simp add: r_queue_ring_pop_def)
    have "?h mod Suc c = (if ?h = Suc c then 0 else ?h)" using D(3) by auto
    then have count: "ring_count ?q' = ?n - 1"
      using D(1,3,4,5,6) False by (auto simp: ring_count_def w1 split: if_splits)
    have inv': "ring_inv c ?q'"
      using D(1-6) False w1 count mod_less_divisor [of "Suc c" ?h]
      by (auto simp: ring_inv_def ring_count_def)
    have split: "[0 ..< ?n] = 0 # map Suc [0 ..< ?n - 1]"
      using False by (simp add: upt_conv_Cons map_Suc_upt)
    have "Suc (?h mod Suc c + i) mod Suc c = Suc (?h + i) mod Suc c" for i
      using mod_add_left_eq [of ?h "Suc c" "Suc i"] by simp
    then have "ring_items q = r_buffer q ! (?h mod Suc c) # ring_items ?q'"
      unfolding ring_items_def count by (subst split) (simp add: D(1) w1 comp_def)
    with run inv' show ?thesis by simp
  qed
qed

interpretation ring: fifo_queue "ring_inv c" ring_items "\<lambda>_ _. True" "\<lambda>n. n < c" NULL
  "\<lambda>q (_ :: unit) x. r_queue_ring_push q x" r_queue_ring_pop for c
  by unfold_locales (use ring_push_spec ring_pop_spec in blast)+

text \<open>
  The constructor computes the size of the buffer in 32 bits.
\<close>

lemma ring_new:
  assumes sz: "0 < unat sz" "unat sz < unat (RSIZE_MAX div 8)"
  shows "\<exists>q. (\<forall>obj buf. r_queue_ring_new obj buf junk sz = (if obj \<and> buf then Some q else None)) \<and>
     unat (r_sizep1 q) = Suc (unat sz) mod 2 ^ 32 \<and> r_head q = 0 \<and> r_tail q = 0 \<and> ring_items q = [] \<and>
     (r_sizep1 q \<noteq> 0 \<longrightarrow> ring_inv (Suc (unat sz) mod 2 ^ 32 - 1) q)"
proof -
  have "unat (RSIZE_MAX div 8) < 2 ^ 64 - 1" by (simp add: unat_div_distrib)
  then have "unat (sz + 1) = Suc (unat sz)" using sz(2) by (subst unat_plus_1) simp_all
  then have s1: "unat (ucast (sz + 1) :: ruint32) = Suc (unat sz) mod 2 ^ 32"
    by (simp add: unsigned_ucast_eq take_bit_eq_mod)
  let ?q = "\<lparr>r_buffer = replicate (unat (ucast (sz + 1) :: ruint32)) junk, r_sizep1 = ucast (sz + 1), r_head = 0, r_tail = 0\<rparr>"
  have "ring_inv (Suc (unat sz) mod 2 ^ 32 - 1) ?q" if "r_sizep1 ?q \<noteq> 0"
    using that s1 by (simp add: ring_inv_def ring_count_def word_unat_eq_iff)
  moreover have "\<forall>obj buf. r_queue_ring_new obj buf junk sz = (if obj \<and> buf then Some ?q else None)"
    using sz by (auto simp: r_queue_ring_new_def Let_def word_le_nat_alt)
  ultimately show ?thesis using s1 by (intro exI [of _ ?q]) (simp add: ring_items_def ring_count_def)
qed

lemma ring_run:
  assumes inv: "ring_inv c q" and new: "ring_items q = []"
  shows "\<exists>q'. queue_run (\<lambda>q (_ :: unit) x. r_queue_ring_push q x) r_queue_ring_pop ops q
       = Some (fst (list_run (\<lambda>n. n < c) NULL ops []), q') \<and>
     ring_items q' = snd (list_run (\<lambda>n. n < c) NULL ops []) \<and>
     unat (r_queue_ring_size q') = length (ring_items q')"
proof -
  have "queue_ok (\<lambda>_ _. True) (\<lambda>q (_ :: unit) x. r_queue_ring_push q x) r_queue_ring_pop ops q"
    by (rule ring.run_total [OF inv]) simp
  from ring.run_refines [OF inv this] obtain q' where
    "queue_run (\<lambda>q (_ :: unit) x. r_queue_ring_push q x) r_queue_ring_pop ops q
       = Some (fst (list_run (\<lambda>n. n < c) NULL ops []), q')"
    "ring_inv c q'" "ring_items q' = snd (list_run (\<lambda>n. n < c) NULL ops [])"
    unfolding new by blast
  with ring_size [of c q'] show ?thesis by (auto simp: ring_items_def)
qed

text \<open>
  C15. A ring queue of capacity \<open>sz\<close> below \<^verbatim>\<open>2^32 - 1\<close> is a first-in first-out queue bounded by
  exactly \<open>sz\<close>.  The constructor returns null when the ring or its buffer cannot be allocated;
  otherwise any sequence of pushes and pops on the new ring runs without an access outside the
  buffer, a push is accepted exactly when fewer than \<open>sz\<close> items are held, and pops return the
  accepted items in order.
\<close>

theorem r_queue_ring_refines:
  assumes "0 < unat sz" and "unat sz < 2 ^ 32 - 1"
  shows "\<exists>q q'. (\<forall>obj buf. r_queue_ring_new obj buf junk sz = (if obj \<and> buf then Some q else None)) \<and>
     queue_run (\<lambda>q (_ :: unit) x. r_queue_ring_push q x) r_queue_ring_pop ops q
       = Some (fst (list_run (\<lambda>n. n < unat sz) NULL ops []), q') \<and>
     ring_items q' = snd (list_run (\<lambda>n. n < unat sz) NULL ops []) \<and>
     unat (r_queue_ring_size q') = length (ring_items q')"
proof -
  have "unat sz < unat (RSIZE_MAX div 8)" using assms(2) by (simp add: unat_div_distrib)
  from ring_new [OF assms(1) this, of junk] assms(2) obtain q where
    q: "\<forall>obj buf. r_queue_ring_new obj buf junk sz = (if obj \<and> buf then Some q else None)"
      "ring_inv (unat sz) q" "ring_items q = []"
    by (auto simp: word_unat_eq_iff [of _ 0])
  with ring_run [OF q(2,3), of ops] show ?thesis by blast
qed

theorem r_queue_ring_refines_witness:
  "\<exists>q q'. r_queue_ring_new True True 0 1 = Some q \<and> r_queue_ring_new True False 0 1 = None \<and>
     queue_run (\<lambda>q (_ :: unit) x. r_queue_ring_push q x) r_queue_ring_pop [Push () 5, Push () 6, Pop, Pop] q
       = Some ([Pushed True, Pushed False, Popped 5, Popped 0], q')"
  using r_queue_ring_refines [of 1 0 "[Push () 5, Push () 6, Pop, Pop]"] by (auto simp: Let_def)

text \<open>
  C16. The constructor also accepts capacities from \<^verbatim>\<open>2^32 - 1\<close> up to an eighth of the address
  space, and cuts them: for every such \<open>sz\<close> the ring that it returns, when both allocations
  succeed, has \<open>(sz + 1) mod 2^32\<close> slots.  If that is not zero, the ring is a first-in first-out
  queue of one item fewer, not of \<open>sz\<close> items.  If it is zero (the buffer is then an allocation of
  no bytes, which may be served), the ring looks not full and the first push divides by zero.
\<close>

theorem r_queue_ring_new_cuts:
  assumes "2 ^ 32 - 1 \<le> unat sz" and "unat sz < unat (RSIZE_MAX div 8)"
  shows "\<exists>q. r_queue_ring_new True True junk sz = Some q \<and> unat (r_sizep1 q) = Suc (unat sz) mod 2 ^ 32 \<and>
     (if Suc (unat sz) mod 2 ^ 32 = 0 then r_queue_ring_push q x = None
      else \<exists>q'. queue_run (\<lambda>q (_ :: unit) x. r_queue_ring_push q x) r_queue_ring_pop ops q
        = Some (fst (list_run (\<lambda>n. n < Suc (unat sz) mod 2 ^ 32 - 1) NULL ops []), q'))"
proof -
  have "0 < unat sz" using assms(1) by simp
  from ring_new [OF this assms(2)] obtain q where
    q: "\<forall>obj buf. r_queue_ring_new obj buf junk sz = (if obj \<and> buf then Some q else None)"
      "unat (r_sizep1 q) = Suc (unat sz) mod 2 ^ 32" "r_head q = 0" "r_tail q = 0" "ring_items q = []"
      "r_sizep1 q \<noteq> 0 \<longrightarrow> ring_inv (Suc (unat sz) mod 2 ^ 32 - 1) q" by blast
  show ?thesis
  proof (cases "r_sizep1 q = 0")
    case True
    then have "r_queue_ring_push q x = None"
      using q(3,4) by (simp add: r_queue_ring_push_def r_queue_ring_size_def word_less_nat_alt unat_ucast_up unat_gt_0)
    then show ?thesis using q(1,2) True by auto
  next
    case False
    with q ring_run [of "Suc (unat sz) mod 2 ^ 32 - 1" q ops] show ?thesis by (auto simp: word_unat_eq_iff)
  qed
qed

theorem r_queue_ring_new_cuts_witness:
  "\<exists>q q'. r_queue_ring_new True True 0 (2 ^ 32 + 1) = Some q \<and> unat (r_sizep1 q) = 2 \<and>
     queue_run (\<lambda>q (_ :: unit) x. r_queue_ring_push q x) r_queue_ring_pop [Push () 5, Push () 6, Pop, Pop] q
       = Some ([Pushed True, Pushed False, Popped 5, Popped 0], q')"
  using r_queue_ring_new_cuts [of "2 ^ 32 + 1" 0 _ "[Push () 5, Push () 6, Pop, Pop]"]
  by (auto simp: Let_def unat_div_distrib)

section \<open>Merging and draining callback queues\<close>

lemma merge_spec:
  assumes dst: "rq_inv h dst ps" and src: "rq_inv h src qs" and disj: "set ps \<inter> set qs = {}"
  shows "\<exists>h' dst'. r_cbqueue_merge h dst src = Some (h', dst', r_cbqueue_init) \<and> rq_inv h' dst' (ps @ qs) \<and>
     contents h' (ps @ qs) = contents h ps @ contents h qs"
proof (cases "ps = [] \<or> qs = []")
  case True
  then show ?thesis using dst src by (auto simp: r_cbqueue_merge_def rq_inv_def)
next
  case False
  have l: "is_list h ps" "is_list h qs" and null: "h NULL = None" using dst src by (simp_all add: rq_inv_def)
  obtain m where m: "h (last ps) = Some m" "last ps \<noteq> NULL" using is_list_node [OF l(1) last_in_set] False by blast
  obtain n where n: "h (hd qs) = Some n" "hd qs \<noteq> NULL" using is_list_node [OF l(2) hd_in_set] False by blast
  have ends: "last ps \<in> set ps" "hd qs \<in> set qs" using False by auto
  then have ne: "hd qs \<noteq> last ps" using disj by (metis disjoint_iff)
  let ?h = "h(last ps \<mapsto> set_next (hd qs) m, hd qs \<mapsto> set_prev (last ps) n)"
  have other: "last ps \<notin> set qs" "hd qs \<notin> set ps" using disj ends by (auto simp: disjoint_iff)
  have "dll l_next l_prev ?h NULL ps (hd qs)"
    by (rule rl.retarget_last [OF l(1) [unfolded is_list_def] is_list_distinct [OF l(1)]])
      (use m other ne in \<open>auto simp: option.map_id\<close>)
  moreover have "dll l_next l_prev ?h (last ps) qs NULL"
    by (rule rl.retarget_first [OF l(2) [unfolded is_list_def] is_list_distinct [OF l(2)]])
      (use n other ne in \<open>auto simp: option.map_id\<close>)
  ultimately have "is_list ?h (ps @ qs)" using False by (simp add: is_list_def dll_append)
  moreover have "contents ?h (ps @ qs) = contents h ps @ contents h qs"
    using m n ne by (auto simp: contents_def)
  moreover have "r_cbqueue_merge h dst src
      = Some (?h, dst\<lparr>q_size := q_size dst + q_size src, q_tail := q_tail src\<rparr>, r_cbqueue_init)"
    using dst src m n ne False by (simp add: r_cbqueue_merge_def rq_inv_def hd_append)
  ultimately show ?thesis using dst src null m n False by (auto simp: rq_inv_def hd_append)
qed

text \<open>
  C17. Merging two callback queues appends the entries of the source to those of the
  destination and empties the source; draining the result then invokes every callback that is
  set, in that order, once, frees every node of the queue and no other, and leaves it empty.
\<close>

theorem r_cbqueue_merge_call_pop:
  assumes "rq_inv h dst ps" and "rq_inv h src qs" and "set ps \<inter> set qs = {}"
  shows "\<exists>h1 q h2 freed. r_cbqueue_merge h dst src = Some (h1, q, r_cbqueue_init) \<and>
     q_size q = q_size dst + q_size src \<and>
     r_cbqueue_call_pop h1 q
       = Some (length (filter ctx_live (contents h ps @ contents h qs)),
           map ctx_invoke (filter ctx_live (contents h ps @ contents h qs)), h2, r_cbqueue_init, freed) \<and>
     (\<forall>a. h2 a = (if a \<in> set (ps @ qs) then None else h1 a)) \<and>
     mset freed = mset (concat (map r_func_callback_ctx_clear (contents h ps @ contents h qs)))"
proof -
  obtain h1 q where m: "r_cbqueue_merge h dst src = Some (h1, q, r_cbqueue_init)" "rq_inv h1 q (ps @ qs)"
    "contents h1 (ps @ qs) = contents h ps @ contents h qs"
    using merge_spec [OF assms] by blast
  have l: "is_list h1 (ps @ qs)" and null: "h1 NULL = None" and hd: "q_head q = head_of (ps @ qs)"
    using m(2) by (simp_all add: rq_inv_def)
  have "frees_node (r_list_free1 r_func_callback_ctx_clear) (\<lambda>p d. r_func_callback_ctx_clear d)"
    by (simp add: frees_node_def r_list_free1_def)
  from destroy_with_spec [OF l null this] obtain freed where
    d: "r_list_destroy r_func_callback_ctx_clear h1 (q_head q)
        = Some (\<lambda>a. if a \<in> set (ps @ qs) then None else h1 a, freed)"
      "freed = concat (map (\<lambda>p. r_func_callback_ctx_clear (l_data (the (h1 p)))) (tl (ps @ qs) @ take 1 (ps @ qs)))"
    unfolding hd r_list_destroy_def by blast
  have "mset (concat (map (\<lambda>p. r_func_callback_ctx_clear (l_data (the (h1 p)))) (tl rs @ take 1 rs)))
      = mset (concat (map r_func_callback_ctx_clear (contents h1 rs)))" for rs
    by (cases rs) (simp_all add: contents_def comp_def)
  then have "mset freed = mset (concat (map r_func_callback_ctx_clear (contents h ps @ contents h qs)))"
    unfolding d(2) m(3) [symmetric] .
  moreover have "r_cbqueue_call_pop h1 q
       = Some (length (filter ctx_live (contents h ps @ contents h qs)),
           map ctx_invoke (filter ctx_live (contents h ps @ contents h qs)),
           \<lambda>a. if a \<in> set (ps @ qs) then None else h1 a, r_cbqueue_init, freed)"
    using d(1) cblist_call_spec [OF l] unfolding hd m(3) by (simp add: r_cbqueue_call_pop_def hd)
  moreover have "q_size q = q_size dst + q_size src" using m(2) assms(1,2) by (simp add: rq_inv_def)
  ultimately show ?thesis using m(1) by auto
qed

theorem r_cbqueue_merge_call_pop_witness:
  "\<exists>h1 q. r_cbqueue_merge
       ((\<lambda>_. None)(16 \<mapsto> \<lparr>l_data = r_func_callback_ctx_init 4 5 0 7 0, l_next = 0, l_prev = 0\<rparr>,
                   32 \<mapsto> \<lparr>l_data = r_func_callback_ctx_init 4 6 0 8 0, l_next = 0, l_prev = 0\<rparr>))
       \<lparr>q_head = 16, q_tail = 16, q_size = 1\<rparr> \<lparr>q_head = 32, q_tail = 32, q_size = 1\<rparr> = Some (h1, q, r_cbqueue_init) \<and>
     q_size q = 2 \<and> (\<exists>rest. r_cbqueue_call_pop h1 q = Some (2, [(4, 5, 7), (4, 6, 8)], rest))"
proof -
  let ?h = "(\<lambda>_. None)(16 \<mapsto> \<lparr>l_data = r_func_callback_ctx_init 4 5 0 7 0, l_next = 0, l_prev = 0\<rparr>,
                   32 \<mapsto> \<lparr>l_data = r_func_callback_ctx_init 4 6 0 8 0, l_next = 0, l_prev = 0\<rparr>)"
  have "rq_inv ?h \<lparr>q_head = 16, q_tail = 16, q_size = 1\<rparr> [16]" "rq_inv ?h \<lparr>q_head = 32, q_tail = 32, q_size = 1\<rparr> [32]"
    by (simp_all add: rq_inv_def is_list_def)
  from r_cbqueue_merge_call_pop [OF this] show ?thesis
    by (auto simp: r_func_callback_ctx_init_def ctx_invoke_def)
qed

end
