(* ===== verification/RTimeoutCBList.thy ===== *)
theory RTimeoutCBList
  imports RDll RCBList
begin

text \<open>
  \<^verbatim>\<open>rlib/data/rtimeoutcblist.c\<close> and \<^verbatim>\<open>rtimeoutcblist-private.h\<close>: the list of timeout
  callbacks, sorted by deadline.

  The entries live in a store and carry their reference count.  \<open>self\<close> is the address of the
  list.  A callback may change the list it is called from, so an update takes the effect of a
  callback as the parameter \<open>invoke\<close>, a function on the store and the list.
\<close>

section \<open>Data\<close>

record RToCB =
  to_ref :: nat
  to_lst :: rpointer
  to_next :: rpointer
  to_prev :: rpointer
  to_ts :: ruint64
  to_ctx :: RFuncCallbackCtx

type_synonym tostore = "RToCB store"

record RTimeoutCBList =
  tl_head :: rpointer
  tl_tail :: rpointer
  tl_size :: rsize

abbreviation R_CLOCK_TIME_NONE :: ruint64 where
  "R_CLOCK_TIME_NONE \<equiv> - 1"

abbreviation set_tonext :: "rpointer \<Rightarrow> RToCB \<Rightarrow> RToCB" where
  "set_tonext p n \<equiv> n\<lparr>to_next := p\<rparr>"

abbreviation set_toprev :: "rpointer \<Rightarrow> RToCB \<Rightarrow> RToCB" where
  "set_toprev p n \<equiv> n\<lparr>to_prev := p\<rparr>"

section \<open>Operations\<close>

definition r_timeout_cblist_init :: RTimeoutCBList where
  "r_timeout_cblist_init = \<lparr>tl_head = NULL, tl_tail = NULL, tl_size = 0\<rparr>"

definition r_to_cb_deinit :: "RToCB \<Rightarrow> notify_call list" where
  "r_to_cb_deinit n =
     call_notify (ctx_datanotify (to_ctx n)) (ctx_data (to_ctx n)) @
     call_notify (ctx_usernotify (to_ctx n)) (ctx_user (to_ctx n))"

definition r_to_cb_free :: "tostore \<Rightarrow> rpointer \<Rightarrow> (tostore \<times> notify_call list) option" where
  "r_to_cb_free h p = do {
     n \<leftarrow> deref h p;
     h \<leftarrow> release h p;
     Some (h, r_to_cb_deinit n)
   }"

definition r_to_cb_ref :: "tostore \<Rightarrow> rpointer \<Rightarrow> tostore option" where
  "r_to_cb_ref h p = assign h p (\<lambda>n. n\<lparr>to_ref := to_ref n + 1\<rparr>)"

definition r_to_cb_unref :: "tostore \<Rightarrow> rpointer \<Rightarrow> (tostore \<times> notify_call list) option" where
  "r_to_cb_unref h p = do {
     n \<leftarrow> deref h p;
     h \<leftarrow> assign h p (\<lambda>n. n\<lparr>to_ref := to_ref n - 1\<rparr>);
     if to_ref n = 1 then r_to_cb_free h p else Some (h, [])
   }"

definition r_to_cb_internal_free :: "tostore \<Rightarrow> rpointer \<Rightarrow> (tostore \<times> notify_call list) option" where
  "r_to_cb_internal_free h p = do {
     h \<leftarrow> assign h p (\<lambda>n. n\<lparr>to_next := NULL, to_prev := NULL\<rparr>);
     h \<leftarrow> assign h p (\<lambda>n. n\<lparr>to_lst := NULL\<rparr>);
     r_to_cb_unref h p
   }"

text \<open>A fresh entry; its list field is set by the insertion.\<close>

definition r_to_cb_alloc :: "tostore \<Rightarrow> rpointer \<Rightarrow> ruint64 \<Rightarrow> RFuncCallbackCtx \<Rightarrow> tostore" where
  "r_to_cb_alloc h new ts ctx =
     h(new \<mapsto> \<lparr>to_ref = 1, to_lst = NULL, to_next = NULL, to_prev = NULL, to_ts = ts, to_ctx = ctx\<rparr>)"

partial_function (option) r_timeout_cblist_clear_loop ::
  "tostore \<Rightarrow> rpointer \<Rightarrow> notify_call list \<Rightarrow> (tostore \<times> notify_call list) option" where
  "r_timeout_cblist_clear_loop h it calls =
     (if it \<noteq> NULL then do {
        n \<leftarrow> deref h it;
        (h, new) \<leftarrow> r_to_cb_internal_free h it;
        r_timeout_cblist_clear_loop h (to_next n) (calls @ new)
      }
      else Some (h, calls))"

definition r_timeout_cblist_clear ::
  "tostore \<Rightarrow> RTimeoutCBList \<Rightarrow> (tostore \<times> RTimeoutCBList \<times> notify_call list) option" where
  "r_timeout_cblist_clear h lst = do {
     (h, calls) \<leftarrow> r_timeout_cblist_clear_loop h (tl_head lst) [];
     Some (h, r_timeout_cblist_init, calls)
   }"

partial_function (option) insert_backwards_loop :: "tostore \<Rightarrow> ruint64 \<Rightarrow> rpointer \<Rightarrow> rpointer option" where
  "insert_backwards_loop h ts it = do {
     n \<leftarrow> deref h it;
     if ts < to_ts n then insert_backwards_loop h ts (to_prev n) else Some it
   }"

partial_function (option) insert_forwards_loop :: "tostore \<Rightarrow> ruint64 \<Rightarrow> rpointer \<Rightarrow> rpointer option" where
  "insert_forwards_loop h ts it = do {
     n \<leftarrow> deref h it;
     if ts \<ge> to_ts n then insert_forwards_loop h ts (to_next n) else Some it
   }"

definition r_timeout_cblist_internal_insert ::
  "rpointer \<Rightarrow> tostore \<Rightarrow> RTimeoutCBList \<Rightarrow> rpointer \<Rightarrow> (tostore \<times> RTimeoutCBList) option" where
  "r_timeout_cblist_internal_insert self h lst tocb = do {
     h \<leftarrow> assign h tocb (\<lambda>n. n\<lparr>to_lst := self\<rparr>);
     (h, lst) \<leftarrow>
       (if tl_head lst = NULL then Some (h, lst\<lparr>tl_head := tocb, tl_tail := tocb\<rparr>)
        else do {
          n \<leftarrow> deref h tocb;
          hd \<leftarrow> deref h (tl_head lst);
          tl \<leftarrow> deref h (tl_tail lst);
          if to_ts n \<ge> to_ts tl then do {
            h \<leftarrow> assign h tocb (set_toprev (tl_tail lst));
            h \<leftarrow> assign h (tl_tail lst) (set_tonext tocb);
            Some (h, lst\<lparr>tl_tail := tocb\<rparr>)
          }
          else if to_ts n < to_ts hd then do {
            h \<leftarrow> assign h tocb (set_tonext (tl_head lst));
            h \<leftarrow> assign h (tl_head lst) (set_toprev tocb);
            Some (h, lst\<lparr>tl_head := tocb\<rparr>)
          }
          else if to_ts n - to_ts hd > to_ts tl - to_ts n then do {
            it \<leftarrow> insert_backwards_loop h (to_ts n) (to_prev tl);
            m \<leftarrow> deref h it;
            h \<leftarrow> assign h tocb (set_tonext (to_next m));
            h \<leftarrow> assign h tocb (set_toprev it);
            m \<leftarrow> deref h it;
            h \<leftarrow> assign h (to_next m) (set_toprev tocb);
            h \<leftarrow> assign h it (set_tonext tocb);
            Some (h, lst)
          }
          else do {
            it \<leftarrow> insert_forwards_loop h (to_ts n) (to_next hd);
            m \<leftarrow> deref h it;
            h \<leftarrow> assign h tocb (set_toprev (to_prev m));
            h \<leftarrow> assign h tocb (set_tonext it);
            m \<leftarrow> deref h it;
            h \<leftarrow> assign h (to_prev m) (set_tonext tocb);
            h \<leftarrow> assign h it (set_toprev tocb);
            Some (h, lst)
          }
        });
     Some (h, lst\<lparr>tl_size := tl_size lst + 1\<rparr>)
   }"

text \<open>
  \<open>want\<close>: the caller asked for a handle (\<open>out\<close> of the result), which holds a reference of its own.
  \<open>new\<close> is what the allocation returns, \<open>NULL\<close> when it fails.
\<close>

definition r_timeout_cblist_insert ::
  "rpointer \<Rightarrow> tostore \<Rightarrow> RTimeoutCBList \<Rightarrow> rpointer \<Rightarrow> bool \<Rightarrow> ruint64 \<Rightarrow> RFuncCallbackCtx
   \<Rightarrow> (bool \<times> rpointer \<times> tostore \<times> RTimeoutCBList) option" where
  "r_timeout_cblist_insert self h lst new want ts ctx =
     (if new \<noteq> NULL then do {
        (h, lst) \<leftarrow> r_timeout_cblist_internal_insert self (r_to_cb_alloc h new ts ctx) lst new;
        (out, h) \<leftarrow> (if want then do { h \<leftarrow> r_to_cb_ref h new; Some (new, h) } else Some (NULL, h));
        Some (True, out, h, lst)
      }
      else Some (False, NULL, h, lst))"

definition r_timeout_cblist_cancel ::
  "rpointer \<Rightarrow> tostore \<Rightarrow> RTimeoutCBList \<Rightarrow> rpointer
   \<Rightarrow> (bool \<times> tostore \<times> RTimeoutCBList \<times> notify_call list) option" where
  "r_timeout_cblist_cancel self h lst cb =
     (if cb = NULL then Some (False, h, lst, [])
      else do {
        n \<leftarrow> deref h cb;
        if to_lst n \<noteq> self then Some (False, h, lst, [])
        else do {
          let lst = (if cb = tl_head lst then lst\<lparr>tl_head := to_next n\<rparr> else lst);
          let lst = (if cb = tl_tail lst then lst\<lparr>tl_tail := to_prev n\<rparr> else lst);
          let prev = to_prev n;
          let next = to_next n;
          h \<leftarrow> (if prev \<noteq> NULL then assign h prev (set_tonext (to_next n)) else Some h);
          n \<leftarrow> deref h cb;
          h \<leftarrow> (if next \<noteq> NULL then assign h next (set_toprev (to_prev n)) else Some h);
          (h, calls) \<leftarrow> r_to_cb_internal_free h cb;
          Some (True, h, lst\<lparr>tl_size := tl_size lst - 1\<rparr>, calls)
        }
      })"

definition r_timeout_cblist_first_timeout :: "tostore \<Rightarrow> RTimeoutCBList \<Rightarrow> ruint64 option" where
  "r_timeout_cblist_first_timeout h lst =
     (if tl_head lst \<noteq> NULL then do { n \<leftarrow> deref h (tl_head lst); Some (to_ts n) } else Some R_CLOCK_TIME_NONE)"

text \<open>
  The update loop.  It counts the entries it fired and collects the calls and the destroy
  notifications; \<open>invoke\<close> is the effect of a callback on the store and the list.
\<close>

partial_function (option) r_timeout_cblist_update_loop ::
  "(cb_call \<Rightarrow> tostore \<times> RTimeoutCBList \<Rightarrow> (tostore \<times> RTimeoutCBList) option) \<Rightarrow> ruint64
   \<Rightarrow> tostore \<Rightarrow> RTimeoutCBList \<Rightarrow> rsize \<Rightarrow> cb_call list \<Rightarrow> notify_call list
   \<Rightarrow> (tostore \<times> RTimeoutCBList \<times> rsize \<times> cb_call list \<times> notify_call list) option" where
  "r_timeout_cblist_update_loop invoke ts h lst ret calls freed =
     (if tl_head lst = NULL then Some (h, lst, ret, calls, freed)
      else do {
        let cur = tl_head lst;
        n \<leftarrow> deref h cur;
        if ts < to_ts n then Some (h, lst, ret, calls, freed)
        else do {
          (h, lst, calls) \<leftarrow>
            (if ctx_cb (to_ctx n) \<noteq> NULL then do {
               let c = ctx_invoke (to_ctx n);
               (h, lst) \<leftarrow> invoke c (h, lst);
               Some (h, lst, calls @ [c])
             }
             else Some (h, lst, calls));
          hd \<leftarrow> deref h (tl_head lst);
          let lst = lst\<lparr>tl_head := to_next hd\<rparr>;
          (h, new) \<leftarrow> r_to_cb_internal_free h cur;
          r_timeout_cblist_update_loop invoke ts h lst (ret + 1) calls (freed @ new)
        }
      })"

definition r_timeout_cblist_update ::
  "(cb_call \<Rightarrow> tostore \<times> RTimeoutCBList \<Rightarrow> (tostore \<times> RTimeoutCBList) option) \<Rightarrow> ruint64
   \<Rightarrow> tostore \<Rightarrow> RTimeoutCBList
   \<Rightarrow> (rsize \<times> tostore \<times> RTimeoutCBList \<times> cb_call list \<times> notify_call list) option" where
  "r_timeout_cblist_update invoke ts h lst = do {
     (h, lst, ret, calls, freed) \<leftarrow> r_timeout_cblist_update_loop invoke ts h lst 0 [] [];
     (h, lst) \<leftarrow>
       (if tl_head lst \<noteq> NULL then do { h \<leftarrow> assign h (tl_head lst) (set_toprev NULL); Some (h, lst) }
        else Some (h, lst\<lparr>tl_tail := NULL\<rparr>));
     Some (ret, h, lst\<lparr>tl_size := tl_size lst - ret\<rparr>, calls, freed)
   }"

section \<open>The invariant\<close>

interpretation tol: dnode to_next to_prev set_tonext set_toprev
  by unfold_locales simp_all

abbreviation to_time :: "tostore \<Rightarrow> rpointer \<Rightarrow> ruint64" where
  "to_time h p \<equiv> to_ts (the (h p))"

text \<open>The entries \<open>ps\<close> of a list, in the order of their deadlines.\<close>

definition tl_inv :: "rpointer \<Rightarrow> tostore \<Rightarrow> RTimeoutCBList \<Rightarrow> rpointer list \<Rightarrow> bool" where
  "tl_inv self h lst ps \<longleftrightarrow>
     dll to_next to_prev h NULL ps NULL \<and> h NULL = None \<and> self \<noteq> NULL \<and>
     tl_head lst = head_of ps \<and> tl_tail lst = last (NULL # ps) \<and> tl_size lst = of_nat (length ps) \<and>
     sorted (map (to_time h) ps) \<and>
     (\<forall>p \<in> set ps. to_lst (the (h p)) = self \<and> 0 < to_ref (the (h p)))"

lemma tl_inv_init: "self \<noteq> NULL \<Longrightarrow> tl_inv self (\<lambda>_. None) r_timeout_cblist_init []"
  by (simp add: tl_inv_def r_timeout_cblist_init_def)

text \<open>Two nodes that differ in their links only.\<close>

definition to_same :: "RToCB \<Rightarrow> RToCB \<Rightarrow> bool" where
  "to_same m n \<longleftrightarrow> to_ref m = to_ref n \<and> to_lst m = to_lst n \<and> to_ts m = to_ts n \<and> to_ctx m = to_ctx n"

definition to_same_at :: "tostore \<Rightarrow> tostore \<Rightarrow> rpointer \<Rightarrow> bool" where
  "to_same_at h' h p \<longleftrightarrow> (\<exists>m n. h' p = Some m \<and> h p = Some n \<and> to_same m n)"

lemma to_same_at_keeps:
  assumes "to_same_at h' h p"
  shows "to_time h' p = to_time h p" and "to_lst (the (h' p)) = to_lst (the (h p))" and "to_ref (the (h' p)) = to_ref (the (h p))"
  using assms by (auto simp: to_same_at_def to_same_def)

lemma to_same_map_option:
  assumes "h' p = map_option f (h p)" "h p = Some n" "to_same (f n) n"
  shows "to_same_at h' h p"
  using assms by (simp add: to_same_at_def)

section \<open>Insertion\<close>

lemma backwards_loop:
  assumes "dll to_next to_prev h q (x # ys) r" "\<forall>y \<in> set ys. ts < to_time h y" "to_time h x \<le> ts"
  shows "insert_backwards_loop h ts (last (x # ys)) = Some x"
  using assms
proof (induction ys arbitrary: r rule: rev_induct)
  case Nil
  then show ?case by (subst insert_backwards_loop.simps) auto
next
  case (snoc y ys)
  have seg: "dll to_next to_prev h q (x # ys) y"
    using snoc.prems(1) dll_append [of to_next to_prev h q "x # ys" "[y]" r] by simp
  obtain n where n: "h y = Some n" "y \<noteq> NULL" "to_prev n = last (x # ys)"
    using snoc.prems(1) dll_append [of to_next to_prev h q "x # ys" "[y]" r] by auto
  have "ts < to_ts n" using snoc.prems(2) n(1) by auto
  with n snoc.IH [OF seg] snoc.prems(2,3) show ?case
    by (subst insert_backwards_loop.simps) simp
qed

lemma forwards_loop:
  assumes "dll to_next to_prev h q (xs @ [y]) r" "\<forall>x \<in> set xs. to_time h x \<le> ts" "ts < to_time h y"
  shows "insert_forwards_loop h ts (hd (xs @ [y])) = Some y"
  using assms
proof (induction xs arbitrary: q)
  case Nil
  then show ?case by (subst insert_forwards_loop.simps) auto
next
  case (Cons x xs)
  obtain n where n: "h x = Some n" "x \<noteq> NULL" "to_next n = hd (xs @ [y])"
    using Cons.prems(1) by (auto simp: hd_append split: if_splits)
  have "to_ts n \<le> ts" using Cons.prems(2) n(1) by auto
  with n Cons.IH [of x] Cons.prems show ?case
    by (subst insert_forwards_loop.simps) simp
qed

text \<open>The four cases of the insertion link the node between the same two parts.\<close>

lemma internal_insert_run:
  assumes dll: "dll to_next to_prev h NULL (xs @ ys) NULL" and null: "h NULL = None"
    and new: "new \<notin> set (xs @ ys)" "new \<noteq> NULL" "h new = Some n" "to_next n = NULL" "to_prev n = NULL"
    and xs: "\<forall>x \<in> set xs. to_time h x \<le> to_ts n" and ys: "\<forall>y \<in> set ys. to_ts n < to_time h y"
    and lst: "tl_head lst = head_of (xs @ ys)" "tl_tail lst = last (NULL # xs @ ys)" "tl_size lst = of_nat (length (xs @ ys))"
  shows "\<exists>h'. r_timeout_cblist_internal_insert self h lst new
       = Some (h', \<lparr>tl_head = head_of (xs @ new # ys), tl_tail = last (xs @ new # ys), tl_size = of_nat (Suc (length (xs @ ys)))\<rparr>) \<and>
     h' new = Some (n\<lparr>to_lst := self, to_next := head_of ys, to_prev := last (NULL # xs)\<rparr>) \<and>
     (\<forall>a. a \<noteq> new \<longrightarrow> h' a = map_option
        ((if a = last (NULL # xs) then set_tonext new else id) \<circ> (if a = head_of ys then set_toprev new else id)) (h a))"
proof -
  let ?n = "n\<lparr>to_lst := self\<rparr>"
  let ?h = "h(new \<mapsto> ?n)"
  have d: "distinct (xs @ ys)" using dll_distinct [OF dll] .
  have nd: "\<exists>m. h a = Some m \<and> a \<noteq> NULL \<and> a \<noteq> new" if "a \<in> set (xs @ ys)" for a
    using dll_nodes [OF dll that] new(1) that by auto
  have ndx: "\<exists>m. h a = Some m \<and> a \<noteq> NULL \<and> a \<noteq> new \<and> to_ts m \<le> to_ts n" if "a \<in> set xs" for a
    using nd [of a] xs that by force
  have ndy: "\<exists>m. h a = Some m \<and> a \<noteq> NULL \<and> a \<noteq> new \<and> to_ts n < to_ts m" if "a \<in> set ys" for a
    using nd [of a] ys that by force
  have dll': "dll to_next to_prev ?h NULL (xs @ ys) NULL" using dll new(1) by simp
  have lst_eq: "lst = \<lparr>tl_head = head_of (xs @ ys), tl_tail = last (NULL # xs @ ys), tl_size = of_nat (length (xs @ ys))\<rparr>"
    using lst by (cases lst) simp
  consider (empty) "xs = []" "ys = []" | (last) "xs \<noteq> []" "ys = []" | (first) "xs = []" "ys \<noteq> []"
    | (mid) "xs \<noteq> []" "ys \<noteq> []" by blast
  then show ?thesis
  proof cases
    case empty
    then show ?thesis
      using new null lst by (cases lst) (simp add: r_timeout_cblist_internal_insert_def option.map_id add.commute)
  next
    case last
    obtain m where m: "h (last xs) = Some m" "last xs \<noteq> NULL" "last xs \<noteq> new" "to_ts m \<le> to_ts n"
      using ndx [OF last_in_set [OF last(1)]] by blast
    obtain k where k: "h (hd xs) = Some k" "hd xs \<noteq> NULL" "hd xs \<noteq> new" using nd [of "hd xs"] last by auto
    show ?thesis
      using last m k new null unfolding lst_eq
      by (auto simp: r_timeout_cblist_internal_insert_def option.map_id add.commute hd_append Let_def)
  next
    case first
    obtain m where m: "h (hd ys) = Some m" "hd ys \<noteq> NULL" "hd ys \<noteq> new" "to_ts n < to_ts m"
      using ndy [OF hd_in_set [OF first(2)]] by blast
    obtain k where k: "h (last ys) = Some k" "last ys \<noteq> NULL" "last ys \<noteq> new" "to_ts n < to_ts k"
      using ndy [OF last_in_set [OF first(2)]] by blast
    show ?thesis
      using first m k new null unfolding lst_eq
      by (auto simp: r_timeout_cblist_internal_insert_def option.map_id add.commute hd_append Let_def not_le)
  next
    case mid
    then obtain us x where us: "xs = us @ [x]" by (cases xs rule: rev_cases) auto
    obtain y vs where vs: "ys = y # vs" using mid by (cases ys) auto
    obtain mx where x: "h x = Some mx" "x \<noteq> NULL" "x \<noteq> new" "to_next mx = y" "to_ts mx \<le> to_ts n"
      using dll xs new(1) by (auto simp: us vs dll_append)
    obtain my where y: "h y = Some my" "y \<noteq> NULL" "y \<noteq> new" "to_prev my = x" "to_ts n < to_ts my"
      using dll ys new(1) by (auto simp: us vs dll_append)
    obtain mh where hd: "h (hd xs) = Some mh" "hd xs \<noteq> NULL" "hd xs \<noteq> new" "to_ts mh \<le> to_ts n"
      using ndx [OF hd_in_set [OF mid(1)]] by blast
    obtain ml where tl: "h (last ys) = Some ml" "last ys \<noteq> NULL" "last ys \<noteq> new" "to_ts n < to_ts ml"
      using ndy [OF last_in_set [OF mid(2)]] by blast
    have ne: "x \<noteq> y" using d by (simp add: us vs)
    have fwd: "insert_forwards_loop ?h (to_ts n) (to_next mh) = Some y"
    proof (cases us)
      case Nil
      with hd(1) x us have "to_next mh = y" by simp
      then show ?thesis using y by (subst insert_forwards_loop.simps) auto
    next
      case (Cons u us')
      have seg: "dll to_next to_prev ?h u (us' @ [x, y]) (hd (vs @ [NULL]))"
        using dll' by (simp add: us vs Cons dll_append)
      have "to_next mh = hd ((us' @ [x]) @ [y])" using dll hd(1) by (simp add: us vs Cons hd_append dll_append split: if_splits)
      moreover have "insert_forwards_loop ?h (to_ts n) (hd ((us' @ [x]) @ [y])) = Some y"
        by (rule forwards_loop) (use seg xs y new(1) in \<open>auto simp: us Cons vs\<close>)
      ultimately show ?thesis by simp
    qed
    have bwd: "insert_backwards_loop ?h (to_ts n) (to_prev ml) = Some x"
    proof (cases vs rule: rev_cases)
      case Nil
      with tl(1) y vs have "to_prev ml = x" by simp
      then show ?thesis using x by (subst insert_backwards_loop.simps) auto
    next
      case (snoc vs' v)
      have seg: "dll to_next to_prev ?h (last (NULL # us)) (x # y # vs') v"
        using dll' dll_append [of to_next to_prev ?h NULL us "x # y # vs' @ [v]" NULL]
          dll_append [of to_next to_prev ?h "last (NULL # us)" "x # y # vs'" "[v]" NULL] by (simp add: us vs snoc)
      have "to_prev ml = last (x # y # vs')"
        using dll tl(1) dll_append [of to_next to_prev h NULL "us @ x # y # vs'" "[v]" NULL] by (auto simp: us vs snoc)
      moreover have "insert_backwards_loop ?h (to_ts n) (last (x # y # vs')) = Some x"
        by (rule backwards_loop [OF seg]) (use ys x new(1) in \<open>auto simp: vs snoc\<close>)
      ultimately show ?thesis by simp
    qed
    have heads: "head_of (xs @ ys) = hd xs" "last (NULL # xs @ ys) = last ys" "head_of (xs @ new # ys) = hd xs"
      "last (xs @ new # ys) = last ys" "head_of ys = y" "last (NULL # xs) = x"
      using mid us vs by (simp_all add: hd_append)
    show ?thesis
      unfolding lst_eq heads using hd tl x y new ne fwd bwd null
      by (cases "to_ts ml - to_ts n < to_ts n - to_ts mh")
        (auto simp: r_timeout_cblist_internal_insert_def option.map_id add.commute Let_def not_le)
  qed
qed

text \<open>A sorted list split at a deadline.\<close>

lemma sorted_split:
  fixes f :: "'a \<Rightarrow> 'b :: linorder"
  assumes "sorted (map f ps)"
  shows "\<forall>p \<in> set (takeWhile (\<lambda>p. f p \<le> t) ps). f p \<le> t" and "\<forall>p \<in> set (dropWhile (\<lambda>p. f p \<le> t) ps). t < f p"
proof -
  show "\<forall>p \<in> set (takeWhile (\<lambda>p. f p \<le> t) ps). f p \<le> t" using set_takeWhileD by fastforce
  show "\<forall>p \<in> set (dropWhile (\<lambda>p. f p \<le> t) ps). t < f p"
    using assms
  proof (induction ps)
    case (Cons a ps)
    then show ?case by (cases "f a \<le> t") (auto simp: not_le intro: less_le_trans)
  qed simp
qed

text \<open>A node linked in between two parts at its deadline keeps the invariant.\<close>

lemma tl_inv_link:
  assumes inv: "tl_inv self h lst (xs @ ys)" and new: "h new = None" "new \<noteq> NULL"
    and n: "h' new = Some n" "to_lst n = self" "to_next n = head_of ys" "to_prev n = last (NULL # xs)" "0 < to_ref n"
    and h': "\<And>a. a \<noteq> new \<Longrightarrow> h' a = map_option
        ((if a = last (NULL # xs) then set_tonext new else id) \<circ> (if a = head_of ys then set_toprev new else id)) (h a)"
    and xs: "\<forall>x \<in> set xs. to_time h x \<le> to_ts n" and ys: "\<forall>y \<in> set ys. to_ts n < to_time h y"
  shows "tl_inv self h' \<lparr>tl_head = head_of (xs @ new # ys), tl_tail = last (xs @ new # ys),
      tl_size = of_nat (Suc (length (xs @ ys)))\<rparr> (xs @ new # ys)" (is ?inv)
    and "\<forall>p \<in> set (xs @ ys). to_same_at h' h p" (is ?same)
proof -
  have dll: "dll to_next to_prev h NULL (xs @ ys) NULL" using inv by (simp add: tl_inv_def)
  have fresh: "a \<noteq> new" if "a \<in> set (xs @ ys)" for a using dll_nodes(2) [OF dll that] new by fastforce
  have d: "distinct (xs @ ys)" using dll_distinct [OF dll] .
  have null: "h NULL = None" "\<forall>a \<in> set (xs @ ys). a \<noteq> NULL"
    using inv dll_nodes(1) [OF dll] by (auto simp: tl_inv_def)
  have hx: "\<forall>a \<in> set xs. h' a = map_option (if a = last xs then set_tonext new else id) (h a)"
  proof
    fix a assume a: "a \<in> set xs"
    then have "a \<noteq> head_of ys" "xs \<noteq> []" using d null by (cases ys; auto)+
    then show "h' a = map_option (if a = last xs then set_tonext new else id) (h a)"
      using h' [of a] a fresh [of a] by simp
  qed
  have hy: "\<forall>a \<in> set ys. h' a = map_option (if a = hd ys then set_toprev new else id) (h a)"
  proof
    fix a assume a: "a \<in> set ys"
    then have "a \<noteq> last (NULL # xs)" "ys \<noteq> []" using d null by (cases xs rule: rev_cases; auto)+
    then show "h' a = map_option (if a = hd ys then set_toprev new else id) (h a)"
      using h' [of a] a fresh [of a] by simp
  qed
  have dll': "dll to_next to_prev h' NULL (xs @ new # ys) NULL"
    by (rule tol.link [OF dll d new(2) n(1) _ _ hx hy]) (use n in simp_all)
  have same: "to_same_at h' h p" if p: "p \<in> set (xs @ ys)" for p
    using dll_nodes(2) [OF dll p] h' [OF fresh [OF p]] by (auto intro!: to_same_map_option simp: to_same_def)
  then show ?same by blast
  have props: "to_time h' p = to_time h p \<and> to_lst (the (h' p)) = self \<and> 0 < to_ref (the (h' p))" if "p \<in> set (xs @ ys)" for p
    using to_same_at_keeps [OF same [OF that]] that inv by (simp add: tl_inv_def)
  have eq: "map (to_time h') (xs @ new # ys) = map (to_time h) xs @ to_ts n # map (to_time h) ys"
    using props n by simp
  have "sorted (map (to_time h) xs @ map (to_time h) ys)" using inv by (simp add: tl_inv_def)
  then have sorted: "sorted (map (to_time h') (xs @ new # ys))"
    unfolding eq using xs ys by (simp add: sorted_append less_imp_le)
  have "h' NULL = None" using h' [of NULL] null(1) new(2) by simp
  then show ?inv using dll' sorted props n inv by (auto simp: tl_inv_def)
qed

text \<open>
  C18. Inserting a timeout is a stable insertion into a sorted list: the entry goes behind every
  entry whose deadline is not later and before every later one, whichever end the search starts
  from; the other entries keep their deadline and callback, the invariant holds afterwards, and the
  handle holds a reference of its own.
\<close>

theorem r_timeout_cblist_insert_sorted:
  assumes inv: "tl_inv self h lst ps" and new: "h new = None" "new \<noteq> NULL"
  shows "\<exists>h' lst'. r_timeout_cblist_insert self h lst new want ts ctx
           = Some (True, (if want then new else NULL), h', lst') \<and>
         tl_inv self h' lst' (takeWhile (\<lambda>p. to_time h p \<le> ts) ps @ new # dropWhile (\<lambda>p. to_time h p \<le> ts) ps) \<and>
         (\<exists>n. h' new = Some n \<and> to_ts n = ts \<and> to_ctx n = ctx \<and> to_ref n = (if want then 2 else 1)) \<and>
         (\<forall>p \<in> set ps. to_same_at h' h p)"
proof -
  define xs where "xs = takeWhile (\<lambda>p. to_time h p \<le> ts) ps"
  define ys where "ys = dropWhile (\<lambda>p. to_time h p \<le> ts) ps"
  define n where "n = \<lparr>to_ref = 1, to_lst = NULL, to_next = NULL, to_prev = NULL, to_ts = ts, to_ctx = ctx\<rparr>"
  define m where "m = n\<lparr>to_ref := (if want then 2 else 1), to_lst := self, to_next := head_of ys, to_prev := last (NULL # xs)\<rparr>"
  define lst' where "lst' = \<lparr>tl_head = head_of (xs @ new # ys), tl_tail = last (xs @ new # ys), tl_size = of_nat (Suc (length (xs @ ys)))\<rparr>"
  let ?h = "h(new \<mapsto> n)"
  have ps: "ps = xs @ ys" by (simp add: xs_def ys_def)
  have inv': "tl_inv self h lst (xs @ ys)" using inv ps by simp
  then have dll: "dll to_next to_prev h NULL (xs @ ys) NULL" by (simp add: tl_inv_def)
  have fresh: "new \<notin> set (xs @ ys)" using dll_nodes(2) [OF dll] new by fastforce
  have xs: "\<forall>x \<in> set xs. to_time h x \<le> ts" and ys: "\<forall>y \<in> set ys. ts < to_time h y"
    using sorted_split [of "to_time h" ps ts] inv by (auto simp: tl_inv_def xs_def ys_def)
  have xs': "\<forall>x \<in> set xs. to_time ?h x \<le> to_ts n" and ys': "\<forall>y \<in> set ys. to_ts n < to_time ?h y"
    using xs ys fresh by (auto simp: n_def)
  obtain h1 where run: "r_timeout_cblist_internal_insert self ?h lst new = Some (h1, lst')"
    and h1new: "h1 new = Some (n\<lparr>to_lst := self, to_next := head_of ys, to_prev := last (NULL # xs)\<rparr>)"
    and h1: "\<forall>a. a \<noteq> new \<longrightarrow> h1 a = map_option
        ((if a = last (NULL # xs) then set_tonext new else id) \<circ> (if a = head_of ys then set_toprev new else id)) (?h a)"
    using internal_insert_run [of ?h xs ys new n lst self, OF _ _ fresh new(2) _ _ _ xs' ys'] inv' fresh new dll
    unfolding lst'_def by (auto simp: tl_inv_def n_def)
  define h2 where "h2 = h1(new \<mapsto> m)"
  have h2: "h2 a = map_option ((if a = last (NULL # xs) then set_tonext new else id) \<circ> (if a = head_of ys then set_toprev new else id)) (h a)"
    if "a \<noteq> new" for a using h1 that by (simp add: h2_def)
  have "h1(new := Some (n\<lparr>to_lst := self, to_next := head_of ys, to_prev := last (NULL # xs)\<rparr>)) = h1"
    using h1new by auto
  then have "r_timeout_cblist_insert self h lst new want ts ctx = Some (True, (if want then new else NULL), h2, lst')"
    using run new h1new
    by (cases "xs = []") (simp_all add: r_timeout_cblist_insert_def r_to_cb_alloc_def r_to_cb_ref_def n_def m_def h2_def numeral_2_eq_2)
  moreover have "tl_inv self h2 lst' (xs @ new # ys)" "\<forall>p \<in> set (xs @ ys). to_same_at h2 h p"
    using tl_inv_link [of self h lst xs ys new h2 m] inv' new h2 xs ys
    unfolding lst'_def by (auto simp: h2_def m_def n_def)
  ultimately show ?thesis
    unfolding xs_def [symmetric] ys_def [symmetric] by (auto simp: h2_def m_def n_def ps)
qed

section \<open>Firing\<close>

text \<open>What giving up the reference of the list does to an entry.\<close>

definition to_released :: "RToCB \<Rightarrow> RToCB option" where
  "to_released n = (if to_ref n = 1 then None
     else Some (n\<lparr>to_next := NULL, to_prev := NULL, to_lst := NULL, to_ref := to_ref n - 1\<rparr>))"

definition to_notifies :: "RToCB \<Rightarrow> notify_call list" where
  "to_notifies n = (if to_ref n = 1 then r_to_cb_deinit n else [])"

lemma internal_free_spec:
  assumes "h p = Some n" "p \<noteq> NULL"
  shows "r_to_cb_internal_free h p = Some (h(p := to_released n), to_notifies n)"
  using assms by (auto simp: r_to_cb_internal_free_def r_to_cb_unref_def r_to_cb_free_def to_released_def
      to_notifies_def r_to_cb_deinit_def)

abbreviation to_expired :: "tostore \<Rightarrow> ruint64 \<Rightarrow> rpointer list \<Rightarrow> rpointer list" where
  "to_expired h ts ps \<equiv> takeWhile (\<lambda>p. to_time h p \<le> ts) ps"

abbreviation to_pending :: "tostore \<Rightarrow> ruint64 \<Rightarrow> rpointer list \<Rightarrow> rpointer list" where
  "to_pending h ts ps \<equiv> dropWhile (\<lambda>p. to_time h p \<le> ts) ps"

definition to_calls :: "tostore \<Rightarrow> rpointer list \<Rightarrow> cb_call list" where
  "to_calls h ps = map (\<lambda>p. ctx_invoke (to_ctx (the (h p)))) (filter (\<lambda>p. ctx_cb (to_ctx (the (h p))) \<noteq> NULL) ps)"

text \<open>The store in which the entries of \<open>ps\<close> have been released.\<close>

definition to_release_all :: "tostore \<Rightarrow> rpointer list \<Rightarrow> tostore" where
  "to_release_all h ps = (\<lambda>p. if p \<in> set ps then Option.bind (h p) to_released else h p)"

lemma update_loop_spec:
  assumes "dll to_next to_prev h q ps NULL" "distinct ps" "tl_head lst = head_of ps" "h NULL = None"
    and quiet: "\<And>c s. invoke c s = Some s"
  shows "r_timeout_cblist_update_loop invoke ts h lst ret calls freed
    = Some (to_release_all h (to_expired h ts ps), lst\<lparr>tl_head := head_of (to_pending h ts ps)\<rparr>,
        ret + of_nat (length (to_expired h ts ps)), calls @ to_calls h (to_expired h ts ps),
        freed @ concat (map (\<lambda>p. to_notifies (the (h p))) (to_expired h ts ps)))"
  using assms(1-4)
proof (induction ps arbitrary: h q lst ret calls freed)
  case Nil
  then show ?case
    by (subst r_timeout_cblist_update_loop.simps) (simp add: to_release_all_def to_calls_def)
next
  case (Cons p ps)
  obtain n where n: "h p = Some n" "p \<noteq> NULL" "to_next n = head_of ps" "dll to_next to_prev h p ps NULL" "p \<notin> set ps"
    using Cons.prems by auto
  show ?case
  proof (cases "ts < to_ts n")
    case True
    then have "(to_ts n \<le> ts) = False" by auto
    with True n Cons.prems show ?thesis
      by (subst r_timeout_cblist_update_loop.simps) (simp add: to_release_all_def to_calls_def)
  next
    case False
    let ?h = "h(p := to_released n)"
    have same: "to_time ?h a = to_time h a" "the (?h a) = the (h a)" if "a \<in> set ps" for a using that n by auto
    have ex: "to_expired ?h ts ps = to_expired h ts ps" "to_pending ?h ts ps = to_pending h ts ps"
      by (rule takeWhile_cong [OF refl] dropWhile_cong [OF refl], simp only: same)+
    have in_ps: "set (to_expired h ts ps) \<subseteq> set ps" by (auto dest: set_takeWhileD)
    have rel: "to_release_all ?h (to_expired h ts ps) = to_release_all h (p # to_expired h ts ps)"
      using in_ps n by (auto simp: to_release_all_def fun_eq_iff)
    have nots: "map (\<lambda>p. to_notifies (the (?h p))) (to_expired h ts ps) = map (\<lambda>p. to_notifies (the (h p))) (to_expired h ts ps)"
      and calls: "to_calls ?h (to_expired h ts ps) = to_calls h (to_expired h ts ps)"
      using in_ps n by (auto simp: to_calls_def intro!: map_cong filter_cong arg_cong [where f = "map _"])
    have c: "to_calls h (p # to_expired h ts ps) = to_calls h [p] @ to_calls h (to_expired h ts ps)"
      by (simp add: to_calls_def)
    have dll': "dll to_next to_prev ?h p ps NULL" and null': "?h NULL = None" "distinct ps"
      using n Cons.prems by (simp_all add: dll_frame)
    have IH: "r_timeout_cblist_update_loop invoke ts ?h (lst\<lparr>tl_head := head_of ps\<rparr>) (ret + 1) (calls @ to_calls h [p]) (freed @ to_notifies n)
      = Some (to_release_all ?h (to_expired ?h ts ps), (lst\<lparr>tl_head := head_of ps\<rparr>)\<lparr>tl_head := head_of (to_pending ?h ts ps)\<rparr>,
        ret + 1 + of_nat (length (to_expired ?h ts ps)), (calls @ to_calls h [p]) @ to_calls ?h (to_expired ?h ts ps),
        (freed @ to_notifies n) @ concat (map (\<lambda>p. to_notifies (the (?h p))) (to_expired ?h ts ps)))"
      by (rule Cons.IH [OF dll' null'(2) _ null'(1)]) simp
    have "r_timeout_cblist_update_loop invoke ts h lst ret calls freed
      = r_timeout_cblist_update_loop invoke ts ?h (lst\<lparr>tl_head := head_of ps\<rparr>) (ret + 1)
          (calls @ to_calls h [p]) (freed @ to_notifies n)"
      using False n Cons.prems internal_free_spec [of h p n, OF n(1,2)]
      by (subst r_timeout_cblist_update_loop.simps) (simp add: quiet to_calls_def)
    also have "\<dots> = Some (to_release_all h (p # to_expired h ts ps), lst\<lparr>tl_head := head_of (to_pending h ts ps)\<rparr>,
        ret + of_nat (length (p # to_expired h ts ps)), calls @ to_calls h (p # to_expired h ts ps),
        freed @ concat (map (\<lambda>p. to_notifies (the (h p))) (p # to_expired h ts ps)))"
      unfolding IH ex rel nots calls c by (simp add: n(1) add.assoc)
    finally show ?thesis using False n by (simp add: not_less)
  qed
qed

lemma head_of_in_set [simp]: "(hd (ps @ [NULL]) = NULL) = (ps = [] \<or> hd ps = NULL)"
  by (cases ps) auto

text \<open>
  C19. With callbacks that leave the list alone, an update fires exactly the entries whose deadline
  has passed, in the order of their deadlines and each once, gives up the list's reference of each,
  returns their number and keeps the others, in order, as the list.
\<close>

theorem r_timeout_cblist_update_fires:
  assumes inv: "tl_inv self h lst ps" and quiet: "\<And>c s. invoke c s = Some s"
  shows "\<exists>h' lst'. r_timeout_cblist_update invoke ts h lst
      = Some (of_nat (length (to_expired h ts ps)), h', lst', to_calls h (to_expired h ts ps),
          concat (map (\<lambda>p. to_notifies (the (h p))) (to_expired h ts ps))) \<and>
      tl_inv self h' lst' (to_pending h ts ps) \<and>
      (\<forall>p \<in> set (to_pending h ts ps). ts < to_time h p \<and> to_same_at h' h p) \<and>
      (\<forall>p \<in> set (to_expired h ts ps). to_time h p \<le> ts \<and> h' p = to_released (the (h p)))"
proof -
  define xs where "xs = to_expired h ts ps"
  define ys where "ys = to_pending h ts ps"
  define h1 where "h1 = to_release_all h xs"
  define lst' where "lst' = lst\<lparr>tl_head := head_of ys, tl_tail := last (NULL # ys), tl_size := of_nat (length ys)\<rparr>"
  have ps: "ps = xs @ ys" by (simp add: xs_def ys_def)
  have dll: "dll to_next to_prev h NULL (xs @ ys) NULL" using inv by (simp add: tl_inv_def ps)
  have d: "distinct (xs @ ys)" using dll_distinct [OF dll] .
  have bounds: "\<forall>p \<in> set xs. to_time h p \<le> ts" "\<forall>p \<in> set ys. ts < to_time h p"
    using sorted_split [of "to_time h" ps ts] inv by (auto simp: tl_inv_def xs_def ys_def)
  have loop: "r_timeout_cblist_update_loop invoke ts h lst 0 [] []
      = Some (h1, lst\<lparr>tl_head := head_of ys\<rparr>, of_nat (length xs), to_calls h xs, concat (map (\<lambda>p. to_notifies (the (h p))) xs))"
    using update_loop_spec [of h NULL ps lst invoke ts 0 "[]" "[]"] dll d inv quiet
    by (simp add: ps [symmetric] tl_inv_def xs_def ys_def h1_def)
  have h1: "h1 p = h p" if "p \<in> set ys" for p using that d by (auto simp: h1_def to_release_all_def)
  have seg: "dll to_next to_prev h1 (last (NULL # xs)) ys NULL"
    by (rule dll_cong [of _ _ h]) (use dll h1 in \<open>auto simp: dll_append\<close>)
  define h2 where "h2 = (if ys = [] then h1 else h1(hd ys := map_option (set_toprev NULL) (h1 (hd ys))))"
  have h2: "h2 a = map_option (if a = hd ys then set_toprev NULL else id) (h a)" if "a \<in> set ys" for a
    using h1 [OF that] that by (cases ys) (auto simp: h2_def option.map_id)
  have dll2: "dll to_next to_prev h2 NULL ys NULL"
    by (rule tol.retarget_first [OF seg]) (use h1 h2 d in auto)
  have same: "to_same_at h2 h p" if p: "p \<in> set ys" for p
    using dll_nodes(2) [OF dll, of p] h2 [OF p] p by (auto intro!: to_same_map_option simp: to_same_def)
  have run: "r_timeout_cblist_update invoke ts h lst
      = Some (of_nat (length xs), h2, lst', to_calls h xs, concat (map (\<lambda>p. to_notifies (the (h p))) xs))"
    using loop seg inv
    by (cases ys) (auto simp: r_timeout_cblist_update_def h2_def lst'_def tl_inv_def ps)
  have props: "to_time h2 p = to_time h p \<and> to_lst (the (h2 p)) = self \<and> 0 < to_ref (the (h2 p))" if "p \<in> set ys" for p
    using to_same_at_keeps [OF same [OF that]] that inv ps by (simp add: tl_inv_def)
  then have eq: "map (to_time h2) ys = map (to_time h) ys" by simp
  have "sorted (map (to_time h2) ys)" unfolding eq using inv by (simp add: tl_inv_def ps sorted_append)
  moreover have "h2 NULL = None" using inv dll_nodes(1) [OF dll] by (cases ys) (auto simp: h2_def h1_def to_release_all_def tl_inv_def)
  ultimately have "tl_inv self h2 lst' ys" using dll2 props inv by (simp add: tl_inv_def lst'_def)
  moreover have "h2 p = to_released (the (h p))" if p: "p \<in> set xs" for p
  proof -
    have "p \<noteq> hd ys \<or> ys = []" using p d hd_in_set [of ys] by auto
    then show ?thesis using p dll_nodes(2) [OF dll, of p] by (auto simp: h2_def h1_def to_release_all_def)
  qed
  ultimately show ?thesis
    using run same bounds unfolding xs_def ys_def by blast
qed

section \<open>Cancelling\<close>

lemma cancel_run:
  assumes inv: "tl_inv self h lst (xs @ p # ys)" and p: "h p = Some n"
  shows "\<exists>h'. r_timeout_cblist_cancel self h lst p
      = Some (True, h', \<lparr>tl_head = head_of (xs @ ys), tl_tail = last (NULL # xs @ ys), tl_size = of_nat (length (xs @ ys))\<rparr>, to_notifies n) \<and>
     h' p = to_released n \<and>
     (\<forall>a. a \<noteq> p \<longrightarrow> h' a = map_option
        ((if a = last (NULL # xs) then set_tonext (head_of ys) else id) \<circ> (if a = head_of ys then set_toprev (last (NULL # xs)) else id)) (h a))"
proof -
  define l r where lr: "l = last (NULL # xs)" "r = head_of ys"
  have dll: "dll to_next to_prev h NULL (xs @ p # ys) NULL" using inv by (simp add: tl_inv_def)
  have d: "distinct (xs @ p # ys)" using dll_distinct [OF dll] .
  have n: "to_next n = r" "to_prev n = l" "p \<noteq> NULL" "to_lst n = self" "h NULL = None"
    using dll p inv by (auto simp: tl_inv_def dll_append lr)
  have ends: "l \<noteq> p" "r \<noteq> p" "l \<noteq> r \<or> l = NULL"
    "l \<noteq> NULL \<Longrightarrow> \<exists>m. h l = Some m" "r \<noteq> NULL \<Longrightarrow> \<exists>m. h r = Some m"
    using dll d n(3) unfolding lr by (cases xs rule: rev_cases; cases ys; auto simp: dll_append)+
  obtain H T where lst: "lst = \<lparr>tl_head = H, tl_tail = T, tl_size = of_nat (length (xs @ ys)) + 1\<rparr>"
    and H: "(if p = H then r else H) = head_of (xs @ ys)" and T: "(if p = T then l else T) = last (NULL # xs @ ys)"
  proof (rule that)
    show "lst = \<lparr>tl_head = tl_head lst, tl_tail = tl_tail lst, tl_size = of_nat (length (xs @ ys)) + 1\<rparr>"
      using inv by (cases lst) (simp add: tl_inv_def)
    show "(if p = tl_head lst then r else tl_head lst) = head_of (xs @ ys)"
      using inv d by (cases xs) (auto simp: tl_inv_def lr)
    show "(if p = tl_tail lst then l else tl_tail lst) = last (NULL # xs @ ys)"
      using inv d by (cases ys rule: rev_cases) (auto simp: tl_inv_def lr)
  qed
  define A where "A = (if l = NULL then h else h(l := map_option (set_tonext r) (h l)))"
  define B where "B = (if r = NULL then A else A(r := map_option (set_toprev l) (A r)))"
  have AB: "A p = Some n" "B p = Some n" using p ends by (auto simp: A_def B_def)
  have A: "(if l \<noteq> NULL then assign h l (set_tonext r) else Some h) = Some A"
    using ends(4) by (auto simp: A_def)
  have B: "(if r \<noteq> NULL then assign A r (set_toprev l) else Some A) = Some B"
    using ends(3,5) by (auto simp: A_def B_def)
  have "r_timeout_cblist_cancel self h lst p
    = Some (True, B(p := to_released n), \<lparr>tl_head = head_of (xs @ ys), tl_tail = last (NULL # xs @ ys), tl_size = of_nat (length (xs @ ys))\<rparr>, to_notifies n)"
    unfolding H [symmetric] T [symmetric] using n p A B AB internal_free_spec [of B p n]
    by (cases "l = NULL"; cases "r = NULL"; cases "p = H"; cases "p = T") (simp_all add: r_timeout_cblist_cancel_def lst)
  moreover have "B a = map_option
        ((if a = l then set_tonext r else id) \<circ> (if a = r then set_toprev l else id)) (h a)" for a
    using n(5) ends(3) by (auto simp: A_def B_def option.map_id option.map_comp)
  ultimately show ?thesis unfolding lr by auto
qed


section \<open>Callbacks that cancel their own entry\<close>

text \<open>
  Two pending timeouts, due at 5 and at 7.  A callback gets its own handle as its data, and the
  caller holds a reference of the first entry.
\<close>

definition to_ex :: tostore where
  "to_ex = (\<lambda>_. None)
     (1 \<mapsto> \<lparr>to_ref = 2, to_lst = 99, to_next = 2, to_prev = 0, to_ts = 5, to_ctx = r_func_callback_ctx_init 7 1 0 0 0\<rparr>,
      2 \<mapsto> \<lparr>to_ref = 1, to_lst = 99, to_next = 0, to_prev = 1, to_ts = 7, to_ctx = r_func_callback_ctx_init 7 2 0 0 0\<rparr>)"

definition to_ex_list :: RTimeoutCBList where
  "to_ex_list = \<lparr>tl_head = 1, tl_tail = 2, tl_size = 2\<rparr>"

lemma to_ex_inv: "tl_inv 99 to_ex to_ex_list [1, 2]"
  by (simp add: tl_inv_def to_ex_def to_ex_list_def)

text \<open>The effect of a callback that cancels the entry \<open>p\<close> of the list.\<close>

definition cancel_effect ::
  "rpointer \<Rightarrow> rpointer \<Rightarrow> tostore \<times> RTimeoutCBList \<Rightarrow> (tostore \<times> RTimeoutCBList) option" where
  "cancel_effect self p s = (case s of (h, lst) \<Rightarrow>
     map_option (\<lambda>(_, h, lst, _). (h, lst)) (r_timeout_cblist_cancel self h lst p))"

theorem r_timeout_cblist_insert_sorted_witness:
  "\<exists>h' lst'. r_timeout_cblist_insert 99 to_ex to_ex_list 3 True 6 (r_func_callback_ctx_init 7 0 0 0 0)
     = Some (True, 3, h', lst') \<and> tl_inv 99 h' lst' [1, 3, 2]"
  using r_timeout_cblist_insert_sorted [OF to_ex_inv, of 3 True 6 "r_func_callback_ctx_init 7 0 0 0 0"]
  by (auto simp: to_ex_def)

theorem r_timeout_cblist_update_fires_witness:
  "\<exists>h' lst'. r_timeout_cblist_update (\<lambda>c. Some) 5 to_ex to_ex_list = Some (1, h', lst', [(7, 1, 0)], []) \<and>
     tl_inv 99 h' lst' [2]"
  using r_timeout_cblist_update_fires [OF to_ex_inv, of "\<lambda>c. Some" 5]
  by (auto simp: to_ex_def to_calls_def to_notifies_def r_func_callback_ctx_init_def ctx_invoke_def)


text \<open>
  One round of the update on a list whose first entry \<open>p\<close> cancels itself: the head moves on past
  the second entry \<open>q\<close>, and the reference of \<open>p\<close> is given up a second time.
\<close>

lemma self_cancel_loop:
  assumes inv: "tl_inv self h lst (p # q # ps)" and n: "h p = Some n" "to_ts n \<le> ts" "ts < to_time h q"
    and cb: "ctx_cb (to_ctx n) \<noteq> NULL" "invoke (ctx_invoke (to_ctx n)) (h, lst) = cancel_effect self p (h, lst)"
    and m: "to_released n = Some m"
  shows "\<exists>h'. r_timeout_cblist_update_loop invoke ts h lst 0 [] []
      = Some (h', \<lparr>tl_head = head_of ps, tl_tail = last (q # ps), tl_size = of_nat (Suc (length ps))\<rparr>, 1,
          [ctx_invoke (to_ctx n)], to_notifies m) \<and>
     h' p = to_released m \<and> h' NULL = None \<and> to_same_at h' h q \<and> (\<forall>a \<in> set ps. h' a = h a)"
proof -
  have dll: "dll to_next to_prev h NULL (p # q # ps) NULL" and null: "h NULL = None" "tl_head lst = p"
    using inv by (simp_all add: tl_inv_def)
  have d: "distinct (p # q # ps)" using dll_distinct [OF dll] .
  have nn: "p \<noteq> NULL" "q \<noteq> NULL" "\<forall>a \<in> set ps. a \<noteq> NULL" using dll_nodes(1) [OF dll] by auto
  let ?lst = "\<lparr>tl_head = q, tl_tail = last (q # ps), tl_size = of_nat (Suc (length ps))\<rparr>"
  obtain h1 where run: "r_timeout_cblist_cancel self h lst p = Some (True, h1, ?lst, to_notifies n)"
    and h1p: "h1 p = Some m"
    and h1: "\<And>a. a \<noteq> p \<Longrightarrow> h1 a = map_option ((if a = NULL then set_tonext q else id) \<circ>
        (if a = q then set_toprev NULL else id)) (h a)"
    using cancel_run [of self h lst "[]" p "q # ps" n] inv n(1) m by auto
  from dll obtain k where k: "h q = Some k" "to_next k = head_of ps" by auto
  have h1q: "h1 q = Some (k\<lparr>to_prev := NULL\<rparr>)" using h1 [of q] k(1) d nn(2) by auto
  define h2 where "h2 = h1(p := to_released m)"
  have free: "r_to_cb_internal_free h1 p = Some (h2, to_notifies m)"
    using internal_free_spec [of h1 p m, OF h1p nn(1)] by (simp add: h2_def)
  have same: "h2 a = h a" if "a \<in> set ps" for a
    using that d nn(3) h1 [of a] by (auto simp: h2_def option.map_id)
  have nxt: "\<exists>m. h2 (hd ps) = Some m \<and> hd ps \<noteq> NULL \<and> ts < to_ts m" if "ps \<noteq> []"
  proof -
    have "hd ps \<in> set (p # q # ps)" "hd ps \<in> set ps" using that by simp_all
    then have "to_time h q \<le> to_time h (hd ps)" "\<exists>m. h (hd ps) = Some m"
      using inv dll_nodes(2) [OF dll, of "hd ps"] by (auto simp: tl_inv_def)
    with n(3) same [OF \<open>hd ps \<in> set ps\<close>] nn(3) \<open>hd ps \<in> set ps\<close> show ?thesis by auto
  qed
  have stop: "r_timeout_cblist_update_loop invoke ts h2 (?lst\<lparr>tl_head := head_of ps\<rparr>) 1 calls freed
      = Some (h2, ?lst\<lparr>tl_head := head_of ps\<rparr>, 1, calls, freed)" for calls freed
    using nxt by (subst r_timeout_cblist_update_loop.simps) (cases ps; auto)
  have "r_timeout_cblist_update_loop invoke ts h lst 0 [] []
      = Some (h2, ?lst\<lparr>tl_head := head_of ps\<rparr>, 1, [ctx_invoke (to_ctx n)], to_notifies m)"
    using n(1,2) nn null cb run free h1q k(2) stop [of "[ctx_invoke (to_ctx n)]" "to_notifies m"]
    by (subst r_timeout_cblist_update_loop.simps) (simp add: cancel_effect_def)
  moreover have "to_same_at h2 h q" using h1q k(1) d by (auto simp: h2_def to_same_at_def to_same_def)
  moreover have "h2 p = to_released m" "h2 NULL = None" using h1 [of NULL] null nn by (simp_all add: h2_def)
  ultimately show ?thesis using same by auto
qed

text \<open>
  C21. A callback that cancels its own timeout breaks the list.  Take any list whose first entry
  \<open>p\<close> is due and whose second entry \<open>q\<close> is not, and let the callback of \<open>p\<close> cancel \<open>p\<close>.  If the
  list holds the only reference of \<open>p\<close>, the update uses the entry after it was freed.  Otherwise it
  returns with a list from which \<open>q\<close> is missing, although \<open>q\<close> has not fired and still names the list
  as its own, and gives up two references of \<open>p\<close>, one of them the caller's.  The update steps from
  the new head of the list instead of from the entry it fired.
\<close>

theorem r_timeout_cblist_update_self_cancel:
  assumes inv: "tl_inv self h lst (p # q # ps)" and n: "h p = Some n" "to_ts n \<le> ts" "ts < to_time h q"
    and cb: "ctx_cb (to_ctx n) \<noteq> NULL" "invoke (ctx_invoke (to_ctx n)) (h, lst) = cancel_effect self p (h, lst)"
  shows "case to_released n of
      None \<Rightarrow> r_timeout_cblist_update invoke ts h lst = None
    | Some m \<Rightarrow> \<exists>h' lst'.
        r_timeout_cblist_update invoke ts h lst = Some (1, h', lst', [ctx_invoke (to_ctx n)], to_notifies m) \<and>
        tl_inv self h' lst' ps \<and> to_same_at h' h q \<and> to_lst (the (h' q)) = self \<and> h' p = to_released m"
proof (cases "to_released n")
  case None
  have dll: "dll to_next to_prev h NULL (p # q # ps) NULL" and hd: "tl_head lst = p" using inv by (simp_all add: tl_inv_def)
  then obtain k where k: "p \<noteq> NULL" "h q = Some k" "q \<noteq> NULL" "q \<noteq> p" using dll_distinct [OF dll] by auto
  obtain h1 where run: "r_timeout_cblist_cancel self h lst p = Some (True, h1,
      \<lparr>tl_head = q, tl_tail = last (q # ps), tl_size = of_nat (Suc (length ps))\<rparr>, to_notifies n)" "h1 p = None"
    using cancel_run [of self h lst "[]" p "q # ps" n] inv n(1) None by auto
  have "r_to_cb_internal_free h1 p = None" using run(2) by (simp add: r_to_cb_internal_free_def assign_def deref_def)
  then have "r_timeout_cblist_update_loop invoke ts h lst 0 [] [] = None"
    using n(1,2) k(1) hd cb run
    by (subst r_timeout_cblist_update_loop.simps) (simp add: cancel_effect_def)
  then show ?thesis using None by (simp add: r_timeout_cblist_update_def)
next
  case (Some m)
  obtain h1 where run: "r_timeout_cblist_update_loop invoke ts h lst 0 [] []
      = Some (h1, \<lparr>tl_head = head_of ps, tl_tail = last (q # ps), tl_size = of_nat (Suc (length ps))\<rparr>, 1,
          [ctx_invoke (to_ctx n)], to_notifies m)"
    and h1: "h1 p = to_released m" "h1 NULL = None" "to_same_at h1 h q" "\<forall>a \<in> set ps. h1 a = h a"
    using self_cancel_loop [of self h lst p q ps n ts invoke m, OF inv n cb Some] by blast
  have dll: "dll to_next to_prev h NULL (p # q # ps) NULL" using inv by (simp add: tl_inv_def)
  then have d: "distinct (p # q # ps)" by (rule dll_distinct)
  define h2 where "h2 = (if ps = [] then h1 else h1(hd ps := map_option (set_toprev NULL) (h1 (hd ps))))"
  let ?lst = "\<lparr>tl_head = head_of ps, tl_tail = last (NULL # ps), tl_size = of_nat (length ps)\<rparr>"
  have h2: "h2 a = map_option (if a = hd ps then set_toprev NULL else id) (h a)" if "a \<in> set ps" for a
    using h1(4) that by (cases ps) (auto simp: h2_def option.map_id)
  have dll2: "dll to_next to_prev h2 NULL ps NULL"
    by (rule tol.retarget_first [of h q]) (use dll d h2 in auto)
  have "\<exists>m. h (hd ps) = Some m \<and> hd ps \<noteq> NULL" if "ps \<noteq> []"
    using that dll_nodes [OF dll, of "hd ps"] by auto
  then have "r_timeout_cblist_update invoke ts h lst = Some (1, h2, ?lst, [ctx_invoke (to_ctx n)], to_notifies m)"
    using h1(4) by (cases ps) (auto simp: r_timeout_cblist_update_def run h2_def)
  moreover have props: "to_time h2 a = to_time h a \<and> to_lst (the (h2 a)) = self \<and> 0 < to_ref (the (h2 a))" if "a \<in> set ps" for a
    using dll_nodes(2) [OF dll, of a] h2 [OF that] that inv by (auto simp: tl_inv_def)
  moreover have "tl_inv self h2 ?lst ps"
  proof -
    have eq: "map (to_time h2) ps = map (to_time h) ps" using props by simp
    have "sorted (map (to_time h2) ps)" unfolding eq using inv by (simp add: tl_inv_def)
    moreover have "h2 NULL = None" using h1(2) dll_nodes(1) [OF dll] by (cases ps) (auto simp: h2_def)
    ultimately show ?thesis using dll2 props inv by (simp add: tl_inv_def)
  qed
  moreover have keep: "h2 q = h1 q" "h2 p = h1 p" using d by (cases ps; auto simp: h2_def)+
  moreover have "to_lst (the (h1 q)) = self" using to_same_at_keeps(2) [OF h1(3)] inv by (simp add: tl_inv_def)
  ultimately show ?thesis using Some h1(1,3) by (auto simp: to_same_at_def)
qed

theorem r_timeout_cblist_update_self_cancel_witness:
  "\<exists>h' lst'. r_timeout_cblist_update (\<lambda>(_, dat, _). cancel_effect 99 dat) 5 to_ex to_ex_list
       = Some (1, h', lst', [(7, 1, 0)], []) \<and> tl_inv 99 h' lst' [] \<and> to_lst (the (h' 2)) = 99 \<and> h' 1 = None"
  using r_timeout_cblist_update_self_cancel [of 99 to_ex to_ex_list 1 2 "[]" "the (to_ex 1)" 5 "\<lambda>(_, dat, _). cancel_effect 99 dat"]
    to_ex_inv
  by (auto simp: to_ex_def to_released_def to_notifies_def r_func_callback_ctx_init_def ctx_invoke_def
      r_to_cb_deinit_def call_notify_def)

end
