(* ===== verification/RUnicode.thy ===== *)
theory RUnicode
  imports RPrelude
begin

text \<open>
  \<^verbatim>\<open>rlib/charset/runicode.c\<close>, the conversions between UTF-8, UTF-16 and UTF-32, the
  validators, the single code point functions and the code point counters.

  A source or destination buffer is a list of code units, or \<open>None\<close> for a null pointer; every
  access is checked against its length.  A conversion returns its result code, the destination
  buffer, and what it wrote to the out parameters \<^verbatim>\<open>dstoutsize\<close> and \<^verbatim>\<open>srcendptr\<close> (an offset into
  the source), \<open>None\<close> where it returns before writing them.  Sizes are natural numbers: no
  buffer is longer than the address space.
\<close>

section \<open>Data\<close>

type_synonym runichar = "32 word"
type_synonym runichar2 = "16 word"

datatype RUnicodeResult =
    R_UNICODE_OK
  | R_UNICODE_OOM
  | R_UNICODE_INVAL
  | R_UNICODE_OVERFLOW
  | R_UNICODE_INVALID_CODE_POINT
  | R_UNICODE_INCOMPLETE_CODE_POINT

type_synonym 'u conv_result = "RUnicodeResult \<times> 'u list option \<times> nat option \<times> nat option"
type_synonym 'u dup_result = "'u list option \<times> RUnicodeResult \<times> nat option \<times> nat option"

abbreviation R_UTF16_BOM :: nat where "R_UTF16_BOM \<equiv> 0xfeff"
abbreviation R_UTF16_BOM_SWAP :: nat where "R_UTF16_BOM_SWAP \<equiv> 0xfffe"
abbreviation R_UTF8_OVERLONG :: int where "R_UTF8_OVERLONG \<equiv> - 2"

text \<open>
  A code point no encoding may carry: a surrogate, or one beyond the last plane.  The test of line
  167, which the code repeats, with the two disjuncts in either order, at lines 380, 437, 546, 730,
  805, 835, 858, 910, 954, 992 and 1167.
\<close>

definition bad_code_point :: "runichar \<Rightarrow> bool" where
  "bad_code_point uc \<longleftrightarrow> (uc \<ge> 0xd800 \<and> uc < 0xe000) \<or> uc \<ge> 0x110000"

section \<open>Helpers\<close>

text \<open>The length of a terminated string; a string with no terminator in its buffer is not read to an end.\<close>

fun c_strlen :: "'a :: zero list \<Rightarrow> nat option" where
  "c_strlen [] = None"
| "c_strlen (x # xs) = (if x = 0 then Some 0 else map_option Suc (c_strlen xs))"

definition r_strlen :: "ruint8 list option \<Rightarrow> nat option" where
  "r_strlen str = (case str of None \<Rightarrow> Some 0 | Some s \<Rightarrow> c_strlen s)"

text \<open>Writes at offset \<open>d\<close>; the result is the number of bytes, or -1.\<close>

definition r_unichar_to_utf8 :: "runichar \<Rightarrow> ruint8 list \<Rightarrow> nat \<Rightarrow> nat \<Rightarrow> (int \<times> ruint8 list) option" where
  "r_unichar_to_utf8 c str d sz =
     (if c < 0x80 then
        if sz < 1 then Some (- 1, str)
        else do {
          str \<leftarrow> store str d (ucast c);
          Some (1, str)
        }
      else if c < 0x800 then
        if sz < 2 then Some (- 1, str)
        else do {
          str \<leftarrow> store str (d + 1) (ucast ((c AND 0x3f) OR 0x80));
          str \<leftarrow> store str d (ucast (drop_bit 6 c OR 0xc0));
          Some (2, str)
        }
      else if c < 0x10000 then
        if sz < 3 then Some (- 1, str)
        else do {
          str \<leftarrow> store str (d + 2) (ucast ((c AND 0x3f) OR 0x80));
          str \<leftarrow> store str (d + 1) (ucast ((drop_bit 6 c AND 0x3f) OR 0x80));
          str \<leftarrow> store str d (ucast (drop_bit 12 c OR 0xe0));
          Some (3, str)
        }
      else if c < 0x110000 then
        if sz < 4 then Some (- 1, str)
        else do {
          str \<leftarrow> store str (d + 3) (ucast ((c AND 0x3f) OR 0x80));
          str \<leftarrow> store str (d + 2) (ucast ((drop_bit 6 c AND 0x3f) OR 0x80));
          str \<leftarrow> store str (d + 1) (ucast ((drop_bit 12 c AND 0x3f) OR 0x80));
          str \<leftarrow> store str d (ucast (drop_bit 18 c OR 0xf0));
          Some (4, str)
        }
      else Some (- 1, str))"

text \<open>
  Reads from offset \<open>i\<close>.  \<open>uc\<close> is the value of the out parameter before the call, kept where the
  function does not write it.
\<close>

definition r_utf8_to_unichar :: "ruint8 list \<Rightarrow> nat \<Rightarrow> nat \<Rightarrow> runichar \<Rightarrow> (int \<times> runichar) option" where
  "r_utf8_to_unichar utf8 i sz uc =
     (if sz = 0 then Some (0, uc)
      else do {
        b0 \<leftarrow> fetch utf8 i;
        if b0 AND 0x80 = 0 then Some (1, ucast (b0 AND 0x7f))
        else if b0 AND 0xe0 = 0xc0 then
          if sz < 2 then Some (- 1, uc)
          else do {
            b1 \<leftarrow> fetch utf8 (i + 1);
            if b1 AND 0xc0 \<noteq> 0x80 then Some (- 1, uc)
            else do {
              let uc = push_bit 6 (ucast (b0 AND 0x1f));
              let uc = uc OR ucast (b1 AND 0x3f);
              if uc < 0x80 then Some (R_UTF8_OVERLONG, uc) else Some (2, uc)
            }
          }
        else if b0 AND 0xf0 = 0xe0 then
          if sz < 3 then Some (- 1, uc)
          else do {
            b1 \<leftarrow> fetch utf8 (i + 1);
            if b1 AND 0xc0 \<noteq> 0x80 then Some (- 1, uc)
            else do {
              b2 \<leftarrow> fetch utf8 (i + 2);
              if b2 AND 0xc0 \<noteq> 0x80 then Some (- 1, uc)
              else do {
                let uc = push_bit 12 (ucast (b0 AND 0x0f));
                let uc = uc OR push_bit 6 (ucast (b1 AND 0x3f));
                let uc = uc OR ucast (b2 AND 0x3f);
                if uc < 0x800 then Some (R_UTF8_OVERLONG, uc) else Some (3, uc)
              }
            }
          }
        else if b0 AND 0xf8 = 0xf0 then
          if sz < 4 then Some (- 1, uc)
          else do {
            b1 \<leftarrow> fetch utf8 (i + 1);
            if b1 AND 0xc0 \<noteq> 0x80 then Some (- 1, uc)
            else do {
              b2 \<leftarrow> fetch utf8 (i + 2);
              if b2 AND 0xc0 \<noteq> 0x80 then Some (- 1, uc)
              else do {
                b3 \<leftarrow> fetch utf8 (i + 3);
                if b3 AND 0xc0 \<noteq> 0x80 then Some (- 1, uc)
                else do {
                  let uc = push_bit 18 (ucast (b0 AND 0x07));
                  let uc = uc OR push_bit 12 (ucast (b1 AND 0x3f));
                  let uc = uc OR push_bit 6 (ucast (b2 AND 0x3f));
                  let uc = uc OR ucast (b3 AND 0x3f);
                  if uc < 0x10000 then Some (R_UTF8_OVERLONG, uc) else Some (4, uc)
                }
              }
            }
          }
        else Some (- 1, uc)
      })"

text \<open>The byte order marks: how many code units to skip, \<open>None\<close> for a swapped one.\<close>

definition utf8_bom :: "ruint8 list \<Rightarrow> nat \<Rightarrow> nat option" where
  "utf8_bom src n =
     (if n \<ge> 3 then do {
        b0 \<leftarrow> fetch src 0;
        if b0 = 0xef then do {
          b1 \<leftarrow> fetch src 1;
          if b1 = 0xbb then do {
            b2 \<leftarrow> fetch src 2;
            Some (if b2 = 0xbf then 3 else 0)
          } else Some 0
        } else Some 0
      } else Some 0)"

definition utf16_bom :: "runichar2 list \<Rightarrow> nat \<Rightarrow> nat option option" where
  "utf16_bom src n =
     (if n > 0 then do {
        u \<leftarrow> fetch src 0;
        if u = of_nat R_UTF16_BOM_SWAP then Some None
        else Some (Some (if u = of_nat R_UTF16_BOM then 1 else 0))
      } else Some (Some 0))"

definition utf32_bom :: "runichar list \<Rightarrow> nat \<Rightarrow> nat option" where
  "utf32_bom src n =
     (if n > 0 then do {
        u \<leftarrow> fetch src 0;
        Some (if u = of_nat R_UTF16_BOM then 1 else 0)
      } else Some 0)"

text \<open>The code point of a surrogate pair.\<close>

definition pair_code_point :: "runichar2 \<Rightarrow> runichar2 \<Rightarrow> runichar" where
  "pair_code_point hi lo =
     (let hc = hi - 0xd800 in ucast lo - 0xdc00 + 0x10000 + push_bit 10 (ucast hc))"


text \<open>The same as the code writes it in the code point functions, the wire formats and WTF-8.\<close>

definition pair_code_point2 :: "runichar2 \<Rightarrow> runichar2 \<Rightarrow> runichar" where
  "pair_code_point2 hi lo = 0x10000 + push_bit 10 (ucast (hi - 0xd800)) + ucast (lo - 0xdc00)"

section \<open>Conversions into a buffer\<close>

text \<open>
  A loop runs from source offset \<open>i\<close> and destination offset \<open>d\<close>; \<open>dend\<close> is the offset of the
  last unit, kept for the terminator.  It returns the result code, the buffer and both offsets.
\<close>

partial_function (option) r_utf8_to_utf16_loop ::
  "ruint8 list \<Rightarrow> nat \<Rightarrow> nat \<Rightarrow> runichar2 list \<Rightarrow> nat \<Rightarrow> nat
   \<Rightarrow> (RUnicodeResult \<times> runichar2 list \<times> nat \<times> nat) option" where
  "r_utf8_to_utf16_loop src n dend dst d i =
     (if i < n then do {
        b \<leftarrow> fetch src i;
        if b \<noteq> 0 then do {
          (r, uc) \<leftarrow> r_utf8_to_unichar src i (n - i) 0;
          if r > 0 then
            if bad_code_point uc then Some (R_UNICODE_INVALID_CODE_POINT, dst, d, i)
            else if uc \<le> 0xffff then
              if d + 1 > dend then Some (R_UNICODE_OVERFLOW, dst, d, i)
              else do {
                dst \<leftarrow> store dst d (ucast uc AND 0xffff);
                r_utf8_to_utf16_loop src n dend dst (d + 1) (i + nat r)
              }
            else
              if d + 2 > dend then Some (R_UNICODE_OVERFLOW, dst, d, i)
              else do {
                dst \<leftarrow> store dst d (ucast ((uc - 0x10000) div 0x400 OR 0xd800));
                dst \<leftarrow> store dst (d + 1) (ucast ((uc - 0x10000) mod 0x400 OR 0xdc00));
                r_utf8_to_utf16_loop src n dend dst (d + 2) (i + nat r)
              }
          else if r = 0 then Some (R_UNICODE_OK, dst, d, i)
          else if r = R_UTF8_OVERLONG then Some (R_UNICODE_INVALID_CODE_POINT, dst, d, i)
          else Some (R_UNICODE_INCOMPLETE_CODE_POINT, dst, d, i)
        }
        else Some (R_UNICODE_OK, dst, d, i)
      }
      else Some (R_UNICODE_OK, dst, d, i))"

definition r_utf8_to_utf16 ::
  "runichar2 list option \<Rightarrow> nat \<Rightarrow> ruint8 list option \<Rightarrow> int \<Rightarrow> runichar2 conv_result option" where
  "r_utf8_to_utf16 dst dstsize src srcsize =
     (case (dst, src) of
        (Some dbuf, Some sbuf) \<Rightarrow>
          if dstsize = 0 then Some (R_UNICODE_INVAL, dst, None, None)
          else if dstsize = 1 then do {
            dbuf \<leftarrow> store dbuf 0 0;
            Some (R_UNICODE_OVERFLOW, Some dbuf, None, None)
          }
          else do {
            n \<leftarrow> (if srcsize < 0 then r_strlen src else Some (nat srcsize));
            skip \<leftarrow> utf8_bom sbuf n;
            (ret, dbuf, d, i) \<leftarrow> r_utf8_to_utf16_loop (drop skip sbuf) (n - skip) (dstsize - 1) dbuf 0 0;
            dbuf \<leftarrow> store dbuf d 0;
            Some (ret, Some dbuf, Some d, Some (skip + i))
          }
      | _ \<Rightarrow> Some (R_UNICODE_INVAL, dst, None, None))"

partial_function (option) r_utf16_to_utf8_loop ::
  "runichar2 list \<Rightarrow> nat \<Rightarrow> nat \<Rightarrow> ruint8 list \<Rightarrow> nat \<Rightarrow> nat
   \<Rightarrow> (RUnicodeResult \<times> ruint8 list \<times> nat \<times> nat) option" where
  "r_utf16_to_utf8_loop src n dend dst d i =
     (if i < n then do {
        u \<leftarrow> fetch src i;
        if u > 0 then
          if u < 0xd800 then do {
            (r, dst) \<leftarrow> r_unichar_to_utf8 (ucast u) dst d (dend - d);
            if r \<le> 0 then Some (R_UNICODE_OVERFLOW, dst, d, i)
            else r_utf16_to_utf8_loop src n dend dst (d + nat r) (i + 1)
          }
          else if u < 0xdc00 then
            if i + 1 < n then do {
              u2 \<leftarrow> fetch src (i + 1);
              if u2 \<ge> 0xdc00 \<and> u2 < 0xe000 then do {
                (r, dst) \<leftarrow> r_unichar_to_utf8 (pair_code_point u u2) dst d (dend - d);
                if r \<le> 0 then Some (R_UNICODE_OVERFLOW, dst, d, i + 1)
                else r_utf16_to_utf8_loop src n dend dst (d + nat r) (i + 1 + 1)
              }
              else Some (R_UNICODE_INCOMPLETE_CODE_POINT, dst, d, i)
            }
            else Some (R_UNICODE_INCOMPLETE_CODE_POINT, dst, d, i)
          else if u < 0xe000 then Some (R_UNICODE_INVALID_CODE_POINT, dst, d, i)
          else do {
            (r, dst) \<leftarrow> r_unichar_to_utf8 (ucast u) dst d (dend - d);
            if r \<le> 0 then Some (R_UNICODE_OVERFLOW, dst, d, i)
            else r_utf16_to_utf8_loop src n dend dst (d + nat r) (i + 1)
          }
        else Some (R_UNICODE_OK, dst, d, i)
      }
      else Some (R_UNICODE_OK, dst, d, i))"

definition r_utf16_to_utf8 ::
  "ruint8 list option \<Rightarrow> nat \<Rightarrow> runichar2 list option \<Rightarrow> nat \<Rightarrow> ruint8 conv_result option" where
  "r_utf16_to_utf8 dst dstsize src srcsize =
     (case (dst, src) of
        (Some dbuf, Some sbuf) \<Rightarrow>
          if dstsize = 0 then Some (R_UNICODE_INVAL, dst, None, None)
          else if dstsize = 1 then do {
            dbuf \<leftarrow> store dbuf 0 0;
            Some (R_UNICODE_OVERFLOW, Some dbuf, None, None)
          }
          else do {
            bom \<leftarrow> utf16_bom sbuf srcsize;
            case bom of
              None \<Rightarrow> Some (R_UNICODE_INVAL, dst, None, None)
            | Some skip \<Rightarrow> do {
                (ret, dbuf, d, i) \<leftarrow> r_utf16_to_utf8_loop (drop skip sbuf) (srcsize - skip) (dstsize - 1) dbuf 0 0;
                dbuf \<leftarrow> store dbuf d 0;
                Some (ret, Some dbuf, Some d, Some (skip + i))
              }
          }
      | _ \<Rightarrow> Some (R_UNICODE_INVAL, dst, None, None))"

partial_function (option) r_utf8_to_utf32_loop ::
  "ruint8 list \<Rightarrow> nat \<Rightarrow> nat \<Rightarrow> runichar list \<Rightarrow> nat \<Rightarrow> nat
   \<Rightarrow> (RUnicodeResult \<times> runichar list \<times> nat \<times> nat) option" where
  "r_utf8_to_utf32_loop src n dend dst d i =
     (if i < n then do {
        b \<leftarrow> fetch src i;
        if b \<noteq> 0 then do {
          (r, uc) \<leftarrow> r_utf8_to_unichar src i (n - i) 0;
          if r > 0 then
            if bad_code_point uc then Some (R_UNICODE_INVALID_CODE_POINT, dst, d, i)
            else if d \<ge> dend then Some (R_UNICODE_OVERFLOW, dst, d, i)
            else do {
              dst \<leftarrow> store dst d uc;
              r_utf8_to_utf32_loop src n dend dst (d + 1) (i + nat r)
            }
          else if r = 0 then Some (R_UNICODE_OK, dst, d, i)
          else if r = R_UTF8_OVERLONG then Some (R_UNICODE_INVALID_CODE_POINT, dst, d, i)
          else Some (R_UNICODE_INCOMPLETE_CODE_POINT, dst, d, i)
        }
        else Some (R_UNICODE_OK, dst, d, i)
      }
      else Some (R_UNICODE_OK, dst, d, i))"

definition r_utf8_to_utf32 ::
  "runichar list option \<Rightarrow> nat \<Rightarrow> ruint8 list option \<Rightarrow> int \<Rightarrow> runichar conv_result option" where
  "r_utf8_to_utf32 dst dstsize src srcsize =
     (case (dst, src) of
        (Some dbuf, Some sbuf) \<Rightarrow>
          if dstsize = 0 then Some (R_UNICODE_INVAL, dst, None, None)
          else if dstsize = 1 then do {
            dbuf \<leftarrow> store dbuf 0 0;
            Some (R_UNICODE_OVERFLOW, Some dbuf, None, None)
          }
          else do {
            n \<leftarrow> (if srcsize < 0 then r_strlen src else Some (nat srcsize));
            skip \<leftarrow> utf8_bom sbuf n;
            (ret, dbuf, d, i) \<leftarrow> r_utf8_to_utf32_loop (drop skip sbuf) (n - skip) (dstsize - 1) dbuf 0 0;
            dbuf \<leftarrow> store dbuf d 0;
            Some (ret, Some dbuf, Some d, Some (skip + i))
          }
      | _ \<Rightarrow> Some (R_UNICODE_INVAL, dst, None, None))"

partial_function (option) r_utf32_to_utf8_loop ::
  "runichar list \<Rightarrow> nat \<Rightarrow> nat \<Rightarrow> ruint8 list \<Rightarrow> nat \<Rightarrow> nat
   \<Rightarrow> (RUnicodeResult \<times> ruint8 list \<times> nat \<times> nat) option" where
  "r_utf32_to_utf8_loop src n dend dst d i =
     (if i < n then do {
        uc \<leftarrow> fetch src i;
        if uc \<noteq> 0 then
          if bad_code_point uc then Some (R_UNICODE_INVALID_CODE_POINT, dst, d, i)
          else do {
            (r, dst) \<leftarrow> r_unichar_to_utf8 uc dst d (dend - d);
            if r \<le> 0 then Some (R_UNICODE_OVERFLOW, dst, d, i)
            else r_utf32_to_utf8_loop src n dend dst (d + nat r) (i + 1)
          }
        else Some (R_UNICODE_OK, dst, d, i)
      }
      else Some (R_UNICODE_OK, dst, d, i))"

definition r_utf32_to_utf8 ::
  "ruint8 list option \<Rightarrow> nat \<Rightarrow> runichar list option \<Rightarrow> nat \<Rightarrow> ruint8 conv_result option" where
  "r_utf32_to_utf8 dst dstsize src srcsize =
     (case (dst, src) of
        (Some dbuf, Some sbuf) \<Rightarrow>
          if dstsize = 0 then Some (R_UNICODE_INVAL, dst, None, None)
          else if dstsize = 1 then do {
            dbuf \<leftarrow> store dbuf 0 0;
            Some (R_UNICODE_OVERFLOW, Some dbuf, None, None)
          }
          else do {
            skip \<leftarrow> utf32_bom sbuf srcsize;
            (ret, dbuf, d, i) \<leftarrow> r_utf32_to_utf8_loop (drop skip sbuf) (srcsize - skip) (dstsize - 1) dbuf 0 0;
            dbuf \<leftarrow> store dbuf d 0;
            Some (ret, Some dbuf, Some d, Some (skip + i))
          }
      | _ \<Rightarrow> Some (R_UNICODE_INVAL, dst, None, None))"

partial_function (option) r_utf16_to_utf32_loop ::
  "runichar2 list \<Rightarrow> nat \<Rightarrow> nat \<Rightarrow> runichar list \<Rightarrow> nat \<Rightarrow> nat
   \<Rightarrow> (RUnicodeResult \<times> runichar list \<times> nat \<times> nat) option" where
  "r_utf16_to_utf32_loop src n dend dst d i =
     (if i < n then do {
        u \<leftarrow> fetch src i;
        if u > 0 then
          if u < 0xd800 \<or> u \<ge> 0xe000 then
            if d \<ge> dend then Some (R_UNICODE_OVERFLOW, dst, d, i + 1)
            else do {
              dst \<leftarrow> store dst d (ucast u);
              r_utf16_to_utf32_loop src n dend dst (d + 1) (i + 1)
            }
          else if u < 0xdc00 then
            if i + 1 < n then do {
              u2 \<leftarrow> fetch src (i + 1);
              if u2 \<ge> 0xdc00 \<and> u2 < 0xe000 then
                if d \<ge> dend then Some (R_UNICODE_OVERFLOW, dst, d, i + 2)
                else do {
                  dst \<leftarrow> store dst d (pair_code_point u u2);
                  r_utf16_to_utf32_loop src n dend dst (d + 1) (i + 2)
                }
              else Some (R_UNICODE_INCOMPLETE_CODE_POINT, dst, d, i)
            }
            else Some (R_UNICODE_INCOMPLETE_CODE_POINT, dst, d, i)
          else Some (R_UNICODE_INVALID_CODE_POINT, dst, d, i)
        else Some (R_UNICODE_OK, dst, d, i)
      }
      else Some (R_UNICODE_OK, dst, d, i))"

definition r_utf16_to_utf32 ::
  "runichar list option \<Rightarrow> nat \<Rightarrow> runichar2 list option \<Rightarrow> nat \<Rightarrow> runichar conv_result option" where
  "r_utf16_to_utf32 dst dstsize src srcsize =
     (case (dst, src) of
        (Some dbuf, Some sbuf) \<Rightarrow>
          if dstsize = 0 then Some (R_UNICODE_INVAL, dst, None, None)
          else if dstsize = 1 then do {
            dbuf \<leftarrow> store dbuf 0 0;
            Some (R_UNICODE_OVERFLOW, Some dbuf, None, None)
          }
          else do {
            bom \<leftarrow> utf16_bom sbuf srcsize;
            case bom of
              None \<Rightarrow> Some (R_UNICODE_INVAL, dst, None, None)
            | Some skip \<Rightarrow> do {
                (ret, dbuf, d, i) \<leftarrow> r_utf16_to_utf32_loop (drop skip sbuf) (srcsize - skip) (dstsize - 1) dbuf 0 0;
                dbuf \<leftarrow> store dbuf d 0;
                Some (ret, Some dbuf, Some d, Some (skip + i))
              }
          }
      | _ \<Rightarrow> Some (R_UNICODE_INVAL, dst, None, None))"

partial_function (option) r_utf32_to_utf16_loop ::
  "runichar list \<Rightarrow> nat \<Rightarrow> nat \<Rightarrow> runichar2 list \<Rightarrow> nat \<Rightarrow> nat
   \<Rightarrow> (RUnicodeResult \<times> runichar2 list \<times> nat \<times> nat) option" where
  "r_utf32_to_utf16_loop src n dend dst d i =
     (if i < n then do {
        uc \<leftarrow> fetch src i;
        if uc \<noteq> 0 then
          if bad_code_point uc then Some (R_UNICODE_INVALID_CODE_POINT, dst, d, i)
          else if uc < 0x10000 then
            if d \<ge> dend then Some (R_UNICODE_OVERFLOW, dst, d, i)
            else do {
              dst \<leftarrow> store dst d (ucast uc);
              r_utf32_to_utf16_loop src n dend dst (d + 1) (i + 1)
            }
          else
            if d + 1 \<ge> dend then Some (R_UNICODE_OVERFLOW, dst, d, i)
            else do {
              dst \<leftarrow> store dst d (ucast ((uc - 0x10000) div 0x400 OR 0xd800));
              dst \<leftarrow> store dst (d + 1) (ucast ((uc - 0x10000) mod 0x400 OR 0xdc00));
              r_utf32_to_utf16_loop src n dend dst (d + 2) (i + 1)
            }
        else Some (R_UNICODE_OK, dst, d, i)
      }
      else Some (R_UNICODE_OK, dst, d, i))"

definition r_utf32_to_utf16 ::
  "runichar2 list option \<Rightarrow> nat \<Rightarrow> runichar list option \<Rightarrow> nat \<Rightarrow> runichar2 conv_result option" where
  "r_utf32_to_utf16 dst dstsize src srcsize =
     (case (dst, src) of
        (Some dbuf, Some sbuf) \<Rightarrow>
          if dstsize = 0 then Some (R_UNICODE_INVAL, dst, None, None)
          else if dstsize = 1 then do {
            dbuf \<leftarrow> store dbuf 0 0;
            Some (R_UNICODE_OVERFLOW, Some dbuf, None, None)
          }
          else do {
            skip \<leftarrow> utf32_bom sbuf srcsize;
            (ret, dbuf, d, i) \<leftarrow> r_utf32_to_utf16_loop (drop skip sbuf) (srcsize - skip) (dstsize - 1) dbuf 0 0;
            dbuf \<leftarrow> store dbuf d 0;
            Some (ret, Some dbuf, Some d, Some (skip + i))
          }
      | _ \<Rightarrow> Some (R_UNICODE_INVAL, dst, None, None))"


section \<open>Conversions into a fresh buffer\<close>

text \<open>
  \<open>alloc\<close> is the allocator: the uninitialised buffer for a number of units, \<open>None\<close> when it fails.
  A conversion that fails releases the buffer and returns no string.
\<close>

definition dup_finish :: "'u conv_result \<Rightarrow> 'u dup_result" where
  "dup_finish c = (case c of (r, dst, outsize, endptr) \<Rightarrow>
     (if r \<noteq> R_UNICODE_OK then None else dst, r, outsize, endptr))"

definition r_utf8_to_utf16_dup ::
  "(nat \<Rightarrow> runichar2 list option) \<Rightarrow> ruint8 list option \<Rightarrow> int \<Rightarrow> runichar2 dup_result option" where
  "r_utf8_to_utf16_dup alloc src srcsize = do {
     n \<leftarrow> (if srcsize < 0 then r_strlen src else Some (nat srcsize));
     case alloc (n + 1) of
       None \<Rightarrow> Some (None, R_UNICODE_OOM, None, None)
     | Some buf \<Rightarrow> map_option dup_finish (r_utf8_to_utf16 (Some buf) (n + 1) src (int n))
   }"

definition r_utf16_to_utf8_dup ::
  "(nat \<Rightarrow> ruint8 list option) \<Rightarrow> runichar2 list option \<Rightarrow> int \<Rightarrow> ruint8 dup_result option" where
  "r_utf16_to_utf8_dup alloc src srcsize =
     (case src of
        None \<Rightarrow> Some (None, R_UNICODE_INVAL, None, None)
      | Some sbuf \<Rightarrow> do {
          n \<leftarrow> (if srcsize < 0 then c_strlen sbuf else Some (nat srcsize));
          if n = 0 then Some (None, R_UNICODE_INVAL, None, None)
          else case alloc ((n + 1) * 4) of
            None \<Rightarrow> Some (None, R_UNICODE_OOM, None, None)
          | Some buf \<Rightarrow> map_option dup_finish (r_utf16_to_utf8 (Some buf) ((n + 1) * 4) src n)
        })"

definition r_utf8_to_utf32_dup ::
  "(nat \<Rightarrow> runichar list option) \<Rightarrow> ruint8 list option \<Rightarrow> int \<Rightarrow> runichar dup_result option" where
  "r_utf8_to_utf32_dup alloc src srcsize = do {
     n \<leftarrow> (if srcsize < 0 then r_strlen src else Some (nat srcsize));
     case alloc (n + 1) of
       None \<Rightarrow> Some (None, R_UNICODE_OOM, None, None)
     | Some buf \<Rightarrow> map_option dup_finish (r_utf8_to_utf32 (Some buf) (n + 1) src (int n))
   }"

definition r_utf32_to_utf8_dup ::
  "(nat \<Rightarrow> ruint8 list option) \<Rightarrow> runichar list option \<Rightarrow> nat \<Rightarrow> ruint8 dup_result option" where
  "r_utf32_to_utf8_dup alloc src srcsize =
     (if src = None \<or> srcsize = 0 then Some (None, R_UNICODE_INVAL, None, None)
      else case alloc (srcsize * 4 + 1) of
        None \<Rightarrow> Some (None, R_UNICODE_OOM, None, None)
      | Some buf \<Rightarrow> map_option dup_finish (r_utf32_to_utf8 (Some buf) (srcsize * 4 + 1) src srcsize))"

definition r_utf16_to_utf32_dup ::
  "(nat \<Rightarrow> runichar list option) \<Rightarrow> runichar2 list option \<Rightarrow> nat \<Rightarrow> runichar dup_result option" where
  "r_utf16_to_utf32_dup alloc src srcsize =
     (if src = None \<or> srcsize = 0 then Some (None, R_UNICODE_INVAL, None, None)
      else case alloc (srcsize + 1) of
        None \<Rightarrow> Some (None, R_UNICODE_OOM, None, None)
      | Some buf \<Rightarrow> map_option dup_finish (r_utf16_to_utf32 (Some buf) (srcsize + 1) src srcsize))"

definition r_utf32_to_utf16_dup ::
  "(nat \<Rightarrow> runichar2 list option) \<Rightarrow> runichar list option \<Rightarrow> nat \<Rightarrow> runichar2 dup_result option" where
  "r_utf32_to_utf16_dup alloc src srcsize =
     (if src = None \<or> srcsize = 0 then Some (None, R_UNICODE_INVAL, None, None)
      else case alloc (srcsize * 2 + 1) of
        None \<Rightarrow> Some (None, R_UNICODE_OOM, None, None)
      | Some buf \<Rightarrow> map_option dup_finish (r_utf32_to_utf16 (Some buf) (srcsize * 2 + 1) src srcsize))"

section \<open>Validation\<close>

partial_function (option) r_utf8_validate_loop :: "ruint8 list \<Rightarrow> nat \<Rightarrow> nat \<Rightarrow> (RUnicodeResult \<times> nat) option" where
  "r_utf8_validate_loop src n i =
     (if i < n then do {
        b \<leftarrow> fetch src i;
        if b \<noteq> 0 then do {
          (r, uc) \<leftarrow> r_utf8_to_unichar src i (n - i) 0;
          if r > 0 then
            if bad_code_point uc then Some (R_UNICODE_INVALID_CODE_POINT, i)
            else r_utf8_validate_loop src n (i + nat r)
          else if r = 0 then Some (R_UNICODE_OK, i)
          else if r = R_UTF8_OVERLONG then Some (R_UNICODE_INVALID_CODE_POINT, i)
          else Some (R_UNICODE_INCOMPLETE_CODE_POINT, i)
        }
        else Some (R_UNICODE_OK, i)
      }
      else Some (R_UNICODE_OK, i))"

definition r_utf8_validate :: "ruint8 list option \<Rightarrow> int \<Rightarrow> (RUnicodeResult \<times> nat option) option" where
  "r_utf8_validate src srcsize =
     (case src of
        None \<Rightarrow> Some (R_UNICODE_INVAL, None)
      | Some sbuf \<Rightarrow> do {
          n \<leftarrow> (if srcsize < 0 then r_strlen src else Some (nat srcsize));
          skip \<leftarrow> utf8_bom sbuf n;
          (ret, i) \<leftarrow> r_utf8_validate_loop (drop skip sbuf) (n - skip) 0;
          Some (ret, Some (skip + i))
        })"

partial_function (option) r_utf16_validate_loop :: "runichar2 list \<Rightarrow> nat \<Rightarrow> nat \<Rightarrow> (RUnicodeResult \<times> nat) option" where
  "r_utf16_validate_loop src n i =
     (if i < n then do {
        u \<leftarrow> fetch src i;
        if u \<noteq> 0 then
          if u < 0xd800 \<or> u \<ge> 0xe000 then r_utf16_validate_loop src n (i + 1)
          else if u < 0xdc00 then
            if i + 1 < n then do {
              u2 \<leftarrow> fetch src (i + 1);
              if u2 \<ge> 0xdc00 \<and> u2 < 0xe000 then r_utf16_validate_loop src n (i + 2)
              else Some (R_UNICODE_INCOMPLETE_CODE_POINT, i)
            }
            else Some (R_UNICODE_INCOMPLETE_CODE_POINT, i)
          else Some (R_UNICODE_INVALID_CODE_POINT, i)
        else Some (R_UNICODE_OK, i)
      }
      else Some (R_UNICODE_OK, i))"

definition r_utf16_validate :: "runichar2 list option \<Rightarrow> nat \<Rightarrow> (RUnicodeResult \<times> nat option) option" where
  "r_utf16_validate src srcsize =
     (case src of
        None \<Rightarrow> Some (R_UNICODE_INVAL, None)
      | Some sbuf \<Rightarrow> do {
          bom \<leftarrow> utf16_bom sbuf srcsize;
          case bom of
            None \<Rightarrow> Some (R_UNICODE_INVAL, None)
          | Some skip \<Rightarrow> do {
              (ret, i) \<leftarrow> r_utf16_validate_loop (drop skip sbuf) (srcsize - skip) 0;
              Some (ret, Some (skip + i))
            }
        })"

partial_function (option) r_utf32_validate_loop :: "runichar list \<Rightarrow> nat \<Rightarrow> nat \<Rightarrow> (RUnicodeResult \<times> nat) option" where
  "r_utf32_validate_loop src n i =
     (if i < n then do {
        uc \<leftarrow> fetch src i;
        if uc \<noteq> 0 then
          if bad_code_point uc then Some (R_UNICODE_INVALID_CODE_POINT, i)
          else r_utf32_validate_loop src n (i + 1)
        else Some (R_UNICODE_OK, i)
      }
      else Some (R_UNICODE_OK, i))"

definition r_utf32_validate :: "runichar list option \<Rightarrow> nat \<Rightarrow> (RUnicodeResult \<times> nat option) option" where
  "r_utf32_validate src srcsize =
     (case src of
        None \<Rightarrow> Some (R_UNICODE_INVAL, None)
      | Some sbuf \<Rightarrow> do {
          skip \<leftarrow> utf32_bom sbuf srcsize;
          (ret, i) \<leftarrow> r_utf32_validate_loop (drop skip sbuf) (srcsize - skip) 0;
          Some (ret, Some (skip + i))
        })"

section \<open>Single code points\<close>

text \<open>
  The out parameters of the decoders are the code point and the number of units consumed; those of
  the encoders are the buffer and the number of units written.
\<close>

definition r_utf8_decode_codepoint ::
  "ruint8 list option \<Rightarrow> nat \<Rightarrow> (RUnicodeResult \<times> runichar option \<times> nat option) option" where
  "r_utf8_decode_codepoint src sz =
     (case src of
        None \<Rightarrow> Some (R_UNICODE_INVAL, None, None)
      | Some sbuf \<Rightarrow>
          if sz = 0 then Some (R_UNICODE_INVAL, None, None)
          else do {
            (r, tmp) \<leftarrow> r_utf8_to_unichar sbuf 0 sz 0;
            if r > 0 then
              if bad_code_point tmp then Some (R_UNICODE_INVALID_CODE_POINT, None, Some 0)
              else Some (R_UNICODE_OK, Some tmp, Some (nat r))
            else if r = R_UTF8_OVERLONG then Some (R_UNICODE_INVALID_CODE_POINT, None, Some 0)
            else Some (R_UNICODE_INCOMPLETE_CODE_POINT, None, Some 0)
          })"

definition r_utf8_encode_codepoint ::
  "runichar \<Rightarrow> ruint8 list option \<Rightarrow> nat \<Rightarrow> (RUnicodeResult \<times> ruint8 list option \<times> nat option) option" where
  "r_utf8_encode_codepoint uc dst sz =
     (case dst of
        None \<Rightarrow> Some (R_UNICODE_INVAL, dst, None)
      | Some dbuf \<Rightarrow>
          if sz = 0 then Some (R_UNICODE_INVAL, dst, None)
          else if bad_code_point uc then Some (R_UNICODE_INVALID_CODE_POINT, dst, Some 0)
          else do {
            (r, dbuf) \<leftarrow> r_unichar_to_utf8 uc dbuf 0 sz;
            if r > 0 then Some (R_UNICODE_OK, Some dbuf, Some (nat r))
            else Some (R_UNICODE_OVERFLOW, Some dbuf, Some 0)
          })"

definition r_utf16_decode_codepoint ::
  "runichar2 list option \<Rightarrow> nat \<Rightarrow> (RUnicodeResult \<times> runichar option \<times> nat option) option" where
  "r_utf16_decode_codepoint src sz =
     (case src of
        None \<Rightarrow> Some (R_UNICODE_INVAL, None, None)
      | Some sbuf \<Rightarrow>
          if sz = 0 then Some (R_UNICODE_INVAL, None, None)
          else do {
            u \<leftarrow> fetch sbuf 0;
            if u < 0xd800 \<or> u \<ge> 0xe000 then Some (R_UNICODE_OK, Some (ucast u), Some 1)
            else if u \<ge> 0xdc00 then Some (R_UNICODE_INVALID_CODE_POINT, None, Some 0)
            else if sz < 2 then Some (R_UNICODE_INCOMPLETE_CODE_POINT, None, Some 0)
            else do {
              u2 \<leftarrow> fetch sbuf 1;
              if u2 < 0xdc00 \<or> u2 \<ge> 0xe000 then Some (R_UNICODE_INVALID_CODE_POINT, None, Some 0)
              else Some (R_UNICODE_OK, Some (pair_code_point2 u u2), Some 2)
            }
          })"

definition r_utf16_encode_codepoint ::
  "runichar \<Rightarrow> runichar2 list option \<Rightarrow> nat \<Rightarrow> (RUnicodeResult \<times> runichar2 list option \<times> nat option) option" where
  "r_utf16_encode_codepoint uc dst sz =
     (case dst of
        None \<Rightarrow> Some (R_UNICODE_INVAL, dst, None)
      | Some dbuf \<Rightarrow>
          if sz = 0 then Some (R_UNICODE_INVAL, dst, None)
          else if bad_code_point uc then Some (R_UNICODE_INVALID_CODE_POINT, dst, Some 0)
          else if uc < 0x10000 then do {
            dbuf \<leftarrow> store dbuf 0 (ucast uc);
            Some (R_UNICODE_OK, Some dbuf, Some 1)
          }
          else if sz < 2 then Some (R_UNICODE_OVERFLOW, dst, Some 0)
          else do {
            dbuf \<leftarrow> store dbuf 0 (ucast ((uc - 0x10000) div 0x400 OR 0xd800));
            dbuf \<leftarrow> store dbuf 1 (ucast ((uc - 0x10000) mod 0x400 OR 0xdc00));
            Some (R_UNICODE_OK, Some dbuf, Some 2)
          })"

section \<open>Counting and advancing\<close>

partial_function (option) r_utf8_strlen_codepoints_loop ::
  "ruint8 list \<Rightarrow> nat \<Rightarrow> nat \<Rightarrow> nat \<Rightarrow> (RUnicodeResult \<times> nat) option" where
  "r_utf8_strlen_codepoints_loop src n count i =
     (if i < n then do {
        b \<leftarrow> fetch src i;
        if b \<noteq> 0 then do {
          (r, uc) \<leftarrow> r_utf8_to_unichar src i (n - i) 0;
          if r > 0 then
            if bad_code_point uc then Some (R_UNICODE_INVALID_CODE_POINT, count)
            else r_utf8_strlen_codepoints_loop src n (count + 1) (i + nat r)
          else if r = 0 then Some (R_UNICODE_OK, count)
          else if r = R_UTF8_OVERLONG then Some (R_UNICODE_INVALID_CODE_POINT, count)
          else Some (R_UNICODE_INCOMPLETE_CODE_POINT, count)
        }
        else Some (R_UNICODE_OK, count)
      }
      else Some (R_UNICODE_OK, count))"

definition r_utf8_strlen_codepoints :: "ruint8 list option \<Rightarrow> int \<Rightarrow> (RUnicodeResult \<times> nat) option" where
  "r_utf8_strlen_codepoints src srcsize =
     (case src of
        None \<Rightarrow> Some (R_UNICODE_INVAL, 0)
      | Some sbuf \<Rightarrow> do {
          n \<leftarrow> (if srcsize < 0 then r_strlen src else Some (nat srcsize));
          r_utf8_strlen_codepoints_loop sbuf n 0 0
        })"

partial_function (option) r_utf8_advance_loop ::
  "ruint8 list \<Rightarrow> nat \<Rightarrow> nat \<Rightarrow> nat \<Rightarrow> nat \<Rightarrow> (RUnicodeResult \<times> nat \<times> nat) option" where
  "r_utf8_advance_loop src n cnt skipped i =
     (if skipped < cnt \<and> i < n then do {
        b \<leftarrow> fetch src i;
        if b \<noteq> 0 then do {
          (r, uc) \<leftarrow> r_utf8_to_unichar src i (n - i) 0;
          if r > 0 then
            if bad_code_point uc then Some (R_UNICODE_INVALID_CODE_POINT, skipped, i)
            else r_utf8_advance_loop src n cnt (skipped + 1) (i + nat r)
          else if r = 0 then Some (R_UNICODE_OK, skipped, i)
          else if r = R_UTF8_OVERLONG then Some (R_UNICODE_INVALID_CODE_POINT, skipped, i)
          else Some (R_UNICODE_INCOMPLETE_CODE_POINT, skipped, i)
        }
        else Some (R_UNICODE_OK, skipped, i)
      }
      else Some (R_UNICODE_OK, skipped, i))"

definition r_utf8_advance :: "ruint8 list option \<Rightarrow> int \<Rightarrow> nat \<Rightarrow> (RUnicodeResult \<times> nat option) option" where
  "r_utf8_advance src srcsize cnt =
     (case src of
        None \<Rightarrow> Some (R_UNICODE_INVAL, None)
      | Some sbuf \<Rightarrow> do {
          n \<leftarrow> (if srcsize < 0 then r_strlen src else Some (nat srcsize));
          (ret, skipped, i) \<leftarrow> r_utf8_advance_loop sbuf n cnt 0 0;
          Some (if skipped < cnt \<and> ret = R_UNICODE_OK then R_UNICODE_OVERFLOW else ret, Some i)
        })"

partial_function (option) r_utf16_strlen_codepoints_loop ::
  "runichar2 list \<Rightarrow> nat \<Rightarrow> nat \<Rightarrow> nat \<Rightarrow> (RUnicodeResult \<times> nat) option" where
  "r_utf16_strlen_codepoints_loop src n count i =
     (if i < n then do {
        u \<leftarrow> fetch src i;
        if u \<noteq> 0 then
          if u < 0xd800 \<or> u \<ge> 0xe000 then r_utf16_strlen_codepoints_loop src n (count + 1) (i + 1)
          else if u < 0xdc00 then
            if i + 1 < n then do {
              u2 \<leftarrow> fetch src (i + 1);
              if u2 \<ge> 0xdc00 \<and> u2 < 0xe000 then r_utf16_strlen_codepoints_loop src n (count + 1) (i + 2)
              else Some (R_UNICODE_INCOMPLETE_CODE_POINT, count)
            }
            else Some (R_UNICODE_INCOMPLETE_CODE_POINT, count)
          else Some (R_UNICODE_INVALID_CODE_POINT, count)
        else Some (R_UNICODE_OK, count)
      }
      else Some (R_UNICODE_OK, count))"

definition r_utf16_strlen_codepoints :: "runichar2 list option \<Rightarrow> nat \<Rightarrow> (RUnicodeResult \<times> nat) option" where
  "r_utf16_strlen_codepoints src srcsize =
     (case src of
        None \<Rightarrow> Some (R_UNICODE_INVAL, 0)
      | Some sbuf \<Rightarrow> r_utf16_strlen_codepoints_loop sbuf srcsize 0 0)"

end
