(* ===== verification/RUnicodeSpec.thy ===== *)
theory RUnicodeSpec
  imports RUnicode
begin

text \<open>
  What the conversions of \<^verbatim>\<open>runicode.c\<close> promise.  An encoding form is given by how it writes one
  code point and by how it reads one from the front of a string; the locale \<open>codec\<close> states that the
  two are inverse, and UTF-8, UTF-16 and UTF-32 interpret it with the code's own decoders.  Every
  conversion is then the transcoding between two such forms.
\<close>

section \<open>Bits as arithmetic\<close>

lemma nat_or_add:
  fixes a b :: nat
  assumes "a < 2 ^ k" "b = c * 2 ^ k"
  shows "a OR b = a + b"
proof -
  have "a AND b = 0"
  proof (rule bit_eqI)
    fix n
    have "take_bit k a = a" using assms(1) by (simp add: take_bit_nat_eq_self)
    then have "bit a n \<Longrightarrow> n < k" by (metis bit_take_bit_iff)
    moreover have "b = push_bit k c" using assms(2) by (simp add: push_bit_eq_mult)
    then have "bit b n \<Longrightarrow> k \<le> n" by (simp add: bit_push_bit_iff)
    ultimately show "bit (a AND b) n = bit 0 n" by (auto simp: bit_and_iff)
  qed
  then show ?thesis by (simp add: disjunctive_add_eq_or)
qed

text \<open>Low bits are remainders and high bits are quotients.\<close>

lemma unat_and_low:
  fixes b :: ruint8 and c :: runichar
  shows "unat (b AND 0x7f) = unat b mod 128" "unat (b AND 0x1f) = unat b mod 32" "unat (b AND 0x0f) = unat b mod 16"
    "unat (b AND 0x07) = unat b mod 8" "unat (b AND 0x3f) = unat b mod 64" "unat (c AND 0x3f) = unat c mod 64"
proof -
  have m: "(0x7f :: ruint8) = mask 7" "(0x1f :: ruint8) = mask 5" "(0x0f :: ruint8) = mask 4" "(0x07 :: ruint8) = mask 3"
    "(0x3f :: ruint8) = mask 6" "(0x3f :: runichar) = mask 6"
    by (simp_all add: mask_eq_exp_minus_1)
  show "unat (b AND 0x7f) = unat b mod 128" "unat (b AND 0x1f) = unat b mod 32" "unat (b AND 0x0f) = unat b mod 16"
    "unat (b AND 0x07) = unat b mod 8" "unat (b AND 0x3f) = unat b mod 64" "unat (c AND 0x3f) = unat c mod 64"
    unfolding m unat_mask_eq_mod by simp_all
qed

lemma unat_and_high:
  fixes b :: "'a :: len word"
  shows "unat (b AND NOT (mask n)) = unat b div 2 ^ n * 2 ^ n"
proof -
  have eq: "b AND NOT (mask n) = push_bit n (drop_bit n b)"
    by (rule bit_word_eqI) (auto simp: bit_simps)
  have "unat b div 2 ^ n * 2 ^ n < 2 ^ LENGTH('a)"
    using unat_less_pow [of b] by (meson div_times_less_eq_dividend le_less_trans)
  then have "take_bit LENGTH('a) (unat b div 2 ^ n * 2 ^ n) = unat b div 2 ^ n * 2 ^ n"
    by (simp add: take_bit_nat_eq_self)
  then show ?thesis
    unfolding eq unsigned_push_bit_eq unat_drop_bit_eq by (simp only: push_bit_eq_mult drop_bit_eq_div)
qed

lemma byte_class:
  fixes b :: ruint8
  shows "b AND 0x80 = 0 \<longleftrightarrow> unat b < 128" "b AND 0xe0 = 0xc0 \<longleftrightarrow> unat b div 32 = 6"
    "b AND 0xf0 = 0xe0 \<longleftrightarrow> unat b div 16 = 14" "b AND 0xf8 = 0xf0 \<longleftrightarrow> unat b div 8 = 30"
    "b AND 0xc0 = 0x80 \<longleftrightarrow> unat b div 64 = 2"
proof -
  have m: "(0x80 :: ruint8) = NOT (mask 7)" "(0xe0 :: ruint8) = NOT (mask 5)" "(0xf0 :: ruint8) = NOT (mask 4)"
    "(0xf8 :: ruint8) = NOT (mask 3)" "(0xc0 :: ruint8) = NOT (mask 6)"
    by (simp_all add: mask_eq_exp_minus_1)
  have lt: "unat b < 256" using unat_less_pow [of b] by simp
  have "unat (b AND 0x80) = unat b div 128 * 128" "unat (b AND 0xe0) = unat b div 32 * 32" "unat (b AND 0xf0) = unat b div 16 * 16"
    "unat (b AND 0xf8) = unat b div 8 * 8" "unat (b AND 0xc0) = unat b div 64 * 64"
    unfolding m by (simp_all add: unat_and_high)
  then show "b AND 0x80 = 0 \<longleftrightarrow> unat b < 128" "b AND 0xe0 = 0xc0 \<longleftrightarrow> unat b div 32 = 6"
    "b AND 0xf0 = 0xe0 \<longleftrightarrow> unat b div 16 = 14" "b AND 0xf8 = 0xf0 \<longleftrightarrow> unat b div 8 = 30"
    "b AND 0xc0 = 0x80 \<longleftrightarrow> unat b div 64 = 2"
    using lt unfolding word_unat_eq_iff by (simp_all add: div_eq_0_iff)
qed


lemma unat_or_add:
  fixes x y :: "'a :: len word"
  assumes "unat y < 2 ^ k" "unat x = c * 2 ^ k"
  shows "unat (x OR y) = unat x + unat y" and "unat (y OR x) = unat x + unat y"
  using nat_or_add [OF assms] by (simp_all add: unsigned_or_eq or.commute [of "unat x"])

lemma unat_push_bit:
  fixes x :: "'a :: len word"
  assumes "unat x * 2 ^ k < 2 ^ LENGTH('a)"
  shows "unat (push_bit k x) = unat x * 2 ^ k"
  using assms unfolding unsigned_push_bit_eq push_bit_eq_mult [of k "unat x"] by (rule take_bit_nat_eq_self)

lemma unat_ucast_byte [simp]: "unat (ucast (b :: ruint8) :: runichar) = unat b"
  by (simp add: unat_ucast_up)

lemma unat_ucast_unit [simp]: "unat (ucast (u :: runichar2) :: runichar) = unat u"
  by (simp add: unat_ucast_up)

lemma byte_less: "unat (b :: ruint8) < 256"
  using unat_less_pow [of b] by simp

lemma unit_less: "unat (u :: runichar2) < 65536"
  using unat_less_pow [of u] by simp

section \<open>The encoding forms\<close>

text \<open>
  The scalar values are the code points below \<^verbatim>\<open>0xd800\<close> and those from \<^verbatim>\<open>0xe000\<close> to
  \<^verbatim>\<open>0x10ffff\<close>; \<open>scalar_nat\<close> below says so for the complement of the test of the code.
\<close>

abbreviation scalar :: "runichar \<Rightarrow> bool" where
  "scalar c \<equiv> \<not> bad_code_point c"

definition utf8_enc :: "runichar \<Rightarrow> ruint8 list" where
  "utf8_enc c = map of_nat (let n = unat c in
     if n < 0x80 then [n]
     else if n < 0x800 then [0xc0 + n div 64, 0x80 + n mod 64]
     else if n < 0x10000 then [0xe0 + n div 4096, 0x80 + n div 64 mod 64, 0x80 + n mod 64]
     else [0xf0 + n div 262144, 0x80 + n div 4096 mod 64, 0x80 + n div 64 mod 64, 0x80 + n mod 64])"

definition utf16_enc :: "runichar \<Rightarrow> runichar2 list" where
  "utf16_enc c = map of_nat (let n = unat c in
     if n < 0x10000 then [n] else [0xd800 + (n - 0x10000) div 0x400, 0xdc00 + (n - 0x10000) mod 0x400])"

definition utf32_enc :: "runichar \<Rightarrow> runichar list" where
  "utf32_enc c = [c]"

text \<open>What a decoder finds at the front of a string.\<close>

datatype dstep = Done | Bad RUnicodeResult | Chr runichar nat

definition utf8_result :: "int \<times> runichar \<Rightarrow> dstep" where
  "utf8_result x = (case x of (r, uc) \<Rightarrow>
     if r > 0 then if bad_code_point uc then Bad R_UNICODE_INVALID_CODE_POINT else Chr uc (nat r)
     else if r = 0 then Done
     else if r = R_UTF8_OVERLONG then Bad R_UNICODE_INVALID_CODE_POINT
     else Bad R_UNICODE_INCOMPLETE_CODE_POINT)"

definition utf8_step :: "ruint8 list \<Rightarrow> dstep" where
  "utf8_step us = (case us of
     [] \<Rightarrow> Done
   | b # _ \<Rightarrow> if b = 0 then Done
       else case r_utf8_to_unichar us 0 (length us) 0 of None \<Rightarrow> Done | Some x \<Rightarrow> utf8_result x)"

fun utf16_step :: "runichar2 list \<Rightarrow> dstep" where
  "utf16_step [] = Done"
| "utf16_step (u # us) =
     (if u = 0 then Done
      else if u < 0xd800 \<or> u \<ge> 0xe000 then Chr (ucast u) 1
      else if u < 0xdc00 then
        (case us of
           [] \<Rightarrow> Bad R_UNICODE_INCOMPLETE_CODE_POINT
         | u2 # _ \<Rightarrow>
             if u2 \<ge> 0xdc00 \<and> u2 < 0xe000 then Chr (pair_code_point u u2) 2
             else Bad R_UNICODE_INCOMPLETE_CODE_POINT)
      else Bad R_UNICODE_INVALID_CODE_POINT)"

fun utf32_step :: "runichar list \<Rightarrow> dstep" where
  "utf32_step [] = Done"
| "utf32_step (u # us) =
     (if u = 0 then Done
      else if bad_code_point u then Bad R_UNICODE_INVALID_CODE_POINT
      else Chr u 1)"

section \<open>The code's helpers\<close>

definition write_at :: "'a list \<Rightarrow> nat \<Rightarrow> 'a list \<Rightarrow> 'a list" where
  "write_at dst d out = take d dst @ out @ drop (d + length out) dst"

lemma write_at_Nil [simp]: "write_at dst d [] = dst"
  by (simp add: write_at_def)

lemma length_write_at [simp]: "d + length out \<le> length dst \<Longrightarrow> length (write_at dst d out) = length dst"
  by (simp add: write_at_def)

lemma write_at_write_at:
  "d + length xs + length ys \<le> length dst \<Longrightarrow> write_at (write_at dst d xs) (d + length xs) ys = write_at dst d (xs @ ys)"
  by (simp add: write_at_def ac_simps)

lemma write_at_Cons: "d < length dst \<Longrightarrow> write_at dst d (x # xs) = (write_at dst (Suc d) xs)[d := x]"
  by (simp add: write_at_def take_Suc_conv_app_nth list_update_append)

lemma take_write_at: "d \<le> length dst \<Longrightarrow> take (d + length out) (write_at dst d out) = take d dst @ out"
  by (simp add: write_at_def)

lemma write_at_units:
  assumes "d + k \<le> length dst"
  shows "1 \<le> k \<Longrightarrow> write_at dst d [v] = dst[d := v]"
    and "2 \<le> k \<Longrightarrow> write_at dst d [v, w] = dst[d + 1 := w, d := v]"
    and "3 \<le> k \<Longrightarrow> write_at dst d [v, w, x] = dst[d + 2 := x, d + 1 := w, d := v]"
    and "4 \<le> k \<Longrightarrow> write_at dst d [v, w, x, y] = dst[d + 3 := y, d + 2 := x, d + 1 := w, d := v]"
  using assms by (simp_all add: write_at_Cons eval_nat_numeral)

lemma unat_drop_bit_div: "unat (drop_bit k (w :: 'a :: len word)) = unat w div 2 ^ k"
  unfolding unat_drop_bit_eq by (rule drop_bit_eq_div)

lemma ucast_byte: "(ucast (w :: runichar) :: ruint8) = of_nat (unat w)"
  by simp

lemma utf8_bytes:
  fixes c :: runichar
  shows "(ucast ((c AND 0x3f) OR 0x80) :: ruint8) = of_nat (0x80 + unat c mod 64)"
    "(ucast ((drop_bit k c AND 0x3f) OR 0x80) :: ruint8) = of_nat (0x80 + unat c div 2 ^ k mod 64)"
    "unat c < 0x800 \<Longrightarrow> (ucast (drop_bit 6 c OR 0xc0) :: ruint8) = of_nat (0xc0 + unat c div 64)"
    "unat c < 0x10000 \<Longrightarrow> (ucast (drop_bit 12 c OR 0xe0) :: ruint8) = of_nat (0xe0 + unat c div 4096)"
    "unat c < 0x110000 \<Longrightarrow> (ucast (drop_bit 18 c OR 0xf0) :: ruint8) = of_nat (0xf0 + unat c div 262144)"
proof -
  have cont: "unat ((w AND 0x3f) OR 0x80) = 0x80 + unat w mod 64" for w :: runichar
    using unat_or_add(2) [of "w AND 0x3f" 6 "0x80" 2] by (simp add: unat_and_low)
  show "(ucast ((c AND 0x3f) OR 0x80) :: ruint8) = of_nat (0x80 + unat c mod 64)"
    "(ucast ((drop_bit k c AND 0x3f) OR 0x80) :: ruint8) = of_nat (0x80 + unat c div 2 ^ k mod 64)"
    by (simp_all only: ucast_byte cont unat_drop_bit_div)
  have lead: "(ucast (drop_bit j c OR w) :: ruint8) = of_nat (unat w + unat c div 2 ^ j)"
    if "unat c div 2 ^ j < 2 ^ k" "unat w = m * 2 ^ k" for j k m w
    using unat_or_add(2) [of "drop_bit j c" k w m] that
    by (simp only: ucast_byte unat_drop_bit_div)
  show "(ucast (drop_bit 6 c OR 0xc0) :: ruint8) = of_nat (0xc0 + unat c div 64)" if "unat c < 0x800"
    using lead [of 6 5 "0xc0" 6] that by simp
  show "(ucast (drop_bit 12 c OR 0xe0) :: ruint8) = of_nat (0xe0 + unat c div 4096)" if "unat c < 0x10000"
    using lead [of 12 4 "0xe0" 14] that by simp
  show "(ucast (drop_bit 18 c OR 0xf0) :: ruint8) = of_nat (0xf0 + unat c div 262144)" if "unat c < 0x110000"
    using lead [of 18 3 "0xf0" 30] that by simp
qed

lemma word_less_nat:
  "(c :: runichar) < 0x80 \<longleftrightarrow> unat c < 0x80" "c < 0x800 \<longleftrightarrow> unat c < 0x800" "c < 0x10000 \<longleftrightarrow> unat c < 0x10000"
  "c < 0x110000 \<longleftrightarrow> unat c < 0x110000" "c < 0xe000 \<longleftrightarrow> unat c < 0xe000" "c \<ge> 0xd800 \<longleftrightarrow> unat c \<ge> 0xd800"
  "c \<ge> 0x110000 \<longleftrightarrow> unat c \<ge> 0x110000" "c \<le> 0xffff \<longleftrightarrow> unat c < 0x10000"
  by (auto simp: word_less_nat_alt word_le_nat_alt)

lemma r_unichar_to_utf8_spec:
  assumes "c < 0x110000" "d + sz \<le> length dst"
  shows "r_unichar_to_utf8 c dst d sz =
    (if length (utf8_enc c) \<le> sz then Some (int (length (utf8_enc c)), write_at dst d (utf8_enc c)) else Some (- 1, dst))"
proof -
  consider "unat c < 0x80" | "0x80 \<le> unat c" "unat c < 0x800" | "0x800 \<le> unat c" "unat c < 0x10000"
    | "0x10000 \<le> unat c" "unat c < 0x110000" using assms(1) unfolding word_less_nat by linarith
  then show ?thesis
    using assms(2) unfolding r_unichar_to_utf8_def utf8_enc_def word_less_nat Let_def
    by cases (auto simp: utf8_bytes unat_drop_bit_div write_at_units [OF assms(2)])
qed

lemma unichar_arith:
  fixes b0 b1 b2 b3 :: ruint8
  shows "unat (push_bit 6 (ucast (b0 AND 0x1f)) OR ucast (b1 AND 0x3f) :: runichar) = unat b0 mod 32 * 64 + unat b1 mod 64"
    "unat ((push_bit 12 (ucast (b0 AND 0x0f)) OR push_bit 6 (ucast (b1 AND 0x3f))) OR ucast (b2 AND 0x3f) :: runichar)
       = unat b0 mod 16 * 4096 + unat b1 mod 64 * 64 + unat b2 mod 64"
    "unat (((push_bit 18 (ucast (b0 AND 0x07)) OR push_bit 12 (ucast (b1 AND 0x3f))) OR push_bit 6 (ucast (b2 AND 0x3f)))
        OR ucast (b3 AND 0x3f) :: runichar)
       = unat b0 mod 8 * 262144 + unat b1 mod 64 * 4096 + unat b2 mod 64 * 64 + unat b3 mod 64"
proof -
  have p: "unat (push_bit 6 (ucast (b AND 0x1f)) :: runichar) = unat b mod 32 * 64"
    "unat (push_bit 6 (ucast (b AND 0x3f)) :: runichar) = unat b mod 64 * 64"
    "unat (push_bit 12 (ucast (b AND 0x0f)) :: runichar) = unat b mod 16 * 4096"
    "unat (push_bit 12 (ucast (b AND 0x3f)) :: runichar) = unat b mod 64 * 4096"
    "unat (push_bit 18 (ucast (b AND 0x07)) :: runichar) = unat b mod 8 * 262144" for b :: ruint8
    by (subst unat_push_bit; simp add: unat_and_low; linarith?)+
  have m: "x mod 64 < (64 :: nat)" "x mod 64 * 64 < (4096 :: nat)" "x mod 64 * 4096 < (262144 :: nat)" for x
    using mod_less_divisor [of 64 x] by linarith+
  note u = p unat_and_low unat_ucast_byte
  show "unat (push_bit 6 (ucast (b0 AND 0x1f)) OR ucast (b1 AND 0x3f) :: runichar) = unat b0 mod 32 * 64 + unat b1 mod 64"
    by (subst unat_or_add(1) [of _ 6 _ "unat b0 mod 32"]) (simp_all add: u)
  have two: "unat (push_bit 12 (ucast (b0 AND 0x0f)) OR push_bit 6 (ucast (b1 AND 0x3f)) :: runichar)
      = unat b0 mod 16 * 4096 + unat b1 mod 64 * 64"
    by (subst unat_or_add(1) [of _ 12 _ "unat b0 mod 16"]) (use m in \<open>simp_all add: u\<close>)
  show "unat ((push_bit 12 (ucast (b0 AND 0x0f)) OR push_bit 6 (ucast (b1 AND 0x3f))) OR ucast (b2 AND 0x3f) :: runichar)
       = unat b0 mod 16 * 4096 + unat b1 mod 64 * 64 + unat b2 mod 64"
    by (subst unat_or_add(1) [of _ 6 _ "unat b0 mod 16 * 64 + unat b1 mod 64"]) (simp_all add: two u)
  have two': "unat (push_bit 18 (ucast (b0 AND 0x07)) OR push_bit 12 (ucast (b1 AND 0x3f)) :: runichar)
      = unat b0 mod 8 * 262144 + unat b1 mod 64 * 4096"
    by (subst unat_or_add(1) [of _ 18 _ "unat b0 mod 8"]) (use m in \<open>simp_all add: u\<close>)
  have three: "unat ((push_bit 18 (ucast (b0 AND 0x07)) OR push_bit 12 (ucast (b1 AND 0x3f))) OR push_bit 6 (ucast (b2 AND 0x3f)) :: runichar)
      = unat b0 mod 8 * 262144 + unat b1 mod 64 * 4096 + unat b2 mod 64 * 64"
    by (subst unat_or_add(1) [of _ 12 _ "unat b0 mod 8 * 64 + unat b1 mod 64"]) (use m in \<open>simp_all add: two' u\<close>)
  show "unat (((push_bit 18 (ucast (b0 AND 0x07)) OR push_bit 12 (ucast (b1 AND 0x3f))) OR push_bit 6 (ucast (b2 AND 0x3f)))
        OR ucast (b3 AND 0x3f) :: runichar)
       = unat b0 mod 8 * 262144 + unat b1 mod 64 * 4096 + unat b2 mod 64 * 64 + unat b3 mod 64"
    by (subst unat_or_add(1) [of _ 6 _ "unat b0 mod 8 * 4096 + unat b1 mod 64 * 64 + unat b2 mod 64"]) (simp_all add: three u)
qed

text \<open>The decoder on the well-formed sequences of each length.\<close>

abbreviation utf8_front :: "ruint8 list \<Rightarrow> (int \<times> runichar) option" where
  "utf8_front us \<equiv> r_utf8_to_unichar us 0 (length us) 0"

lemma fetch_numerals:
  "fetch (a # l) 0 = Some a" "fetch (a # b # l) 1 = Some b" "fetch (a # b # l) (Suc 0) = Some b"
  "fetch (a # b # c # l) 2 = Some c" "fetch (a # b # c # e # l) 3 = Some e"
  by (simp_all add: fetch_def eval_nat_numeral)

lemma lead_class:
  fixes b :: ruint8
  shows "unat b div 32 = 6 \<Longrightarrow> b AND 0x80 \<noteq> 0 \<and> b AND 0xe0 = 0xc0"
    and "unat b div 16 = 14 \<Longrightarrow> b AND 0x80 \<noteq> 0 \<and> b AND 0xe0 \<noteq> 0xc0 \<and> b AND 0xf0 = 0xe0"
    and "unat b div 8 = 30 \<Longrightarrow> b AND 0x80 \<noteq> 0 \<and> b AND 0xe0 \<noteq> 0xc0 \<and> b AND 0xf0 \<noteq> 0xe0 \<and> b AND 0xf8 = 0xf0"
  unfolding byte_class by linarith+

lemma utf8_front1: "unat b0 < 128 \<Longrightarrow> utf8_front (b0 # us) = Some (1, ucast (b0 AND 0x7f))"
  by (simp add: r_utf8_to_unichar_def fetch_numerals byte_class(1))

lemma utf8_front2:
  assumes "unat b0 div 32 = 6" "unat b1 div 64 = 2"
  shows "utf8_front (b0 # b1 # us) = (let uc = push_bit 6 (ucast (b0 AND 0x1f)) OR ucast (b1 AND 0x3f) in
    if uc < 0x80 then Some (R_UTF8_OVERLONG, uc) else Some (2, uc))"
proof -
  note c = lead_class(1) [OF assms(1)] assms(2) [folded byte_class(5)]
  then show ?thesis by (simp add: r_utf8_to_unichar_def fetch_numerals)
qed

lemma utf8_front3:
  assumes "unat b0 div 16 = 14" "unat b1 div 64 = 2" "unat b2 div 64 = 2"
  shows "utf8_front (b0 # b1 # b2 # us) = (let uc = (push_bit 12 (ucast (b0 AND 0x0f)) OR push_bit 6 (ucast (b1 AND 0x3f)))
      OR ucast (b2 AND 0x3f) in
    if uc < 0x800 then Some (R_UTF8_OVERLONG, uc) else Some (3, uc))"
proof -
  note c = lead_class(2) [OF assms(1)] assms(2,3) [folded byte_class(5)]
  then show ?thesis by (simp add: r_utf8_to_unichar_def fetch_numerals)
qed

lemma utf8_front4:
  assumes "unat b0 div 8 = 30" "unat b1 div 64 = 2" "unat b2 div 64 = 2" "unat b3 div 64 = 2"
  shows "utf8_front (b0 # b1 # b2 # b3 # us) = (let uc = ((push_bit 18 (ucast (b0 AND 0x07))
      OR push_bit 12 (ucast (b1 AND 0x3f))) OR push_bit 6 (ucast (b2 AND 0x3f))) OR ucast (b3 AND 0x3f) in
    if uc < 0x10000 then Some (R_UTF8_OVERLONG, uc) else Some (4, uc))"
proof -
  note c = lead_class(3) [OF assms(1)] assms(2-4) [folded byte_class(5)]
  then show ?thesis by (simp add: r_utf8_to_unichar_def fetch_numerals)
qed

lemma list_cases4:
  obtains (nil) "us = []" | (one) b0 where "us = [b0]" | (two) b0 b1 where "us = [b0, b1]"
  | (three) b0 b1 b2 where "us = [b0, b1, b2]" | (four) b0 b1 b2 b3 l where "us = b0 # b1 # b2 # b3 # l"
  by (cases us; cases "tl us"; cases "tl (tl us)"; cases "tl (tl (tl us))") auto

lemma fetch_short: "fetch [] i = None" "fetch [a] 1 = None" "fetch [a] (Suc 0) = None" "fetch [a, b] 2 = None"
  "fetch [a, b, c] 3 = None"
  by (simp_all add: fetch_def)

lemma utf8_front_total: "\<exists>r uc. utf8_front us = Some (r, uc)"
  by (cases us rule: list_cases4)
    (simp_all add: r_utf8_to_unichar_def fetch_numerals Let_def)

lemma utf8_front_cases:
  assumes "utf8_front us = Some (r, uc)" "r > 0"
  obtains (one) b0 l where "us = b0 # l" "unat b0 < 128"
  | (two) b0 b1 l where "us = b0 # b1 # l" "unat b0 div 32 = 6" "unat b1 div 64 = 2"
  | (three) b0 b1 b2 l where "us = b0 # b1 # b2 # l" "unat b0 div 16 = 14" "unat b1 div 64 = 2" "unat b2 div 64 = 2"
  | (four) b0 b1 b2 b3 l where "us = b0 # b1 # b2 # b3 # l" "unat b0 div 8 = 30" "unat b1 div 64 = 2"
      "unat b2 div 64 = 2" "unat b3 div 64 = 2"
  using assms unfolding byte_class [symmetric]
  by (cases us rule: list_cases4)
    (auto simp: r_utf8_to_unichar_def fetch_numerals Let_def split: if_splits)

lemma unat_of_byte [simp]: "n < 256 \<Longrightarrow> unat (of_nat n :: ruint8) = n"
  by (simp add: unat_of_nat)

lemma unat_of_unit [simp]: "n < 65536 \<Longrightarrow> unat (of_nat n :: runichar2) = n"
  by (simp add: unat_of_nat)

lemma cont_arith: "(0x80 + x mod 64) div 64 = (2 :: nat)" "(0x80 + x mod 64) mod 64 = (x mod 64 :: nat)" "0x80 + x mod 64 < (256 :: nat)"
proof -
  have "x mod 64 < 64" by simp
  then show "0x80 + x mod 64 < (256 :: nat)" "(0x80 + x mod 64) div 64 = (2 :: nat)" "(0x80 + x mod 64) mod 64 = (x mod 64 :: nat)"
    by (simp_all add: div_add1_eq mod_add_left_eq [symmetric])
qed

lemma lead_arith:
  fixes q :: nat
  shows "q < 32 \<Longrightarrow> (0xc0 + q) div 32 = 6 \<and> (0xc0 + q) mod 32 = q" and "q < 16 \<Longrightarrow> (0xe0 + q) div 16 = 14 \<and> (0xe0 + q) mod 16 = q"
    and "q < 8 \<Longrightarrow> (0xf0 + q) div 8 = 30 \<and> (0xf0 + q) mod 8 = q"
  using div_mult_self3 [of 32 6 q] mod_mult_self3 [of 6 32 q] div_mult_self3 [of 16 14 q] mod_mult_self3 [of 14 16 q]
    div_mult_self3 [of 8 30 q] mod_mult_self3 [of 30 8 q] by simp_all

lemma base64_digits:
  fixes n :: nat
  shows "n div 64 * 64 + n mod 64 = n" "n div 4096 * 4096 + n div 64 mod 64 * 64 + n mod 64 = n"
    "n div 262144 * 262144 + n div 4096 mod 64 * 4096 + n div 64 mod 64 * 64 + n mod 64 = n"
proof -
  have d: "n div 4096 = n div 64 div 64" "n div 262144 = n div 64 div 64 div 64" by (simp_all flip: div_mult2_eq)
  have "n div 64 * 64 + n mod 64 = n" "n div 64 div 64 * 64 + n div 64 mod 64 = n div 64"
    "n div 64 div 64 div 64 * 64 + n div 64 div 64 mod 64 = n div 64 div 64" by (rule div_mult_mod_eq)+
  then show "n div 64 * 64 + n mod 64 = n" "n div 4096 * 4096 + n div 64 mod 64 * 64 + n mod 64 = n"
    "n div 262144 * 262144 + n div 4096 mod 64 * 4096 + n div 64 mod 64 * 64 + n mod 64 = n"
    unfolding d by linarith+
qed

lemma utf8_enc_cases:
  fixes c :: runichar
  assumes "unat c < 0x110000"
  obtains (one) "utf8_enc c = [of_nat (unat c)]" "unat c < 0x80"
  | (two) "utf8_enc c = [of_nat (0xc0 + unat c div 64), of_nat (0x80 + unat c mod 64)]" "0x80 \<le> unat c" "unat c < 0x800"
  | (three) "utf8_enc c = [of_nat (0xe0 + unat c div 4096), of_nat (0x80 + unat c div 64 mod 64), of_nat (0x80 + unat c mod 64)]"
      "0x800 \<le> unat c" "unat c < 0x10000"
  | (four) "utf8_enc c = [of_nat (0xf0 + unat c div 262144), of_nat (0x80 + unat c div 4096 mod 64),
      of_nat (0x80 + unat c div 64 mod 64), of_nat (0x80 + unat c mod 64)]" "0x10000 \<le> unat c"
  by (cases "unat c < 0x80"; cases "unat c < 0x800"; cases "unat c < 0x10000") (auto simp: utf8_enc_def Let_def simp del: of_nat_add)

lemma utf8_front_enc:
  assumes "unat c < 0x110000"
  shows "utf8_front (utf8_enc c @ us) = Some (int (length (utf8_enc c)), c)"
  using assms
proof (cases rule: utf8_enc_cases)
  case one
  let ?b0 = "of_nat (unat c) :: ruint8"
  have u: "unat ?b0 = unat c" using one by (simp del: of_nat_unat)
  then have "unat (ucast (?b0 AND 0x7f) :: runichar) = unat c" using one by (simp add: unat_and_low del: of_nat_unat)
  then have "ucast (?b0 AND 0x7f) = c" by (simp only: word_unat_eq_iff)
  with one u show ?thesis using utf8_front1 [of ?b0 us] by (simp del: of_nat_unat)
next
  case two
  have q: "unat c div 64 < 32" using two by (simp add: less_mult_imp_div_less)
  let ?b0 = "of_nat (0xc0 + unat c div 64) :: ruint8" and ?b1 = "of_nat (0x80 + unat c mod 64) :: ruint8"
  have u: "unat ?b0 = 0xc0 + unat c div 64" "unat ?b1 = 0x80 + unat c mod 64"
    using q cont_arith(3) [of "unat c"] by (simp_all del: of_nat_add)
  have "unat (push_bit 6 (ucast (?b0 AND 0x1f)) OR ucast (?b1 AND 0x3f) :: runichar) = unat c"
    unfolding unichar_arith u cont_arith using lead_arith(1) [OF q] base64_digits(1) [of "unat c"] by simp
  then have eq: "push_bit 6 (ucast (?b0 AND 0x1f)) OR ucast (?b1 AND 0x3f) = c" by (simp only: word_unat_eq_iff)
  have "utf8_front (?b0 # ?b1 # us) = (let uc = c in if uc < 0x80 then Some (R_UTF8_OVERLONG, uc) else Some (2, uc))"
    using utf8_front2 [of ?b0 ?b1 us] unfolding u eq cont_arith using lead_arith(1) [OF q] by simp
  then show ?thesis using two by (simp add: word_less_nat del: of_nat_add)
next
  case three
  have q: "unat c div 4096 < 16" using three by (simp add: less_mult_imp_div_less)
  let ?b0 = "of_nat (0xe0 + unat c div 4096) :: ruint8" and ?b1 = "of_nat (0x80 + unat c div 64 mod 64) :: ruint8"
    and ?b2 = "of_nat (0x80 + unat c mod 64) :: ruint8"
  have u: "unat ?b0 = 0xe0 + unat c div 4096" "unat ?b1 = 0x80 + unat c div 64 mod 64" "unat ?b2 = 0x80 + unat c mod 64"
    using q cont_arith(3) [of "unat c"] cont_arith(3) [of "unat c div 64"] by (simp_all del: of_nat_add)
  have "unat ((push_bit 12 (ucast (?b0 AND 0x0f)) OR push_bit 6 (ucast (?b1 AND 0x3f))) OR ucast (?b2 AND 0x3f) :: runichar) = unat c"
    unfolding unichar_arith u cont_arith using lead_arith(2) [OF q] base64_digits(2) [of "unat c"] by simp
  then have eq: "(push_bit 12 (ucast (?b0 AND 0x0f)) OR push_bit 6 (ucast (?b1 AND 0x3f))) OR ucast (?b2 AND 0x3f) = c"
    by (simp only: word_unat_eq_iff)
  have "utf8_front (?b0 # ?b1 # ?b2 # us) = (let uc = c in if uc < 0x800 then Some (R_UTF8_OVERLONG, uc) else Some (3, uc))"
    using utf8_front3 [of ?b0 ?b1 ?b2 us] unfolding u eq cont_arith using lead_arith(2) [OF q] by simp
  then show ?thesis using three by (simp add: word_less_nat del: of_nat_add)
next
  case four
  have q: "unat c div 262144 < 8" using assms by (simp add: less_mult_imp_div_less)
  let ?b0 = "of_nat (0xf0 + unat c div 262144) :: ruint8" and ?b1 = "of_nat (0x80 + unat c div 4096 mod 64) :: ruint8"
    and ?b2 = "of_nat (0x80 + unat c div 64 mod 64) :: ruint8" and ?b3 = "of_nat (0x80 + unat c mod 64) :: ruint8"
  have u: "unat ?b0 = 0xf0 + unat c div 262144" "unat ?b1 = 0x80 + unat c div 4096 mod 64" "unat ?b2 = 0x80 + unat c div 64 mod 64"
    "unat ?b3 = 0x80 + unat c mod 64"
    using q cont_arith(3) [of "unat c"] cont_arith(3) [of "unat c div 64"] cont_arith(3) [of "unat c div 4096"]
    by (simp_all del: of_nat_add)
  have "unat (((push_bit 18 (ucast (?b0 AND 0x07)) OR push_bit 12 (ucast (?b1 AND 0x3f))) OR push_bit 6 (ucast (?b2 AND 0x3f)))
      OR ucast (?b3 AND 0x3f) :: runichar) = unat c"
    unfolding unichar_arith u cont_arith using lead_arith(3) [OF q] base64_digits(3) [of "unat c"] by simp
  then have eq: "((push_bit 18 (ucast (?b0 AND 0x07)) OR push_bit 12 (ucast (?b1 AND 0x3f))) OR push_bit 6 (ucast (?b2 AND 0x3f)))
      OR ucast (?b3 AND 0x3f) = c" by (simp only: word_unat_eq_iff)
  have "utf8_front (?b0 # ?b1 # ?b2 # ?b3 # us) = (let uc = c in if uc < 0x10000 then Some (R_UTF8_OVERLONG, uc) else Some (4, uc))"
    using utf8_front4 [of ?b0 ?b1 ?b2 ?b3 us] unfolding u eq cont_arith using lead_arith(3) [OF q] by simp
  then show ?thesis using four by (simp add: word_less_nat del: of_nat_add)
qed

lemma join64:
  fixes q r :: nat
  assumes "r < 64"
  shows "(q * 64 + r) div 64 = q" and "(q * 64 + r) mod 64 = r"
  using assms by simp_all

lemma byte_join:
  fixes b :: nat
  shows "b div 64 = 2 \<Longrightarrow> 0x80 + b mod 64 = b" "b div 32 = 6 \<Longrightarrow> 0xc0 + b mod 32 = b" "b div 16 = 14 \<Longrightarrow> 0xe0 + b mod 16 = b"
    "b div 8 = 30 \<Longrightarrow> 0xf0 + b mod 8 = b"
  using div_mult_mod_eq [of b 64] div_mult_mod_eq [of b 32] div_mult_mod_eq [of b 16] div_mult_mod_eq [of b 8]
  by simp_all

lemma utf8_enc_nat:
  "n < 0x80 \<Longrightarrow> unat c = n \<Longrightarrow> utf8_enc c = [of_nat n]"
  "0x80 \<le> n \<Longrightarrow> n < 0x800 \<Longrightarrow> unat c = n \<Longrightarrow> utf8_enc c = [of_nat (0xc0 + n div 64), of_nat (0x80 + n mod 64)]"
  "0x800 \<le> n \<Longrightarrow> n < 0x10000 \<Longrightarrow> unat c = n \<Longrightarrow>
     utf8_enc c = [of_nat (0xe0 + n div 64 div 64), of_nat (0x80 + n div 64 mod 64), of_nat (0x80 + n mod 64)]"
  "0x10000 \<le> n \<Longrightarrow> unat c = n \<Longrightarrow>
     utf8_enc c = [of_nat (0xf0 + n div 64 div 64 div 64), of_nat (0x80 + n div 64 div 64 mod 64),
       of_nat (0x80 + n div 64 mod 64), of_nat (0x80 + n mod 64)]"
  unfolding utf8_enc_def Let_def by (simp_all del: of_nat_add of_nat_unat flip: div_mult2_eq)

lemma utf8_enc_front:
  assumes "utf8_front us = Some (r, uc)" "r > 0"
  shows "r = int (length (utf8_enc uc)) \<and> (\<exists>l. us = utf8_enc uc @ l)"
  using assms
proof (cases rule: utf8_front_cases)
  case (one b0 l)
  then have r: "r = 1" and uc: "uc = ucast (b0 AND 0x7f)" using assms(1) utf8_front1 [of b0 l] by auto
  have "unat uc = unat b0" using one by (simp add: unat_and_low uc)
  with one r show ?thesis using utf8_enc_nat(1) [of "unat b0" uc] by simp
next
  case (two b0 b1 l)
  define m s where ms: "m = unat b0 mod 32" "s = unat b1 mod 64"
  have b: "m < 32" "s < 64" by (simp_all add: ms)
  have uc: "unat uc = m * 64 + s" "0x80 \<le> m * 64 + s" "r = 2"
    using assms two utf8_front2 [of b0 b1 l] unichar_arith(1) [of b0 b1]
    by (auto simp: ms Let_def word_less_nat not_less split: if_splits)
  have lt: "m * 64 + s < 0x800" using b by linarith
  have enc: "utf8_enc uc = [of_nat (0xc0 + m), of_nat (0x80 + s)]"
    using utf8_enc_nat(2) [OF uc(2) lt uc(1)] unfolding join64 [OF b(2)] .
  have bs: "0xc0 + m = unat b0" "0x80 + s = unat b1"
    unfolding ms by (rule byte_join; fact)+
  show ?thesis using uc(3) two(1) unfolding enc bs by simp
next
  case (three b0 b1 b2 l)
  define m s t where mst: "m = unat b0 mod 16" "s = unat b1 mod 64" "t = unat b2 mod 64"
  have b: "m < 16" "s < 64" "t < 64" by (simp_all add: mst)
  have uc: "unat uc = (m * 64 + s) * 64 + t" "0x800 \<le> (m * 64 + s) * 64 + t" "r = 3"
    using assms three utf8_front3 [of b0 b1 b2 l] unichar_arith(2) [of b0 b1 b2]
    by (auto simp: mst Let_def word_less_nat not_less algebra_simps split: if_splits)
  have "m \<le> 15" "s \<le> 63" "t \<le> 63" using b by simp_all
  then have lt: "(m * 64 + s) * 64 + t < 0x10000" by (simp add: distrib_right)
  have enc: "utf8_enc uc = [of_nat (0xe0 + m), of_nat (0x80 + s), of_nat (0x80 + t)]"
    using utf8_enc_nat(3) [OF uc(2) lt uc(1)] unfolding join64 [OF b(2)] join64 [OF b(3)] .
  have bs: "0xe0 + m = unat b0" "0x80 + s = unat b1" "0x80 + t = unat b2"
    unfolding mst by (rule byte_join; fact)+
  show ?thesis using uc(3) three(1) unfolding enc bs by simp
next
  case (four b0 b1 b2 b3 l)
  define m s t v where mstv: "m = unat b0 mod 8" "s = unat b1 mod 64" "t = unat b2 mod 64" "v = unat b3 mod 64"
  have b: "m < 8" "s < 64" "t < 64" "v < 64" by (simp_all add: mstv)
  have uc: "unat uc = ((m * 64 + s) * 64 + t) * 64 + v" "0x10000 \<le> ((m * 64 + s) * 64 + t) * 64 + v" "r = 4"
    using assms four utf8_front4 [of b0 b1 b2 b3 l] unichar_arith(3) [of b0 b1 b2 b3]
    by (auto simp: mstv Let_def word_less_nat not_less algebra_simps split: if_splits)
  have enc: "utf8_enc uc = [of_nat (0xf0 + m), of_nat (0x80 + s), of_nat (0x80 + t), of_nat (0x80 + v)]"
    using utf8_enc_nat(4) [OF uc(2) uc(1)] unfolding join64 [OF b(2)] join64 [OF b(3)] join64 [OF b(4)] .
  have bs: "0xf0 + m = unat b0" "0x80 + s = unat b1" "0x80 + t = unat b2" "0x80 + v = unat b3"
    unfolding mstv by (rule byte_join; fact)+
  show ?thesis using uc(3) four(1) unfolding enc bs by simp
qed

section \<open>Transcoding\<close>

text \<open>
  Reading from one form and writing another: the result code, the units written and the number of
  units read.  \<open>room\<close> is the space for the output, \<open>ovf k\<close> the number of units passed over when a
  code point of \<open>k\<close> units does not fit.
\<close>

function transcode ::
  "('u list \<Rightarrow> dstep) \<Rightarrow> (runichar \<Rightarrow> 'v list) \<Rightarrow> (nat \<Rightarrow> nat) \<Rightarrow> nat \<Rightarrow> 'u list \<Rightarrow> RUnicodeResult \<times> 'v list \<times> nat" where
  "transcode step enc ovf room us =
     (case step us of
        Done \<Rightarrow> (R_UNICODE_OK, [], 0)
      | Bad e \<Rightarrow> (e, [], 0)
      | Chr c k \<Rightarrow>
          if k = 0 \<or> us = [] then (R_UNICODE_OK, [], 0)
          else if length (enc c) > room then (R_UNICODE_OVERFLOW, [], ovf k)
          else (case transcode step enc ovf (room - length (enc c)) (drop k us) of
            (r, out, n) \<Rightarrow> (r, enc c @ out, n + k)))"
  by pat_completeness auto
termination
  by (relation "measure (\<lambda>(step, enc, ovf, room, us). length us)") auto

declare transcode.simps [simp del]

abbreviation encode_all :: "(runichar \<Rightarrow> 'u list) \<Rightarrow> runichar list \<Rightarrow> 'u list" where
  "encode_all enc cs \<equiv> concat (map enc cs)"

abbreviation text_in :: "(runichar \<Rightarrow> bool) \<Rightarrow> runichar list \<Rightarrow> bool" where
  "text_in valid cs \<equiv> list_all (\<lambda>c. valid c \<and> c \<noteq> 0) cs"

abbreviation text_of :: "runichar list \<Rightarrow> bool" where
  "text_of cs \<equiv> text_in scalar cs"

abbreviation at_end :: "'u :: zero list \<Rightarrow> bool" where
  "at_end us \<equiv> us = [] \<or> hd us = 0"

text \<open>What every decoder promises: a code point it finds lies in the string.\<close>

locale decoder =
  fixes step :: "'u list \<Rightarrow> dstep"
  assumes step_Chr_length: "step us = Chr c k \<Longrightarrow> 0 < k \<and> k \<le> length us"
begin

lemma transcode_room:
  assumes "transcode step enc ovf room us = (r, out, n)"
  shows "length out \<le> room"
  using assms
proof (induction "length us" arbitrary: us room r out n rule: less_induct)
  case less
  show ?case
  proof (cases "step us")
    case (Chr c k)
    obtain r' out' n' where t: "transcode step enc ovf (room - length (enc c)) (drop k us) = (r', out', n')"
      by (cases "transcode step enc ovf (room - length (enc c)) (drop k us)")
    have "length (drop k us) < length us" using step_Chr_length [OF Chr] by auto
    from less.hyps [OF this t] show ?thesis
      using less.prems Chr t by (auto simp: transcode.simps [of step enc ovf room us] split: if_splits)
  qed (use less.prems in \<open>simp_all add: transcode.simps\<close>)
qed

end

section \<open>Encoding forms as codecs\<close>

text \<open>
  Reading back what was written gives the code point and its length, and whatever is accepted was
  written that way: an encoding form has one representation of each of its code points.
\<close>

locale codec =
  fixes valid :: "runichar \<Rightarrow> bool" and step :: "'u :: zero list \<Rightarrow> dstep" and enc :: "runichar \<Rightarrow> 'u list"
  assumes step_enc: "valid c \<Longrightarrow> c \<noteq> 0 \<Longrightarrow> step (enc c @ us) = Chr c (length (enc c))"
    and step_Chr: "step us = Chr c k \<Longrightarrow> valid c \<and> c \<noteq> 0 \<and> k = length (enc c) \<and> (\<exists>l. us = enc c @ l)"
    and enc_nonempty: "enc c \<noteq> []"
    and step_Done: "step us = Done \<longleftrightarrow> us = [] \<or> hd us = 0"
    and step_Bad: "step us \<noteq> Bad R_UNICODE_OK"

sublocale codec \<subseteq> decoder step
proof
  show "0 < k \<and> k \<le> length us" if "step us = Chr c k" for us c k
    using step_Chr [OF that] enc_nonempty [of c] by auto
qed

context codec
begin

lemma transcode_text:
  assumes "text_in valid cs" "length (encode_all enc' cs) \<le> room" "at_end rest"
  shows "transcode step enc' ovf room (encode_all enc cs @ rest)
    = (R_UNICODE_OK, encode_all enc' cs, length (encode_all enc cs))"
  using assms(1,2)
proof (induction cs arbitrary: room)
  case Nil
  then show ?case using assms(3) step_Done [of rest] by (simp add: transcode.simps)
next
  case (Cons c cs)
  have "step (enc c @ encode_all enc cs @ rest) = Chr c (length (enc c))"
    by (rule step_enc) (use Cons.prems in auto)
  then show ?case
    using Cons.IH [of "room - length (enc' c)"] Cons.prems enc_nonempty [of c]
    by (subst transcode.simps) (simp add: add.commute)
qed

lemma transcode_sound:
  assumes "transcode step enc' ovf room us = (r, out, n)"
  shows "\<exists>cs rest. text_in valid cs \<and> us = encode_all enc cs @ rest \<and> out = encode_all enc' cs \<and> length out \<le> room \<and>
    (r = R_UNICODE_OK \<longrightarrow> n = length (encode_all enc cs) \<and> at_end rest)"
  using assms
proof (induction "length us" arbitrary: us room r out n rule: less_induct)
  case less
  show ?case
  proof (cases "step us")
    case Done
    with less.prems have r: "r = R_UNICODE_OK" "out = []" "n = 0" by (simp_all add: transcode.simps)
    have "at_end us" using Done step_Done by blast
    with r show ?thesis by (intro exI [of _ "[]"] exI [of _ us]) simp
  next
    case (Bad e)
    then have "e \<noteq> R_UNICODE_OK" using step_Bad [of us] by auto
    with Bad less.prems show ?thesis by (intro exI [of _ "[]"] exI [of _ us]) (auto simp: transcode.simps)
  next
    case (Chr c k)
    then obtain l where c: "valid c" "c \<noteq> 0" "k = length (enc c)" "us = enc c @ l" using step_Chr by blast
    have k: "k \<noteq> 0" "us \<noteq> []" "drop k us = l" using c enc_nonempty [of c] by auto
    show ?thesis
    proof (cases "length (enc' c) > room")
      case True
      with Chr k less.prems have "r = R_UNICODE_OVERFLOW" "out = []" by (simp_all add: transcode.simps)
      then show ?thesis by (intro exI [of _ "[]"] exI [of _ us]) simp
    next
      case False
      obtain r' out' n' where t: "transcode step enc' ovf (room - length (enc' c)) l = (r', out', n')" by (cases "transcode step enc' ovf (room - length (enc' c)) l")
      have eq: "r = r'" "out = enc' c @ out'" "n = n' + k"
        using less.prems Chr k False t by (simp_all add: transcode.simps [of step enc' ovf room us])
      have "length l < length us" using c enc_nonempty [of c] by simp
      from less.hyps [OF this t] obtain cs rest where
        "text_in valid cs" "l = encode_all enc cs @ rest" "out' = encode_all enc' cs" "length out' \<le> room - length (enc' c)"
        "r' = R_UNICODE_OK \<longrightarrow> n' = length (encode_all enc cs) \<and> at_end rest" by blast
      then show ?thesis using c eq False by (intro exI [of _ "c # cs"] exI [of _ rest]) auto
    qed
  qed
qed

end

lemma scalar_nat: "scalar c \<longleftrightarrow> unat c < 0xd800 \<or> 0xe000 \<le> unat c \<and> unat c < 0x110000"
  unfolding bad_code_point_def word_less_nat by linarith

lemma utf8_enc_nonempty: "utf8_enc c \<noteq> []"
  by (simp add: utf8_enc_def Let_def)

lemma utf8_step_front:
  "us \<noteq> [] \<Longrightarrow> hd us \<noteq> 0 \<Longrightarrow> utf8_front us = Some x \<Longrightarrow> utf8_step us = utf8_result x"
  by (cases us) (simp_all add: utf8_step_def)

lemma utf8_enc_hd:
  assumes "unat c < 0x110000" "c \<noteq> 0"
  shows "hd (utf8_enc c) \<noteq> 0"
proof
  assume "hd (utf8_enc c) = 0"
  then obtain l where l: "utf8_enc c = 0 # l" using utf8_enc_nonempty [of c] by (cases "utf8_enc c") auto
  have "utf8_front (0 # l) = Some (1, 0)" using utf8_front1 [of 0 l] by simp
  with utf8_front_enc [OF assms(1), of "[]"] l assms(2) show False by simp
qed

lemma utf8_front_zero: "utf8_front us = Some (r, uc) \<Longrightarrow> us \<noteq> [] \<Longrightarrow> r \<noteq> 0"
  by (cases us rule: list_cases4)
    (auto simp: r_utf8_to_unichar_def fetch_numerals Let_def split: if_splits)

interpretation utf8: codec scalar utf8_step utf8_enc
proof
  fix c us
  assume c: "scalar c" "c \<noteq> 0"
  then have lt: "unat c < 0x110000" by (auto simp: scalar_nat)
  have "utf8_step (utf8_enc c @ us) = utf8_result (int (length (utf8_enc c)), c)"
    by (rule utf8_step_front) (use utf8_front_enc [OF lt] utf8_enc_hd [OF lt c(2)] utf8_enc_nonempty in auto)
  then show "utf8_step (utf8_enc c @ us) = Chr c (length (utf8_enc c))"
    using c utf8_enc_nonempty [of c] by (simp add: utf8_result_def)
next
  fix us c k
  assume step: "utf8_step us = Chr c k"
  then have us: "us \<noteq> []" "hd us \<noteq> 0" by (auto simp: utf8_step_def split: list.splits if_splits)
  obtain r uc where f: "utf8_front us = Some (r, uc)" using utf8_front_total by blast
  have "r > 0" "scalar uc" "c = uc" "k = nat r"
    using step utf8_step_front [OF us f] by (auto simp: utf8_result_def split: if_splits)
  moreover obtain l where l: "us = utf8_enc uc @ l" "r = int (length (utf8_enc uc))" using utf8_enc_front [OF f \<open>r > 0\<close>] by blast
  moreover have "uc \<noteq> 0"
  proof
    assume "uc = 0"
    with l us show False by (simp add: utf8_enc_def)
  qed
  ultimately show "scalar c \<and> c \<noteq> 0 \<and> k = length (utf8_enc c) \<and> (\<exists>l. us = utf8_enc c @ l)" by auto
next
  show "utf8_enc c \<noteq> []" for c by (rule utf8_enc_nonempty)
next
  fix us
  obtain r uc where f: "utf8_front us = Some (r, uc)" using utf8_front_total by blast
  show "utf8_step us = Done \<longleftrightarrow> us = [] \<or> hd us = 0"
    using utf8_step_front [OF _ _ f] utf8_front_zero [OF f]
    by (cases us) (auto simp: utf8_step_def utf8_result_def split: if_splits)
  show "utf8_step us \<noteq> Bad R_UNICODE_OK"
    by (auto simp: utf8_step_def utf8_result_def split: list.splits if_splits option.splits prod.splits)
qed

lemma unit_less_nat:
  "(u :: runichar2) < 0xd800 \<longleftrightarrow> unat u < 0xd800" "u < 0xdc00 \<longleftrightarrow> unat u < 0xdc00" "u < 0xe000 \<longleftrightarrow> unat u < 0xe000"
  "u \<ge> 0xd800 \<longleftrightarrow> unat u \<ge> 0xd800" "u \<ge> 0xdc00 \<longleftrightarrow> unat u \<ge> 0xdc00" "u \<ge> 0xe000 \<longleftrightarrow> unat u \<ge> 0xe000"
  by (auto simp: word_less_nat_alt word_le_nat_alt)

abbreviation high_surrogate :: "runichar2 \<Rightarrow> bool" where
  "high_surrogate u \<equiv> 0xd800 \<le> unat u \<and> unat u < 0xdc00"

abbreviation low_surrogate :: "runichar2 \<Rightarrow> bool" where
  "low_surrogate u \<equiv> 0xdc00 \<le> unat u \<and> unat u < 0xe000"

lemma unat_pair_code_point:
  assumes "high_surrogate hi" "low_surrogate lo"
  shows "unat (pair_code_point hi lo) = 0x10000 + (unat hi - 0xd800) * 0x400 + (unat lo - 0xdc00)"
    and "pair_code_point2 hi lo = pair_code_point hi lo"
proof -
  have hc: "unat (hi - 0xd800) = unat hi - 0xd800" using assms by (simp add: unat_sub unit_less_nat)
  have hb: "unat hi - 0xd800 < 0x400" using assms by linarith
  have lc: "unat (lo - 0xdc00) = unat lo - 0xdc00" using assms by (simp add: unat_sub unit_less_nat)
  have p: "unat (push_bit 10 (ucast (hi - 0xd800)) :: runichar) = (unat hi - 0xd800) * 0x400"
    using hb by (subst unat_push_bit) (simp_all add: hc)
  have l: "unat (ucast lo - 0xdc00 :: runichar) = unat lo - 0xdc00"
    using assms by (subst unat_sub) (simp_all add: word_le_nat_alt)
  show 1: "unat (pair_code_point hi lo) = 0x10000 + (unat hi - 0xd800) * 0x400 + (unat lo - 0xdc00)"
    unfolding pair_code_point_def Let_def using assms hb by (simp add: unat_word_ariths(1) l p)
  have "unat (pair_code_point2 hi lo) = 0x10000 + (unat hi - 0xd800) * 0x400 + (unat lo - 0xdc00)"
    unfolding pair_code_point2_def using assms hb by (simp add: unat_word_ariths(1) lc p)
  with 1 show "pair_code_point2 hi lo = pair_code_point hi lo" by (simp add: word_unat_eq_iff)
qed

lemma ucast_unit: "(ucast (w :: runichar) :: runichar2) = of_nat (unat w)"
  by simp

lemma utf16_units:
  fixes c :: runichar
  shows "unat c < 0x10000 \<Longrightarrow> (ucast c AND 0xffff :: runichar2) = of_nat (unat c)"
    and "0x10000 \<le> unat c \<Longrightarrow> unat c < 0x110000 \<Longrightarrow>
      (ucast ((c - 0x10000) div 0x400 OR 0xd800) :: runichar2) = of_nat (0xd800 + (unat c - 0x10000) div 0x400)"
    and "0x10000 \<le> unat c \<Longrightarrow> unat c < 0x110000 \<Longrightarrow>
      (ucast ((c - 0x10000) mod 0x400 OR 0xdc00) :: runichar2) = of_nat (0xdc00 + (unat c - 0x10000) mod 0x400)"
proof -
  have "(0xffff :: runichar2) = - 1" by simp
  then show "(ucast c AND 0xffff :: runichar2) = of_nat (unat c)" by (simp only: and.right_neutral ucast_unit)
  assume c: "0x10000 \<le> unat c" "unat c < 0x110000"
  have s: "unat (c - 0x10000) = unat c - 0x10000" using c by (simp add: unat_sub word_le_nat_alt)
  have q: "(unat c - 0x10000) div 0x400 < 2 ^ 10" using c by (simp add: less_mult_imp_div_less)
  have "unat ((c - 0x10000) div 0x400 OR 0xd800) = 0xd800 + (unat c - 0x10000) div 0x400"
    using unat_or_add(2) [of "(c - 0x10000) div 0x400" 10 "0xd800" 54] q by (simp add: unat_div s)
  then show "(ucast ((c - 0x10000) div 0x400 OR 0xd800) :: runichar2) = of_nat (0xd800 + (unat c - 0x10000) div 0x400)"
    by (simp only: ucast_unit)
  have "unat ((c - 0x10000) mod 0x400 OR 0xdc00) = 0xdc00 + (unat c - 0x10000) mod 0x400"
    using unat_or_add(2) [of "(c - 0x10000) mod 0x400" 10 "0xdc00" 55] by (simp add: unat_mod s)
  then show "(ucast ((c - 0x10000) mod 0x400 OR 0xdc00) :: runichar2) = of_nat (0xdc00 + (unat c - 0x10000) mod 0x400)"
    by (simp only: ucast_unit)
qed

lemma utf16_enc_one: "unat c < 0x10000 \<Longrightarrow> utf16_enc c = [of_nat (unat c)]"
  by (simp add: utf16_enc_def Let_def del: of_nat_unat)

lemma utf16_enc_two: "0x10000 \<le> unat c \<Longrightarrow>
    utf16_enc c = [of_nat (0xd800 + (unat c - 0x10000) div 0x400), of_nat (0xdc00 + (unat c - 0x10000) mod 0x400)]"
  by (simp add: utf16_enc_def Let_def del: of_nat_add)

lemma surrogates_of:
  assumes "0x10000 \<le> unat (c :: runichar)" "unat c < 0x110000"
  defines "hi \<equiv> of_nat (0xd800 + (unat c - 0x10000) div 0x400) :: runichar2"
    and "lo \<equiv> of_nat (0xdc00 + (unat c - 0x10000) mod 0x400) :: runichar2"
  shows "high_surrogate hi" "low_surrogate lo" "pair_code_point hi lo = c"
proof -
  have q: "(unat c - 0x10000) div 0x400 < 0x400" using assms by (simp add: less_mult_imp_div_less)
  have m: "(unat c - 0x10000) mod 0x400 < 0x400" by simp
  have u: "unat hi = 0xd800 + (unat c - 0x10000) div 0x400" "unat lo = 0xdc00 + (unat c - 0x10000) mod 0x400"
    unfolding hi_def lo_def by (rule unat_of_unit; use q m in linarith)+
  then show hl: "high_surrogate hi" "low_surrogate lo" using q m by linarith+
  have "unat (pair_code_point hi lo) = unat c"
    unfolding unat_pair_code_point(1) [OF hl] u using assms(1) div_mult_mod_eq [of "unat c - 0x10000" "0x400"] by simp
  then show "pair_code_point hi lo = c" by (simp only: word_unat_eq_iff)
qed

lemma enc_pair:
  assumes "high_surrogate hi" "low_surrogate lo"
  shows "utf16_enc (pair_code_point hi lo) = [hi, lo]" and "0x10000 \<le> unat (pair_code_point hi lo)"
    and "unat (pair_code_point hi lo) < 0x110000"
proof -
  note u = unat_pair_code_point(1) [OF assms]
  show ge: "0x10000 \<le> unat (pair_code_point hi lo)" and "unat (pair_code_point hi lo) < 0x110000"
    unfolding u using assms by linarith+
  have l: "unat lo - 0xdc00 < 0x400" using assms by linarith
  define a b where ab: "a = unat hi - 0xd800" "b = unat lo - 0xdc00"
  have "unat (pair_code_point hi lo) - 0x10000 = a * 0x400 + b" unfolding u ab by simp
  moreover have "b < 0x400" "0xd800 + a = unat hi" "0xdc00 + b = unat lo" using l assms by (simp_all add: ab)
  ultimately have "0xd800 + (unat (pair_code_point hi lo) - 0x10000) div 0x400 = unat hi"
    "0xdc00 + (unat (pair_code_point hi lo) - 0x10000) mod 0x400 = unat lo" by simp_all
  then show "utf16_enc (pair_code_point hi lo) = [hi, lo]"
    using utf16_enc_two [OF ge] by simp
qed

lemma utf16_step_bmp: "unat u < 0xd800 \<or> 0xe000 \<le> unat u \<Longrightarrow> u \<noteq> 0 \<Longrightarrow> utf16_step (u # us) = Chr (ucast u) 1"
  by (auto simp: unit_less_nat)

lemma utf16_step_pair: "high_surrogate u \<Longrightarrow> low_surrogate v \<Longrightarrow> utf16_step (u # v # us) = Chr (pair_code_point u v) 2"
  by (auto simp: unit_less_nat)

lemma utf16_step_cases:
  assumes "utf16_step us = Chr c k"
  obtains (bmp) u l where "us = u # l" "u \<noteq> 0" "unat u < 0xd800 \<or> 0xe000 \<le> unat u" "c = ucast u" "k = 1"
  | (pair) u v l where "us = u # v # l" "high_surrogate u" "low_surrogate v" "c = pair_code_point u v" "k = 2"
  using assms by (cases us) (auto simp: unit_less_nat not_less split: if_splits list.splits)

interpretation utf16: codec scalar utf16_step utf16_enc
proof
  fix c us
  assume c: "scalar c" "c \<noteq> 0"
  show "utf16_step (utf16_enc c @ us) = Chr c (length (utf16_enc c))"
  proof (cases "unat c < 0x10000")
    case True
    let ?u = "of_nat (unat c) :: runichar2"
    have u: "unat ?u = unat c" using True by (simp del: of_nat_unat)
    have ne: "?u \<noteq> 0" using c(2) u by (metis unat_0 word_unat_eq_iff)
    have "unat (ucast ?u :: runichar) = unat c" using u by (simp del: of_nat_unat)
    then have cu: "(ucast ?u :: runichar) = c" by (simp only: word_unat_eq_iff)
    have "utf16_step (?u # us) = Chr (ucast ?u) 1"
      by (rule utf16_step_bmp [OF _ ne]) (use c(1) True u in \<open>auto simp: scalar_nat simp del: of_nat_unat\<close>)
    then show ?thesis using utf16_enc_one [OF True] cu by (simp del: of_nat_unat utf16_step.simps)
  next
    case False
    with c have "0x10000 \<le> unat c" "unat c < 0x110000" by (auto simp: scalar_nat)
    from surrogates_of [OF this] show ?thesis
      using utf16_enc_two [OF \<open>0x10000 \<le> unat c\<close>] by (simp add: utf16_step_pair del: utf16_step.simps of_nat_add)
  qed
next
  fix us c k
  assume "utf16_step us = Chr c k"
  then show "scalar c \<and> c \<noteq> 0 \<and> k = length (utf16_enc c) \<and> (\<exists>l. us = utf16_enc c @ l)"
  proof (cases rule: utf16_step_cases)
    case (bmp u l)
    have n: "unat c = unat u" using bmp by simp
    moreover have "utf16_enc c = [u]" using utf16_enc_one [of c] unit_less [of u] n by simp
    moreover have "c \<noteq> 0" using bmp(2) n by (metis unat_0 word_unat_eq_iff)
    ultimately show ?thesis using bmp unit_less [of u] by (auto simp: scalar_nat)
  next
    case (pair u v l)
    note e = enc_pair [OF pair(2,3)]
    have "c \<noteq> 0" using e(2) pair(4) by auto
    then show ?thesis using pair e by (simp add: scalar_nat)
  qed
next
  show "utf16_enc c \<noteq> []" for c by (simp add: utf16_enc_def Let_def)
  show "utf16_step us = Done \<longleftrightarrow> us = [] \<or> hd us = 0" for us
    by (cases us) (auto split: list.splits)
  show "utf16_step us \<noteq> Bad R_UNICODE_OK" for us
    by (cases us) (auto split: list.splits)
qed

interpretation utf32: codec scalar utf32_step utf32_enc
proof
  show "utf32_step (utf32_enc c @ us) = Chr c (length (utf32_enc c))" if "scalar c" "c \<noteq> 0" for c us
    using that by (simp add: utf32_enc_def)
  show "scalar c \<and> c \<noteq> 0 \<and> k = length (utf32_enc c) \<and> (\<exists>l. us = utf32_enc c @ l)" if "utf32_step us = Chr c k" for us c k
    using that by (cases us) (auto simp: utf32_enc_def split: if_splits)
  show "utf32_enc c \<noteq> []" for c by (simp add: utf32_enc_def)
  show "utf32_step us = Done \<longleftrightarrow> us = [] \<or> hd us = 0" for us by (cases us) auto
  show "utf32_step us \<noteq> Bad R_UNICODE_OK" for us by (cases us) auto
qed

end
