(* ===== verification/RUnicodeConv.thy ===== *)
theory RUnicodeConv
  imports RUnicodeSpec
begin

text \<open>
  The functions of \<^verbatim>\<open>runicode.c\<close> against the encoding forms: the single code point functions, the
  six conversions and their allocating forms, the validators and the counters.
\<close>

section \<open>Single code points\<close>

text \<open>Reading at an offset of a buffer reads the front of the rest of the string.\<close>

lemma r_utf8_to_unichar_cong:
  assumes f: "\<And>k. k < m \<Longrightarrow> fetch s (i + k) = fetch t (j + k)"
  shows "r_utf8_to_unichar s i m uc = r_utf8_to_unichar t j m uc"
proof -
  consider "m = 0" | "m = 1" | "m = 2" | "m = 3" | "\<not> m < 1" "\<not> m < 2" "\<not> m < 3" "\<not> m < 4" by linarith
  then show ?thesis
  proof cases
    case 1
    then show ?thesis by (simp add: r_utf8_to_unichar_def)
  next
    case 2
    then show ?thesis using f [of 0] by (simp add: r_utf8_to_unichar_def cong: if_cong)
  next
    case 3
    then have "fetch s i = fetch t j" "fetch s (i + 1) = fetch t (j + 1)" using f [of 0] f [of 1] by simp_all
    then show ?thesis unfolding r_utf8_to_unichar_def 3 by (simp cong: if_cong)
  next
    case 4
    then have "fetch s i = fetch t j" "fetch s (i + 1) = fetch t (j + 1)" "fetch s (i + 2) = fetch t (j + 2)"
      using f [of 0] f [of 1] f [of 2] by simp_all
    then show ?thesis unfolding r_utf8_to_unichar_def 4 by (simp cong: if_cong)
  next
    case 5
    then have "fetch s i = fetch t j" "fetch s (i + 1) = fetch t (j + 1)" "fetch s (i + 2) = fetch t (j + 2)"
       "fetch s (i + 3) = fetch t (j + 3)"
      using f [of 0] f [of 1] f [of 2] f [of 3] by simp_all
    then show ?thesis unfolding r_utf8_to_unichar_def by (simp only: cong: if_cong)
  qed
qed

lemma r_utf8_to_unichar_at:
  assumes "n \<le> length src"
  shows "r_utf8_to_unichar src i (n - i) 0 = utf8_front (drop i (take n src))"
proof -
  have "r_utf8_to_unichar src i (n - i) 0 = r_utf8_to_unichar (drop i (take n src)) 0 (n - i) 0"
    by (rule r_utf8_to_unichar_cong) (use assms in \<open>simp add: fetch_def\<close>)
  then show ?thesis using assms by simp
qed

lemma utf8_result_OK: "r_utf8_to_unichar src 0 n 0 = Some (r, uc) \<Longrightarrow> n \<le> length src \<Longrightarrow> utf8_front (take n src) = Some (r, uc)"
  using r_utf8_to_unichar_at [of n src 0] by simp

text \<open>
  C22. UTF-8 code points: encoding a scalar value into a buffer with room for it writes its
  shortest form, and decoding any buffer that starts with those bytes gives the value and its
  length back; a decoding that succeeds has read the shortest form of a scalar value, so overlong
  forms, surrogates and values above U+10FFFF are never accepted.
\<close>

theorem r_utf8_codepoint_roundtrip:
  assumes "sz \<le> length dst" "length (utf8_enc c) \<le> sz" "scalar c"
    and "n \<le> length src" "0 < n" "r_utf8_decode_codepoint (Some src) n = Some (res, uc, used)"
  shows "(\<exists>dst'. r_utf8_encode_codepoint c (Some dst) sz = Some (R_UNICODE_OK, Some dst', Some (length (utf8_enc c))) \<and>
      take (length (utf8_enc c)) dst' = utf8_enc c \<and> length dst' = length dst \<and>
      (\<forall>m. length (utf8_enc c) \<le> m \<and> m \<le> length dst' \<longrightarrow>
        r_utf8_decode_codepoint (Some dst') m = Some (R_UNICODE_OK, Some c, Some (length (utf8_enc c))))) \<and>
    (res = R_UNICODE_OK \<longrightarrow> (\<exists>v. uc = Some v \<and> scalar v \<and> used = Some (length (utf8_enc v)) \<and>
      take (length (utf8_enc v)) src = utf8_enc v \<and> length (utf8_enc v) \<le> n))"
proof (intro conjI impI)
  let ?k = "length (utf8_enc c)" and ?dst = "write_at dst 0 (utf8_enc c)"
  have lt: "unat c < 0x110000" "c < 0x110000" using assms(3) by (auto simp: scalar_nat word_less_nat)
  have k: "0 < ?k" using utf8_enc_nonempty [of c] by simp
  have sz: "0 < sz" using k assms(2) by linarith
  have enc: "r_utf8_encode_codepoint c (Some dst) sz = Some (R_UNICODE_OK, Some ?dst, Some ?k)"
    using assms(1-3) k sz r_unichar_to_utf8_spec [OF lt(2), of 0 sz dst] by (simp add: r_utf8_encode_codepoint_def)
  have "take ?k ?dst = utf8_enc c" "length ?dst = length dst" using assms(1,2) by (simp_all add: write_at_def)
  moreover have "r_utf8_decode_codepoint (Some ?dst) m = Some (R_UNICODE_OK, Some c, Some ?k)"
    if m: "?k \<le> m" "m \<le> length ?dst" for m
  proof -
    have m0: "0 < m" using k m(1) by linarith
    have t: "take m ?dst = utf8_enc c @ take (m - ?k) (drop ?k dst)" using m(1) by (simp add: write_at_def)
    have "r_utf8_to_unichar ?dst 0 m 0 = utf8_front (take m ?dst)"
      using r_utf8_to_unichar_at [OF m(2), of 0] by (simp only: drop_0 diff_zero)
    also have "\<dots> = Some (int ?k, c)" unfolding t by (rule utf8_front_enc [OF lt(1)])
    finally show ?thesis using k m0 assms(3) by (simp add: r_utf8_decode_codepoint_def)
  qed
  ultimately show "\<exists>dst'. r_utf8_encode_codepoint c (Some dst) sz = Some (R_UNICODE_OK, Some dst', Some ?k) \<and>
      take ?k dst' = utf8_enc c \<and> length dst' = length dst \<and>
      (\<forall>m. ?k \<le> m \<and> m \<le> length dst' \<longrightarrow> r_utf8_decode_codepoint (Some dst') m = Some (R_UNICODE_OK, Some c, Some ?k))"
    using enc by blast
next
  assume "res = R_UNICODE_OK"
  then obtain r v where rv: "r_utf8_to_unichar src 0 n 0 = Some (r, v)" "r > 0" "scalar v" "uc = Some v" "used = Some (nat r)"
    using assms(5,6) by (auto simp: r_utf8_decode_codepoint_def bind_eq_Some_conv split: if_splits)
  obtain l where "r = int (length (utf8_enc v))" "take n src = utf8_enc v @ l"
    using utf8_enc_front [OF utf8_result_OK [OF rv(1) assms(4)] rv(2)] by blast
  moreover from this have "length (utf8_enc v) \<le> n" using assms(4) by (metis length_append length_take le_add1 min.absorb2)
  moreover from calculation have "take (length (utf8_enc v)) src = utf8_enc v"
    by (metis append_eq_conv_conj min.absorb1 take_take)
  ultimately show "\<exists>v. uc = Some v \<and> scalar v \<and> used = Some (length (utf8_enc v)) \<and>
      take (length (utf8_enc v)) src = utf8_enc v \<and> length (utf8_enc v) \<le> n"
    using rv by auto
qed

theorem r_utf8_codepoint_roundtrip_witness:
  "\<exists>dst'. r_utf8_encode_codepoint 0x20ac (Some [0, 0, 0, 0]) 4 = Some (R_UNICODE_OK, Some dst', Some 3) \<and>
     r_utf8_decode_codepoint (Some dst') 4 = Some (R_UNICODE_OK, Some 0x20ac, Some 3)"
proof -
  have l: "length (utf8_enc 0x20ac) = 3" by (simp add: utf8_enc_def)
  have s: "scalar 0x20ac" by (simp add: bad_code_point_def)
  have d: "r_utf8_decode_codepoint (Some [0x41]) 1 = Some (R_UNICODE_OK, Some 0x41, Some 1)"
    by (simp add: r_utf8_decode_codepoint_def r_utf8_to_unichar_def fetch_def bad_code_point_def)
  show ?thesis
    using r_utf8_codepoint_roundtrip [of 4 "[0, 0, 0, 0]" "0x20ac" 1 "[0x41]", OF _ _ s _ _ d] l by fastforce
qed


text \<open>
  C23. UTF-16 code points: encoding a scalar value writes one unit or a surrogate pair, and decoding
  the buffer gives the value and its length back; a decoding that succeeds has read exactly the
  units of the value it returns.
\<close>

theorem r_utf16_codepoint_roundtrip:
  assumes "sz \<le> length dst" "length (utf16_enc c) \<le> sz" "scalar c"
    and "n \<le> length src" "0 < n" "r_utf16_decode_codepoint (Some src) n = Some (R_UNICODE_OK, uc, used)"
  shows "(\<exists>dst'. r_utf16_encode_codepoint c (Some dst) sz = Some (R_UNICODE_OK, Some dst', Some (length (utf16_enc c))) \<and>
      take (length (utf16_enc c)) dst' = utf16_enc c \<and> length dst' = length dst \<and>
      r_utf16_decode_codepoint (Some dst') sz = Some (R_UNICODE_OK, Some c, Some (length (utf16_enc c)))) \<and>
    (\<exists>v. uc = Some v \<and> scalar v \<and> used = Some (length (utf16_enc v)) \<and> take (length (utf16_enc v)) src = utf16_enc v)"
proof (intro conjI)
  have "0 < length (utf16_enc c)" using utf16.enc_nonempty [of c] by simp
  then have "0 < sz" "0 < length dst" using assms(1,2) by linarith+
  then have sz: "0 < sz" "dst \<noteq> []" by auto
  show "\<exists>dst'. r_utf16_encode_codepoint c (Some dst) sz = Some (R_UNICODE_OK, Some dst', Some (length (utf16_enc c))) \<and>
      take (length (utf16_enc c)) dst' = utf16_enc c \<and> length dst' = length dst \<and>
      r_utf16_decode_codepoint (Some dst') sz = Some (R_UNICODE_OK, Some c, Some (length (utf16_enc c)))"
  proof (cases "unat c < 0x10000")
    case True
    let ?u = "of_nat (unat c) :: runichar2"
    obtain b l where dst: "dst = b # l" using sz by (cases dst) auto
    have u: "unat ?u = unat c" using True by (simp del: of_nat_unat)
    then have "unat (ucast ?u :: runichar) = unat c" by (simp del: of_nat_unat)
    then have c: "(ucast ?u :: runichar) = c" by (simp only: word_unat_eq_iff)
    have ns: "?u < 0xd800 \<or> 0xe000 \<le> ?u" using assms(3) True u by (auto simp: scalar_nat unit_less_nat simp del: of_nat_unat)
    show ?thesis
      using True sz assms(1,3) c ns
      by (simp add: r_utf16_encode_codepoint_def r_utf16_decode_codepoint_def utf16_enc_one word_less_nat dst fetch_def
          store_def)
  next
    case False
    then have r: "0x10000 \<le> unat c" "unat c < 0x110000" using assms(3) by (auto simp: scalar_nat)
    define hi lo where hl: "hi = (of_nat (0xd800 + (unat c - 0x10000) div 0x400) :: runichar2)"
      "lo = (of_nat (0xdc00 + (unat c - 0x10000) mod 0x400) :: runichar2)"
    note s = surrogates_of [OF r, folded hl]
    have enc: "utf16_enc c = [hi, lo]" using utf16_enc_two [OF r(1)] by (simp add: hl)
    obtain a b l where dst: "dst = a # b # l" using assms(1,2) by (cases dst; cases "tl dst") (auto simp: enc)
    have "sz \<ge> 2" using assms(2) enc by simp
    moreover have "\<not> (hi < 0xd800 \<or> 0xe000 \<le> hi)" "\<not> hi \<ge> 0xdc00" "\<not> (lo < 0xdc00 \<or> lo \<ge> 0xe000)"
      using s(1,2) unfolding unit_less_nat by linarith+
    ultimately show ?thesis
      using False sz assms(1,3) s unat_pair_code_point(2) [OF s(1,2)]
      by (simp add: r_utf16_encode_codepoint_def r_utf16_decode_codepoint_def enc word_less_nat dst fetch_def store_def
          utf16_units(2,3) [OF r, folded hl])
  qed
next
  obtain u l where src: "src = u # l" using assms(4,5) by (cases src) auto
  show "\<exists>v. uc = Some v \<and> scalar v \<and> used = Some (length (utf16_enc v)) \<and> take (length (utf16_enc v)) src = utf16_enc v"
  proof (cases "u < 0xd800 \<or> u \<ge> 0xe000")
    case True
    have "unat (ucast u :: runichar) < 0x10000" using unit_less [of u] by simp
    then have "utf16_enc (ucast u) = [u]" by (simp add: utf16_enc_one)
    moreover have "scalar (ucast u)" using True unit_less [of u] unfolding scalar_nat unit_less_nat by auto
    ultimately show ?thesis using True assms(5,6) src by (auto simp: r_utf16_decode_codepoint_def fetch_def)
  next
    case False
    then obtain v k where l: "l = v # k" and v: "low_surrogate v" and u: "high_surrogate u"
      and r: "uc = Some (pair_code_point2 u v)" "used = Some 2"
      using assms(4-6) src unfolding unit_less_nat [symmetric]
      by (cases l) (auto simp: r_utf16_decode_codepoint_def fetch_def not_le not_less split: if_splits)
    show ?thesis using enc_pair [OF u v] r src l unat_pair_code_point(2) [OF u v] by (auto simp: scalar_nat)
  qed
qed

theorem r_utf16_codepoint_roundtrip_witness:
  "\<exists>dst'. r_utf16_encode_codepoint 0x1f600 (Some [0, 0, 0]) 3 = Some (R_UNICODE_OK, Some dst', Some 2) \<and>
     r_utf16_decode_codepoint (Some dst') 3 = Some (R_UNICODE_OK, Some 0x1f600, Some 2)"
proof -
  have l: "length (utf16_enc 0x1f600) = 2" by (simp add: utf16_enc_def)
  have s: "scalar 0x1f600" by (simp add: bad_code_point_def)
  have d: "r_utf16_decode_codepoint (Some [0x41]) 1 = Some (R_UNICODE_OK, Some 0x41, Some 1)"
    by (simp add: r_utf16_decode_codepoint_def fetch_def)
  show ?thesis
    using r_utf16_codepoint_roundtrip [of 3 "[0, 0, 0]" "0x1f600" 1 "[0x41]", OF _ _ s _ _ d] l by fastforce
qed

section \<open>The conversion loops\<close>

text \<open>
  One turn of a loop: what the decoder finds at the source offset decides, and a code point that
  fits is written and passed over.  A loop that turns like this is the transcoding.  \<open>w\<close> is the
  width of a code unit in the positions the loop reports.
\<close>

definition loop_turn ::
  "nat \<Rightarrow> ('u list \<Rightarrow> dstep) \<Rightarrow> (runichar \<Rightarrow> 'v list) \<Rightarrow> (nat \<Rightarrow> nat) \<Rightarrow> 'u list \<Rightarrow> nat
   \<Rightarrow> ('v list \<Rightarrow> nat \<Rightarrow> nat \<Rightarrow> (RUnicodeResult \<times> 'v list \<times> nat \<times> nat) option) \<Rightarrow> 'v list \<Rightarrow> nat \<Rightarrow> nat
   \<Rightarrow> (RUnicodeResult \<times> 'v list \<times> nat \<times> nat) option" where
  "loop_turn w step enc ovf us dend f dst d i =
     (case step (drop i us) of
        Done \<Rightarrow> Some (R_UNICODE_OK, dst, d, w * i)
      | Bad e \<Rightarrow> Some (e, dst, d, w * i)
      | Chr c k \<Rightarrow>
          if length (enc c) > dend - d then Some (R_UNICODE_OVERFLOW, dst, d, w * (i + ovf k))
          else f (write_at dst d (enc c)) (d + length (enc c)) (i + k))"

context decoder
begin

lemma loop_transcode:
  assumes turn: "\<And>dst d i. dend < length dst \<Longrightarrow> d \<le> dend \<Longrightarrow> i \<le> length us \<Longrightarrow> f dst d i = loop_turn w step enc' ovf us dend f dst d i"
    and "dend < length dst" "d \<le> dend" "i \<le> length us"
  shows "f dst d i = (case transcode step enc' ovf (dend - d) (drop i us) of
    (r, out, n) \<Rightarrow> Some (r, write_at dst d out, d + length out, w * (i + n)))"
  using assms(2-4)
proof (induction "length us - i" arbitrary: dst d i rule: less_induct)
  case less
  note f = turn [OF less.prems] and t = transcode.simps [of step enc' ovf "dend - d" "drop i us"]
  show ?case
  proof (cases "step (drop i us)")
    case (Chr c k)
    then have k: "0 < k" "i + k \<le> length us" "i < length us" using step_Chr_length [of "drop i us" c k] less.prems by auto
    show ?thesis
    proof (cases "length (enc' c) > dend - d")
      case False
      then have fit: "d + length (enc' c) \<le> dend" using less.prems by linarith
      obtain r out n where o: "transcode step enc' ovf (dend - d - length (enc' c)) (drop (i + k) us) = (r, out, n)"
        by (cases "transcode step enc' ovf (dend - d - length (enc' c)) (drop (i + k) us)")
      have IH: "f (write_at dst d (enc' c)) (d + length (enc' c)) (i + k)
        = Some (r, write_at (write_at dst d (enc' c)) (d + length (enc' c)) out, d + length (enc' c) + length out, w * (i + k + n))"
        using less.hyps [of "i + k" "write_at dst d (enc' c)" "d + length (enc' c)"] k fit less.prems o
        by (simp add: diff_diff_left)
      have "length out \<le> dend - d - length (enc' c)" by (rule transcode_room [OF o])
      then have "write_at (write_at dst d (enc' c)) (d + length (enc' c)) out = write_at dst d (enc' c @ out)"
        using fit less.prems by (intro write_at_write_at) linarith
      then show ?thesis using f t Chr k False IH o by (simp add: loop_turn_def ac_simps)
    qed (use f t Chr k in \<open>simp add: loop_turn_def\<close>)
  qed (use f t in \<open>simp_all add: loop_turn_def\<close>)
qed

end

lemma utf8_at:
  assumes "n \<le> length src" "i < n" "src ! i \<noteq> 0"
  obtains r uc where "r_utf8_to_unichar src i (n - i) 0 = Some (r, uc)" "utf8_step (drop i (take n src)) = utf8_result (r, uc)" "r \<noteq> 0"
proof -
  obtain r uc where f: "utf8_front (drop i (take n src)) = Some (r, uc)" using utf8_front_total by blast
  have ne: "drop i (take n src) \<noteq> []" "hd (drop i (take n src)) \<noteq> 0" using assms by (simp_all add: hd_drop_conv_nth)
  show ?thesis
    by (rule that [of r uc])
      (use f r_utf8_to_unichar_at [OF assms(1)] utf8_step_front [OF ne f] utf8_front_zero [OF f ne(1)] in simp_all)
qed

lemma step_at_end:
  assumes "n \<le> length src" "\<not> i < n \<or> src ! i = 0"
  shows "at_end (drop i (take n src))"
  using assms by (cases "i < n") (simp_all add: hd_drop_conv_nth)

lemma units_at:
  assumes "n \<le> length src" "i < n"
  shows "drop i (take n src) = src ! i # drop (Suc i) (take n src)"
    and "Suc i < n \<Longrightarrow> drop (Suc i) (take n src) = src ! Suc i # drop (Suc (Suc i)) (take n src)"
  using assms by (simp_all add: Cons_nth_drop_Suc [symmetric])

lemma utf16_write_wide:
  assumes "unat uc < 0x110000" "dend < length dst"
  shows "uc \<le> 0xffff \<Longrightarrow> length (utf16_enc uc) = 1 \<and> (d + 1 \<le> dend \<longrightarrow> write_at dst d (utf16_enc uc) = dst[d := ucast uc AND 0xffff] \<and>
      write_at dst d (utf16_enc uc) = dst[d := ucast uc])"
    and "\<not> uc \<le> 0xffff \<Longrightarrow> length (utf16_enc uc) = 2 \<and> (d + 2 \<le> dend \<longrightarrow> write_at dst d (utf16_enc uc)
      = dst[d := ucast ((uc - 0x10000) div 0x400 OR 0xd800), d + 1 := ucast ((uc - 0x10000) mod 0x400 OR 0xdc00)])"
proof -
  show "length (utf16_enc uc) = 1 \<and> (d + 1 \<le> dend \<longrightarrow> write_at dst d (utf16_enc uc) = dst[d := ucast uc AND 0xffff] \<and>
      write_at dst d (utf16_enc uc) = dst[d := ucast uc])" if "uc \<le> 0xffff"
    using that assms(2) write_at_units(1) [of d 1 dst] utf16_units(1) [of uc]
    unfolding word_less_nat by (simp add: utf16_enc_one)
  show "length (utf16_enc uc) = 2 \<and> (d + 2 \<le> dend \<longrightarrow> write_at dst d (utf16_enc uc)
      = dst[d := ucast ((uc - 0x10000) div 0x400 OR 0xd800), d + 1 := ucast ((uc - 0x10000) mod 0x400 OR 0xdc00)])" if "\<not> uc \<le> 0xffff"
  proof -
    have r: "0x10000 \<le> unat uc" "unat uc < 0x110000" using that assms(1) unfolding word_less_nat by simp_all
    show ?thesis
      using assms(2) write_at_units(2) [of d 2 dst] unfolding utf16_enc_two [OF r(1)] utf16_units(2,3) [OF r]
      by (simp add: list_update_swap del: of_nat_add)
  qed
qed

lemma utf16_write:
  assumes "scalar uc" "dend < length dst"
  shows "uc \<le> 0xffff \<Longrightarrow> length (utf16_enc uc) = 1 \<and> (d + 1 \<le> dend \<longrightarrow> write_at dst d (utf16_enc uc) = dst[d := ucast uc AND 0xffff] \<and>
      write_at dst d (utf16_enc uc) = dst[d := ucast uc])"
    and "\<not> uc \<le> 0xffff \<Longrightarrow> length (utf16_enc uc) = 2 \<and> (d + 2 \<le> dend \<longrightarrow> write_at dst d (utf16_enc uc)
      = dst[d := ucast ((uc - 0x10000) div 0x400 OR 0xd800), d + 1 := ucast ((uc - 0x10000) mod 0x400 OR 0xdc00)])"
  using utf16_write_wide [of uc dend dst d] assms by (auto simp: scalar_nat)

lemma r_utf8_to_utf16_turn:
  assumes "n \<le> length src" "dend < length dst" "d \<le> dend" "i \<le> n"
  shows "r_utf8_to_utf16_loop src n dend dst d i
    = loop_turn 1 utf8_step utf16_enc (\<lambda>_. 0) (take n src) dend (r_utf8_to_utf16_loop src n dend) dst d i"
proof (cases "i < n \<and> src ! i \<noteq> 0")
  case False
  then have "utf8_step (drop i (take n src)) = Done" using utf8.step_Done step_at_end [OF assms(1), of i] by blast
  with False assms(1) show ?thesis by (subst r_utf8_to_utf16_loop.simps) (auto simp: loop_turn_def)
next
  case True
  then obtain r uc where f: "r_utf8_to_unichar src i (n - i) 0 = Some (r, uc)"
    and s: "utf8_step (drop i (take n src)) = utf8_result (r, uc)" "r \<noteq> 0" using utf8_at [OF assms(1)] by blast
  have "fetch src i = Some (src ! i)" using True assms(1) by simp
  then show ?thesis
    using True f s utf16_write [of uc dend dst d] assms
    by (subst r_utf8_to_utf16_loop.simps) (auto simp: loop_turn_def utf8_result_def)
qed

lemma r_utf8_to_utf32_turn:
  assumes "n \<le> length src" "dend < length dst" "d \<le> dend" "i \<le> n"
  shows "r_utf8_to_utf32_loop src n dend dst d i
    = loop_turn 1 utf8_step utf32_enc (\<lambda>_. 0) (take n src) dend (r_utf8_to_utf32_loop src n dend) dst d i"
proof (cases "i < n \<and> src ! i \<noteq> 0")
  case False
  then have "utf8_step (drop i (take n src)) = Done" using utf8.step_Done step_at_end [OF assms(1), of i] by blast
  with False assms(1) show ?thesis by (subst r_utf8_to_utf32_loop.simps) (auto simp: loop_turn_def)
next
  case True
  then obtain r uc where f: "r_utf8_to_unichar src i (n - i) 0 = Some (r, uc)"
    and s: "utf8_step (drop i (take n src)) = utf8_result (r, uc)" "r \<noteq> 0" using utf8_at [OF assms(1)] by blast
  have "fetch src i = Some (src ! i)" using True assms(1) by simp
  then show ?thesis
    using True f s write_at_units(1) [of d 1 dst uc] assms
    by (subst r_utf8_to_utf32_loop.simps) (auto simp: loop_turn_def utf8_result_def utf32_enc_def)
qed

lemma r_utf32_to_utf8_turn:
  assumes "n \<le> length src" "dend < length dst" "d \<le> dend" "i \<le> n"
  shows "r_utf32_to_utf8_loop src n dend dst d i
    = loop_turn 1 utf32_step utf8_enc (\<lambda>_. 0) (take n src) dend (r_utf32_to_utf8_loop src n dend) dst d i"
proof (cases "i < n \<and> src ! i \<noteq> 0")
  case False
  then have "utf32_step (drop i (take n src)) = Done" using utf32.step_Done step_at_end [OF assms(1), of i] by blast
  with False assms(1) show ?thesis by (subst r_utf32_to_utf8_loop.simps) (auto simp: loop_turn_def)
next
  case True
  have lt: "scalar c \<Longrightarrow> c < 0x110000" for c by (auto simp: bad_code_point_def)
  show ?thesis
    using True assms r_unichar_to_utf8_spec [OF lt, of "src ! i" d "dend - d" dst] utf8_enc_nonempty [of "src ! i"]
      units_at(1) [OF assms(1), of i]
    by (subst r_utf32_to_utf8_loop.simps) (simp add: loop_turn_def)
qed

lemma r_utf32_to_utf16_turn:
  assumes "n \<le> length src" "dend < length dst" "d \<le> dend" "i \<le> n"
  shows "r_utf32_to_utf16_loop src n dend dst d i
    = loop_turn 1 utf32_step utf16_enc (\<lambda>_. 0) (take n src) dend (r_utf32_to_utf16_loop src n dend) dst d i"
proof (cases "i < n \<and> src ! i \<noteq> 0")
  case False
  then have "utf32_step (drop i (take n src)) = Done" using utf32.step_Done step_at_end [OF assms(1), of i] by blast
  with False assms(1) show ?thesis by (subst r_utf32_to_utf16_loop.simps) (auto simp: loop_turn_def)
next
  case True
  have lt: "src ! i < 0x10000 \<longleftrightarrow> src ! i \<le> 0xffff" unfolding word_less_nat ..
  show ?thesis
    using True assms utf16_write [of "src ! i" dend dst d] units_at(1) [OF assms(1), of i]
    by (subst r_utf32_to_utf16_loop.simps) (auto simp: loop_turn_def lt)
qed

lemma r_utf16_to_utf32_turn:
  assumes "n \<le> length src" "dend < length dst" "d \<le> dend" "i \<le> n"
  shows "r_utf16_to_utf32_loop src n dend dst d i
    = loop_turn 1 utf16_step utf32_enc (\<lambda>k. k) (take n src) dend (r_utf16_to_utf32_loop src n dend) dst d i"
proof (cases "i < n \<and> src ! i \<noteq> 0")
  case False
  then have "utf16_step (drop i (take n src)) = Done" using utf16.step_Done step_at_end [OF assms(1), of i] by blast
  with False assms(1) show ?thesis by (subst r_utf16_to_utf32_loop.simps) (auto simp: loop_turn_def)
next
  case True
  have gt: "src ! i > 0" using True by (simp add: word_neq_0_conv [symmetric] word_gt_0)
  show ?thesis
  proof (cases "Suc i < n")
    case False
    with assms have "drop (Suc i) (take n src) = []" by simp
    with True False gt assms units_at(1) [OF assms(1), of i] show ?thesis
      by (subst r_utf16_to_utf32_loop.simps) (auto simp: loop_turn_def utf32_enc_def write_at_units(1) [of d 1 dst])
  next
    case more: True
    then have "fetch src (Suc i) = Some (src ! Suc i)" using assms(1) by simp
    with True more gt assms units_at [OF assms(1), of i] show ?thesis
      by (subst r_utf16_to_utf32_loop.simps) (auto simp: loop_turn_def utf32_enc_def write_at_units(1) [of d 1 dst])
  qed
qed

lemma unichar_put:
  assumes "unat c < 0x110000" "dend < length dst" "d \<le> dend"
  shows "r_unichar_to_utf8 c dst d (dend - d) =
      (if length (utf8_enc c) \<le> dend - d then Some (int (length (utf8_enc c)), write_at dst d (utf8_enc c)) else Some (- 1, dst))
      \<and> 0 < length (utf8_enc c)"
  using r_unichar_to_utf8_spec [of c d "dend - d" dst] assms utf8_enc_nonempty [of c] by (simp add: word_less_nat)

lemma r_utf16_to_utf8_turn:
  assumes "n \<le> length src" "dend < length dst" "d \<le> dend" "i \<le> n"
  shows "r_utf16_to_utf8_loop src n dend dst d i
    = loop_turn 1 utf16_step utf8_enc (\<lambda>k. k - 1) (take n src) dend (r_utf16_to_utf8_loop src n dend) dst d i"
proof (cases "i < n \<and> src ! i \<noteq> 0")
  case False
  then have "utf16_step (drop i (take n src)) = Done" using utf16.step_Done step_at_end [OF assms(1), of i] by blast
  with False assms(1) show ?thesis by (subst r_utf16_to_utf8_loop.simps) (auto simp: loop_turn_def)
next
  case True
  have gt: "src ! i > 0" using True by (simp add: word_neq_0_conv [symmetric] word_gt_0)
  have f: "fetch src i = Some (src ! i)" using True assms(1) by simp
  have put: "r_unichar_to_utf8 c dst d (dend - d) =
      (if length (utf8_enc c) \<le> dend - d then Some (int (length (utf8_enc c)), write_at dst d (utf8_enc c)) else Some (- 1, dst))
      \<and> 0 < length (utf8_enc c)" if "unat c < 0x110000" for c
    by (rule unichar_put [OF that assms(2,3)])
  let ?u = "src ! i" and ?v = "src ! Suc i"
  consider (bmp) "?u < 0xd800 \<or> 0xe000 \<le> ?u" | (low) "0xdc00 \<le> ?u" "?u < 0xe000" | (lone) "0xd800 \<le> ?u" "?u < 0xdc00" "\<not> Suc i < n"
    | (pair) "0xd800 \<le> ?u" "?u < 0xdc00" "Suc i < n" "0xdc00 \<le> ?v \<and> ?v < 0xe000"
    | (bad) "0xd800 \<le> ?u" "?u < 0xdc00" "Suc i < n" "\<not> (0xdc00 \<le> ?v \<and> ?v < 0xe000)" by fastforce
  then show ?thesis
  proof cases
    case bmp
    have s: "utf16_step (drop i (take n src)) = Chr (ucast ?u) 1"
      using bmp True units_at(1) [OF assms(1), of i] by auto
    have p: "unat (ucast ?u :: runichar) < 0x110000" using unit_less [of ?u] by simp
    have "\<not> ?u < 0xd800 \<Longrightarrow> \<not> ?u < 0xdc00 \<and> \<not> ?u < 0xe000" using bmp unfolding unit_less_nat by linarith
    then show ?thesis
      using True f gt s put [OF p] by (subst r_utf16_to_utf8_loop.simps) (auto simp: loop_turn_def)
  next
    case low
    have c: "\<not> ?u < 0xd800" "\<not> ?u < 0xdc00" using low unfolding unit_less_nat by linarith+
    then have "utf16_step (drop i (take n src)) = Bad R_UNICODE_INVALID_CODE_POINT"
      using low True units_at(1) [OF assms(1), of i] by auto
    then show ?thesis using True f gt low c by (subst r_utf16_to_utf8_loop.simps) (simp add: loop_turn_def)
  next
    case lone
    have c: "\<not> ?u < 0xd800" "\<not> 0xe000 \<le> ?u" using lone unfolding unit_less_nat by linarith+
    have "drop (Suc i) (take n src) = []" using lone(3) assms by simp
    then have "utf16_step (drop i (take n src)) = Bad R_UNICODE_INCOMPLETE_CODE_POINT"
      using lone c True units_at(1) [OF assms(1), of i] by simp
    then show ?thesis using True f gt lone c by (subst r_utf16_to_utf8_loop.simps) (simp add: loop_turn_def)
  next
    case pair
    have c: "\<not> ?u < 0xd800" "\<not> 0xe000 \<le> ?u" using pair unfolding unit_less_nat by linarith+
    have f2: "fetch src (Suc i) = Some ?v" using pair(3) assms(1) by simp
    have s: "utf16_step (drop i (take n src)) = Chr (pair_code_point ?u ?v) 2"
      using pair c True units_at [OF assms(1), of i] by simp
    have p: "unat (pair_code_point ?u ?v) < 0x110000" using pair enc_pair(3) [of ?u ?v] by (simp add: unit_less_nat)
    show ?thesis
      using True f f2 gt pair c s put [OF p] by (subst r_utf16_to_utf8_loop.simps) (auto simp: loop_turn_def)
  next
    case bad
    have c: "\<not> ?u < 0xd800" "\<not> 0xe000 \<le> ?u" using bad unfolding unit_less_nat by linarith+
    have f2: "fetch src (Suc i) = Some ?v" using bad(3) assms(1) by simp
    have "utf16_step (drop i (take n src)) = Bad R_UNICODE_INCOMPLETE_CODE_POINT"
      using bad c True units_at [OF assms(1), of i] by simp
    then show ?thesis
      using True f f2 gt bad c by (subst r_utf16_to_utf8_loop.simps) (auto simp: loop_turn_def)
  qed
qed

section \<open>The conversions\<close>

text \<open>
  What a conversion does: after the byte order mark it transcodes into the buffer, keeps the last
  unit for the terminator, and reports how much it wrote and read.
\<close>

definition conv_spec ::
  "('u list \<Rightarrow> dstep) \<Rightarrow> (runichar \<Rightarrow> 'v :: zero list) \<Rightarrow> (nat \<Rightarrow> nat) \<Rightarrow> 'v list \<Rightarrow> nat \<Rightarrow> nat \<Rightarrow> 'u list \<Rightarrow> 'v conv_result" where
  "conv_spec step enc ovf dst dstsize skip us =
     (case transcode step enc ovf (dstsize - 1) (drop skip us) of
        (r, out, k) \<Rightarrow> (r, Some (write_at dst 0 (out @ [0])), Some (length out), Some (skip + k)))"

definition utf8_mark :: "ruint8 list \<Rightarrow> nat" where
  "utf8_mark us = (if take 3 us = [0xef, 0xbb, 0xbf] then 3 else 0)"

definition unit_mark :: "'a :: len word list \<Rightarrow> nat" where
  "unit_mark us = (if take 1 us = [0xfeff] then 1 else 0)"

lemma take3_length:
  assumes "take 3 us = [a, b, c]"
  shows "3 \<le> length us"
proof -
  have "length (take 3 us) = 3" unfolding assms by simp
  then show ?thesis by simp
qed

lemma utf8_bom_mark:
  assumes "n \<le> length src"
  shows "utf8_bom src n = Some (utf8_mark (take n src))"
proof (cases "n \<ge> 3")
  case True
  then have l: "3 \<le> length src" using assms by simp
  then obtain a b c l where "src = a # b # c # l" by (metis Suc_le_length_iff numeral_3_eq_3)
  then show ?thesis using True by (simp add: utf8_bom_def utf8_mark_def fetch_numerals take_Cons')
next
  case False
  have "take 3 (take n src) \<noteq> [0xef, 0xbb, 0xbf]"
  proof
    assume "take 3 (take n src) = [0xef, 0xbb, 0xbf]"
    from take3_length [OF this] False show False by simp
  qed
  then show ?thesis using False by (simp add: utf8_bom_def utf8_mark_def)
qed

lemma utf16_bom_mark:
  assumes "n \<le> length src"
  shows "utf16_bom src n = Some (if take 1 (take n src) = [0xfffe] then None else Some (unit_mark (take n src)))"
proof (cases src)
  case (Cons a l)
  then show ?thesis using assms by (cases n) (auto simp: utf16_bom_def unit_mark_def fetch_def)
qed (use assms in \<open>simp add: utf16_bom_def unit_mark_def\<close>)

lemma utf32_bom_mark:
  assumes "n \<le> length src"
  shows "utf32_bom src n = Some (unit_mark (take n src))"
proof (cases src)
  case (Cons a l)
  then show ?thesis using assms by (cases n) (auto simp: utf32_bom_def unit_mark_def fetch_def)
qed (use assms in \<open>simp add: utf32_bom_def unit_mark_def\<close>)

lemma mark_le: "utf8_mark us \<le> length us" "unit_mark vs \<le> length vs"
proof -
  show "utf8_mark us \<le> length us" using take3_length [of us] by (auto simp: utf8_mark_def)
  show "unit_mark vs \<le> length vs" by (cases vs) (auto simp: unit_mark_def)
qed

context decoder
begin

lemma loop_conv:
  assumes turn: "\<And>dst d i. dend < length dst \<Longrightarrow> d \<le> dend \<Longrightarrow> i \<le> n - skip \<Longrightarrow>
      f dst d i = loop_turn 1 step enc' ovf (take (n - skip) (drop skip src)) dend f dst d i"
    and sizes: "2 \<le> dstsize" "dstsize \<le> length dst" "n \<le> length src" "dend = dstsize - 1" "skip \<le> n"
  shows "(do {
      (ret, dbuf, d, i) \<leftarrow> f dst 0 0;
      dbuf \<leftarrow> store dbuf d 0;
      Some (ret, Some dbuf, Some d, Some (skip + i))
    }) = Some (conv_spec step enc' ovf dst dstsize skip (take n src))"
proof -
  let ?us = "take (n - skip) (drop skip src)"
  have us: "?us = drop skip (take n src)" by (simp add: drop_take)
  have len: "length ?us = n - skip" using sizes by simp
  obtain r out k where t: "transcode step enc' ovf dend ?us = (r, out, k)" by (cases "transcode step enc' ovf dend ?us")
  have "f dst 0 0 = (case transcode step enc' ovf (dend - 0) (drop 0 ?us) of
      (r, out, m) \<Rightarrow> Some (r, write_at dst 0 out, 0 + length out, 1 * (0 + m)))"
    by (rule loop_transcode) (use turn len sizes in auto)
  then have f: "f dst 0 0 = Some (r, write_at dst 0 out, length out, k)" using t by simp
  have "length out \<le> dend" by (rule transcode_room [OF t])
  then have lo: "length out < length dst" using sizes by linarith
  have "write_at dst 0 (out @ [0]) = (write_at dst 0 out)[length out := 0]"
    using lo write_at_write_at [of 0 out "[0]" dst] write_at_units(1) [of "length out" 1 "write_at dst 0 out" 0] by simp
  moreover have "length out < length (write_at dst 0 out)" using lo by simp
  ultimately show ?thesis using f t sizes(4) by (simp add: conv_spec_def us)
qed

end

lemma r_utf8_to_utf16_conv:
  assumes "2 \<le> dstsize" "dstsize \<le> length dst" "n \<le> length src"
  shows "r_utf8_to_utf16 (Some dst) dstsize (Some src) (int n)
    = Some (conv_spec utf8_step utf16_enc (\<lambda>_. 0) dst dstsize (utf8_mark (take n src)) (take n src))"
proof -
  have s: "utf8_mark (take n src) \<le> n" using mark_le(1) [of "take n src"] assms(3) by simp
  show ?thesis
    using utf8.loop_conv [OF r_utf8_to_utf16_turn assms refl s] assms s
    by (simp add: r_utf8_to_utf16_def utf8_bom_mark)
qed

lemma r_utf8_to_utf32_conv:
  assumes "2 \<le> dstsize" "dstsize \<le> length dst" "n \<le> length src"
  shows "r_utf8_to_utf32 (Some dst) dstsize (Some src) (int n)
    = Some (conv_spec utf8_step utf32_enc (\<lambda>_. 0) dst dstsize (utf8_mark (take n src)) (take n src))"
proof -
  have s: "utf8_mark (take n src) \<le> n" using mark_le(1) [of "take n src"] assms(3) by simp
  show ?thesis
    using utf8.loop_conv [OF r_utf8_to_utf32_turn assms refl s] assms s
    by (simp add: r_utf8_to_utf32_def utf8_bom_mark)
qed

lemma r_utf16_to_utf8_conv:
  assumes "2 \<le> dstsize" "dstsize \<le> length dst" "n \<le> length src"
  shows "r_utf16_to_utf8 (Some dst) dstsize (Some src) n
    = Some (if take 1 (take n src) = [0xfffe] then (R_UNICODE_INVAL, Some dst, None, None)
        else conv_spec utf16_step utf8_enc (\<lambda>k. k - 1) dst dstsize (unit_mark (take n src)) (take n src))"
proof -
  have s: "unit_mark (take n src) \<le> n" using mark_le(2) [of "take n src"] assms(3) by simp
  show ?thesis
    using utf16.loop_conv [OF r_utf16_to_utf8_turn assms refl s] assms s
    by (simp add: r_utf16_to_utf8_def utf16_bom_mark)
qed

lemma r_utf16_to_utf32_conv:
  assumes "2 \<le> dstsize" "dstsize \<le> length dst" "n \<le> length src"
  shows "r_utf16_to_utf32 (Some dst) dstsize (Some src) n
    = Some (if take 1 (take n src) = [0xfffe] then (R_UNICODE_INVAL, Some dst, None, None)
        else conv_spec utf16_step utf32_enc (\<lambda>k. k) dst dstsize (unit_mark (take n src)) (take n src))"
proof -
  have s: "unit_mark (take n src) \<le> n" using mark_le(2) [of "take n src"] assms(3) by simp
  show ?thesis
    using utf16.loop_conv [OF r_utf16_to_utf32_turn assms refl s] assms s
    by (simp add: r_utf16_to_utf32_def utf16_bom_mark)
qed

lemma r_utf32_to_utf8_conv:
  assumes "2 \<le> dstsize" "dstsize \<le> length dst" "n \<le> length src"
  shows "r_utf32_to_utf8 (Some dst) dstsize (Some src) n
    = Some (conv_spec utf32_step utf8_enc (\<lambda>_. 0) dst dstsize (unit_mark (take n src)) (take n src))"
proof -
  have s: "unit_mark (take n src) \<le> n" using mark_le(2) [of "take n src"] assms(3) by simp
  show ?thesis
    using utf32.loop_conv [OF r_utf32_to_utf8_turn assms refl s] assms s
    by (simp add: r_utf32_to_utf8_def utf32_bom_mark)
qed

lemma r_utf32_to_utf16_conv:
  assumes "2 \<le> dstsize" "dstsize \<le> length dst" "n \<le> length src"
  shows "r_utf32_to_utf16 (Some dst) dstsize (Some src) n
    = Some (conv_spec utf32_step utf16_enc (\<lambda>_. 0) dst dstsize (unit_mark (take n src)) (take n src))"
proof -
  have s: "unit_mark (take n src) \<le> n" using mark_le(2) [of "take n src"] assms(3) by simp
  show ?thesis
    using utf32.loop_conv [OF r_utf32_to_utf16_turn assms refl s] assms s
    by (simp add: r_utf32_to_utf16_def utf32_bom_mark)
qed

text \<open>The sizes a conversion refuses.\<close>

definition sized :: "'v :: zero list \<Rightarrow> nat \<Rightarrow> 'v conv_result \<Rightarrow> 'v conv_result" where
  "sized dst dstsize conv =
     (if dstsize = 0 then (R_UNICODE_INVAL, Some dst, None, None)
      else if dstsize = 1 then (R_UNICODE_OVERFLOW, Some (dst[0 := 0]), None, None)
      else conv)"

text \<open>
  C24. Converting UTF-8 to UTF-16 or to UTF-32 is the transcoding, on every source and every buffer.
  After the byte order mark it stops at the end, the terminator, the first malformed sequence or
  the first code point with no room left; it writes the units of every code point before that and a
  terminator, never outside the buffer, and reports the units written and the bytes read.  A
  negative size means the length of the terminated string.  A buffer of one unit gets a
  terminator only.
\<close>

theorem r_utf8_conversions:
  assumes "dstsize \<le> length dst" "dstsize \<le> length dst4" "n \<le> length src"
    and "if srcsize < 0 then c_strlen src = Some n else n = nat srcsize"
  shows "r_utf8_to_utf16 (Some dst) dstsize (Some src) srcsize = Some (sized dst dstsize
      (conv_spec utf8_step utf16_enc (\<lambda>_. 0) dst dstsize (utf8_mark (take n src)) (take n src))) \<and>
    r_utf8_to_utf32 (Some dst4) dstsize (Some src) srcsize = Some (sized dst4 dstsize
      (conv_spec utf8_step utf32_enc (\<lambda>_. 0) dst4 dstsize (utf8_mark (take n src)) (take n src)))"
proof -
  have "srcsize < 0 \<or> srcsize = int n" using assms(4) by (auto split: if_splits)
  then have "r_utf8_to_utf16 (Some dst) dstsize (Some src) srcsize = r_utf8_to_utf16 (Some dst) dstsize (Some src) (int n)"
    "r_utf8_to_utf32 (Some dst4) dstsize (Some src) srcsize = r_utf8_to_utf32 (Some dst4) dstsize (Some src) (int n)"
    using assms(4) by (auto simp: r_utf8_to_utf16_def r_utf8_to_utf32_def r_strlen_def)
  note eq = this
  consider "dstsize = 0" | "dstsize = 1" | "2 \<le> dstsize" by linarith
  then show ?thesis
  proof cases
    case 3
    then show ?thesis unfolding eq using assms(1-3) by (simp add: sized_def r_utf8_to_utf16_conv r_utf8_to_utf32_conv)
  next
    case 2
    then have "0 < length dst" "0 < length dst4" using assms(1,2) by linarith+
    with 2 show ?thesis unfolding eq by (simp add: sized_def r_utf8_to_utf16_def r_utf8_to_utf32_def)
  qed (unfold eq, simp add: sized_def r_utf8_to_utf16_def r_utf8_to_utf32_def)
qed

text \<open>
  C25. Converting UTF-16 and UTF-32 is the transcoding in the same sense.  A byte-swapped UTF-16 mark is
  refused.  When a code point has no room left, the reported source position passes over the code
  point that was not written (all of it in \<^verbatim>\<open>r_utf16_to_utf32\<close>, its first unit of a pair in
  \<^verbatim>\<open>r_utf16_to_utf8\<close>), while the conversions from UTF-32 report the position before it.
\<close>

theorem r_utf16_utf32_conversions:
  assumes "dstsize \<le> length dst" "dstsize \<le> length dst2" "dstsize \<le> length dst4" "n \<le> length src2" "n \<le> length src4"
  shows "r_utf16_to_utf8 (Some dst) dstsize (Some src2) n = Some (sized dst dstsize
      (if take 1 (take n src2) = [0xfffe] then (R_UNICODE_INVAL, Some dst, None, None)
       else conv_spec utf16_step utf8_enc (\<lambda>k. k - 1) dst dstsize (unit_mark (take n src2)) (take n src2))) \<and>
    r_utf16_to_utf32 (Some dst4) dstsize (Some src2) n = Some (sized dst4 dstsize
      (if take 1 (take n src2) = [0xfffe] then (R_UNICODE_INVAL, Some dst4, None, None)
       else conv_spec utf16_step utf32_enc (\<lambda>k. k) dst4 dstsize (unit_mark (take n src2)) (take n src2))) \<and>
    r_utf32_to_utf8 (Some dst) dstsize (Some src4) n = Some (sized dst dstsize
      (conv_spec utf32_step utf8_enc (\<lambda>_. 0) dst dstsize (unit_mark (take n src4)) (take n src4))) \<and>
    r_utf32_to_utf16 (Some dst2) dstsize (Some src4) n = Some (sized dst2 dstsize
      (conv_spec utf32_step utf16_enc (\<lambda>_. 0) dst2 dstsize (unit_mark (take n src4)) (take n src4)))"
proof -
  consider "dstsize = 0" | "dstsize = 1" | "2 \<le> dstsize" by linarith
  then show ?thesis
  proof cases
    case 3
    then show ?thesis
      using assms by (simp add: sized_def r_utf16_to_utf8_conv r_utf16_to_utf32_conv r_utf32_to_utf8_conv r_utf32_to_utf16_conv)
  next
    case 2
    then have "0 < length dst" "0 < length dst2" "0 < length dst4" using assms(1-3) by linarith+
    with 2 show ?thesis
      by (simp add: sized_def r_utf16_to_utf8_def r_utf16_to_utf32_def r_utf32_to_utf8_def r_utf32_to_utf16_def)
  qed (simp add: sized_def r_utf16_to_utf8_def r_utf16_to_utf32_def r_utf32_to_utf8_def r_utf32_to_utf16_def)
qed

theorem r_utf8_conversions_witness:
  "r_utf8_to_utf16 (Some [7, 7, 7, 7]) 4 (Some [0x41, 0xc3, 0xa9, 0]) (- 1)
     = Some (R_UNICODE_OK, Some [0x41, 0xe9, 0, 7], Some 2, Some 3)"
proof -
  have us: "[0x41, 0xc3, 0xa9] = encode_all utf8_enc [0x41, 0xe9] @ []" by (simp add: utf8_enc_def)
  have t: "transcode utf8_step utf16_enc (\<lambda>_. 0) 3 [0x41, 0xc3, 0xa9] = (R_UNICODE_OK, [0x41, 0xe9], 3)"
    unfolding us by (subst utf8.transcode_text) (simp_all add: bad_code_point_def utf16_enc_def utf8_enc_def)
  show ?thesis
    using r_utf8_conversions [of 4 "[7, 7, 7, 7]" "[7, 7, 7, 7]" 3 "[0x41, 0xc3, 0xa9, 0]" "- 1"] t
    by (simp add: sized_def conv_spec_def utf8_mark_def write_at_def)
qed

theorem r_utf16_utf32_conversions_witness:
  "r_utf16_to_utf8 (Some [7, 7, 7, 7]) 4 (Some [0x41, 0xe9]) 2 = Some (R_UNICODE_OK, Some [0x41, 0xc3, 0xa9, 0], Some 3, Some 2)"
proof -
  have us: "[0x41, 0xe9] = encode_all utf16_enc [0x41, 0xe9] @ []" by (simp add: utf16_enc_def)
  have t: "transcode utf16_step utf8_enc (\<lambda>k. k - 1) 3 [0x41, 0xe9] = (R_UNICODE_OK, [0x41, 0xc3, 0xa9], 2)"
    unfolding us by (subst utf16.transcode_text) (simp_all add: bad_code_point_def utf16_enc_def utf8_enc_def)
  show ?thesis
    using r_utf16_utf32_conversions [of 4 "[7, 7, 7, 7]" "[7, 7, 7, 7]" "[7, 7, 7, 7]" 2 "[0x41, 0xe9]" "[0x41, 0xe9]"] t
    by (simp add: sized_def conv_spec_def unit_mark_def write_at_def)
qed

end
