(* ===== verification/RUnicodeText.thy ===== *)
theory RUnicodeText
  imports RUnicodeConv
begin

text \<open>
  Whole texts through the functions of \<^verbatim>\<open>runicode.c\<close>: the allocating conversions and the round trip
  between UTF-8 and UTF-16, the validators, and counting and advancing by code points.
\<close>

section \<open>Texts and their encodings\<close>

context codec
begin

lemma enc_prefix_free:
  assumes "enc c @ l = enc c' @ l'" "valid c" "c \<noteq> 0" "valid c'" "c' \<noteq> 0"
  shows "c = c'"
  using step_enc [OF assms(2,3), of l] step_enc [OF assms(4,5), of l'] assms(1) by simp

lemma mark_absent:
  assumes "text_in valid cs" "cs = [] \<or> hd cs \<noteq> m" "valid m" "m \<noteq> 0" "k = length (enc m)"
  shows "take k (encode_all enc cs) \<noteq> enc m"
proof
  assume t: "take k (encode_all enc cs) = enc m"
  show False
  proof (cases cs)
    case Nil
    with t enc_nonempty [of m] show False by simp
  next
    case (Cons c cs')
    define rest where "rest = drop k (encode_all enc cs)"
    have "encode_all enc cs = enc m @ rest"
      using append_take_drop_id [of k "encode_all enc cs"] unfolding t rest_def by (rule sym)
    then have "enc c @ encode_all enc cs' = enc m @ rest" unfolding Cons by simp
    then have "c = m" by (rule enc_prefix_free) (use assms Cons in auto)
    with assms(2) Cons show False by simp
  qed
qed

lemma conv_spec_text:
  assumes "text_in valid cs" "length (encode_all enc' cs) < dstsize"
  shows "conv_spec step enc' ovf dst dstsize 0 (encode_all enc cs)
    = (R_UNICODE_OK, Some (write_at dst 0 (encode_all enc' cs @ [0])), Some (length (encode_all enc' cs)), Some (length (encode_all enc cs)))"
  using transcode_text [of cs enc' "dstsize - 1" "[]" ovf] assms by (simp add: conv_spec_def)

end

lemma utf8_enc_nonzero: "unat c < 0x110000 \<Longrightarrow> c \<noteq> 0 \<Longrightarrow> 0 \<notin> set (utf8_enc c)"
proof -
  have nz: "(of_nat n :: ruint8) \<noteq> 0" if "0 < n" "n < 256" for n
    using that unat_of_byte [of n] by (metis less_irrefl unat_0)
  assume c: "unat c < 0x110000" "c \<noteq> 0"
  then have "0 < unat c" by (simp add: unat_gt_0)
  with c(1) show "0 \<notin> set (utf8_enc c)"
  proof (cases rule: utf8_enc_cases)
    case one
    with \<open>0 < unat c\<close> show ?thesis using nz [of "unat c"] by simp
  next
    case two
    then have "0xc0 + unat c div 64 < 256" using less_mult_imp_div_less [of "unat c" 32 64] by simp
    then show ?thesis using two(1) nz [of "0xc0 + unat c div 64"] nz [OF _ cont_arith(3)] by (simp del: of_nat_add)
  next
    case three
    then have "0xe0 + unat c div 4096 < 256" using less_mult_imp_div_less [of "unat c" 16 4096] by simp
    then show ?thesis using three(1) nz [of "0xe0 + unat c div 4096"] nz [OF _ cont_arith(3)] by (simp del: of_nat_add)
  next
    case four
    then have "0xf0 + unat c div 262144 < 256" using c(1) less_mult_imp_div_less [of "unat c" 8 262144] by simp
    then show ?thesis using four(1) nz [of "0xf0 + unat c div 262144"] nz [OF _ cont_arith(3)] by (simp del: of_nat_add)
  qed
qed

lemma utf16_enc_nonzero:
  assumes "scalar c" "c \<noteq> 0"
  shows "0 \<notin> set (utf16_enc c)"
proof (cases "unat c < 0x10000")
  case True
  have "unat (of_nat (unat c) :: runichar2) = unat c" using True by (simp del: of_nat_unat)
  then have "(of_nat (unat c) :: runichar2) \<noteq> 0" using assms(2) by (metis unat_0 unat_eq_zero)
  then show ?thesis using utf16_enc_one [OF True] by simp
next
  case False
  then have r: "0x10000 \<le> unat c" "unat c < 0x110000" using assms by (auto simp: scalar_nat)
  have nz: "(u :: runichar2) \<noteq> 0" if "0xd800 \<le> unat u" for u using that by auto
  from surrogates_of [OF r] show ?thesis unfolding utf16_enc_two [OF r(1)]
    using nz [of "of_nat (0xd800 + (unat c - 0x10000) div 0x400)"] nz [of "of_nat (0xdc00 + (unat c - 0x10000) mod 0x400)"]
    by (simp del: of_nat_add)
qed

lemma c_strlen_append: "0 \<notin> set us \<Longrightarrow> c_strlen (us @ 0 # l) = Some (length us)"
  by (induction us) auto

lemma text_nonzero:
  assumes "text_of cs"
  shows "0 \<notin> set (encode_all utf8_enc cs)" and "0 \<notin> set (encode_all utf16_enc cs)"
  using assms utf8_enc_nonzero utf16_enc_nonzero by (auto simp: list_all_iff scalar_nat)

lemma enc_lengths:
  "length (utf16_enc c) \<le> length (utf8_enc c)" "length (utf8_enc c) \<le> 3 * length (utf16_enc c)"
  by (auto simp: utf8_enc_def utf16_enc_def Let_def)

lemma text_lengths:
  "length (encode_all utf16_enc cs) \<le> length (encode_all utf8_enc cs)"
  "length (encode_all utf8_enc cs) \<le> 3 * length (encode_all utf16_enc cs)"
proof (induction cs)
  case (Cons c cs)
  { case 1 with Cons enc_lengths(1) [of c] show ?case by simp
  next case 2 with Cons enc_lengths(2) [of c] show ?case by simp }
qed simp_all

section \<open>Round trip through fresh buffers\<close>

definition alloc_ok :: "(nat \<Rightarrow> 'a list option) \<Rightarrow> bool" where
  "alloc_ok alloc \<longleftrightarrow> (\<forall>n. \<exists>b. alloc n = Some b \<and> length b = n)"

lemma utf8_mark_text:
  assumes "text_of cs" "cs = [] \<or> hd cs \<noteq> 0xfeff"
  shows "utf8_mark (encode_all utf8_enc cs) = 0"
proof -
  have "utf8_enc 0xfeff = [0xef, 0xbb, 0xbf]" by (simp add: utf8_enc_def)
  then show ?thesis
    using utf8.mark_absent [OF assms, of 3] by (simp add: utf8_mark_def bad_code_point_def)
qed

lemma unit_mark_text:
  assumes "text_of cs" "cs = [] \<or> hd cs \<noteq> 0xfeff"
  shows "unit_mark (encode_all utf16_enc cs) = 0"
proof -
  have "utf16_enc 0xfeff = [0xfeff]" by (simp add: utf16_enc_def)
  then show ?thesis
    using utf16.mark_absent [OF assms, of 1] by (simp add: unit_mark_def bad_code_point_def)
qed

lemma unit_swap_text:
  assumes "text_of cs" "cs = [] \<or> hd cs \<noteq> 0xfffe"
  shows "take 1 (encode_all utf16_enc cs) \<noteq> [0xfffe]"
proof -
  have "utf16_enc 0xfffe = [0xfffe]" by (simp add: utf16_enc_def)
  then show ?thesis
    using utf16.mark_absent [OF assms, of 1] by (simp add: bad_code_point_def)
qed

lemma text_nonempty: "text_of cs \<Longrightarrow> cs \<noteq> [] \<Longrightarrow> encode_all utf8_enc cs \<noteq> [] \<and> encode_all utf16_enc cs \<noteq> []"
  using utf8_enc_nonempty utf16.enc_nonempty by (cases cs) auto

lemma utf8_to_utf16_dup_text:
  assumes "alloc_ok alloc" "text_of cs" "cs \<noteq> []" "hd cs \<noteq> 0xfeff"
  shows "\<exists>w. r_utf8_to_utf16_dup alloc (Some (encode_all utf8_enc cs @ 0 # l)) (- 1)
      = Some (Some w, R_UNICODE_OK, Some (length (encode_all utf16_enc cs)), Some (length (encode_all utf8_enc cs))) \<and>
    (\<exists>junk. w = encode_all utf16_enc cs @ 0 # junk)"
proof -
  let ?e8 = "encode_all utf8_enc cs" and ?e16 = "encode_all utf16_enc cs"
  obtain b where b: "alloc (length ?e8 + 1) = Some b" "length b = length ?e8 + 1" using assms(1) unfolding alloc_ok_def by blast
  have len: "c_strlen (?e8 @ 0 # l) = Some (length ?e8)" by (rule c_strlen_append [OF text_nonzero(1) [OF assms(2)]])
  have two: "2 \<le> length ?e8 + 1" using text_nonempty [OF assms(2,3)] by (cases ?e8) auto
  have m: "utf8_mark (take (length ?e8) (?e8 @ 0 # l)) = 0" using utf8_mark_text [of cs] assms by simp
  have "r_utf8_to_utf16 (Some b) (length ?e8 + 1) (Some (?e8 @ 0 # l)) (int (length ?e8))
      = Some (conv_spec utf8_step utf16_enc (\<lambda>_. 0) b (length ?e8 + 1) 0 ?e8)"
    using r_utf8_to_utf16_conv [OF two, of b "length ?e8" "?e8 @ 0 # l"] b m by simp
  also have "conv_spec utf8_step utf16_enc (\<lambda>_. 0) b (length ?e8 + 1) 0 ?e8
      = (R_UNICODE_OK, Some (write_at b 0 (?e16 @ [0])), Some (length ?e16), Some (length ?e8))"
    by (rule utf8.conv_spec_text [OF assms(2)]) (use text_lengths(1) [of cs] in simp)
  finally show ?thesis
    using b len by (simp add: r_utf8_to_utf16_dup_def r_strlen_def dup_finish_def write_at_def)
qed

lemma utf16_to_utf8_dup_text:
  assumes "alloc_ok alloc" "text_of cs" "cs \<noteq> []" "hd cs \<noteq> 0xfeff" "hd cs \<noteq> 0xfffe"
  shows "\<exists>s. r_utf16_to_utf8_dup alloc (Some (encode_all utf16_enc cs @ 0 # l)) (- 1)
      = Some (Some s, R_UNICODE_OK, Some (length (encode_all utf8_enc cs)), Some (length (encode_all utf16_enc cs))) \<and>
    (\<exists>junk. s = encode_all utf8_enc cs @ 0 # junk)"
proof -
  let ?e8 = "encode_all utf8_enc cs" and ?e16 = "encode_all utf16_enc cs"
  let ?n = "(length ?e16 + 1) * 4"
  obtain b where b: "alloc ?n = Some b" "length b = ?n" using assms(1) unfolding alloc_ok_def by blast
  have len: "c_strlen (?e16 @ 0 # l) = Some (length ?e16)" by (rule c_strlen_append [OF text_nonzero(2) [OF assms(2)]])
  have ne: "length ?e16 \<noteq> 0" using text_nonempty [OF assms(2,3)] by simp
  have m: "unit_mark (take (length ?e16) (?e16 @ 0 # l)) = 0" "take 1 (take (length ?e16) (?e16 @ 0 # l)) \<noteq> [0xfffe]"
    using unit_mark_text [of cs] unit_swap_text [of cs] assms by simp_all
  have "r_utf16_to_utf8 (Some b) ?n (Some (?e16 @ 0 # l)) (length ?e16)
      = Some (conv_spec utf16_step utf8_enc (\<lambda>k. k - 1) b ?n 0 ?e16)"
    using r_utf16_to_utf8_conv [of ?n b "length ?e16" "?e16 @ 0 # l"] b m by simp
  also have "conv_spec utf16_step utf8_enc (\<lambda>k. k - 1) b ?n 0 ?e16
      = (R_UNICODE_OK, Some (write_at b 0 (?e8 @ [0])), Some (length ?e8), Some (length ?e16))"
    by (rule utf16.conv_spec_text [OF assms(2)]) (use text_lengths(2) [of cs] in simp)
  finally show ?thesis
    using b len ne by (simp add: r_utf16_to_utf8_dup_def dup_finish_def write_at_def)
qed

text \<open>
  C26. A text survives the way from UTF-8 to UTF-16 and back: for every sequence of scalar values other
  than U+0000 that is not empty and does not begin with a byte order mark or its mirror image, the
  allocating conversions succeed, their buffers are large enough, the UTF-16 string is the encoding
  of the text, and the UTF-8 string that comes back is the one that went in.
\<close>

theorem r_utf8_utf16_roundtrip:
  assumes "alloc_ok alloc2" "alloc_ok alloc1" "text_of cs" "cs \<noteq> []" "hd cs \<noteq> 0xfeff" "hd cs \<noteq> 0xfffe"
  shows "\<exists>w s junk. r_utf8_to_utf16_dup alloc2 (Some (encode_all utf8_enc cs @ [0])) (- 1)
      = Some (Some w, R_UNICODE_OK, Some (length (encode_all utf16_enc cs)), Some (length (encode_all utf8_enc cs))) \<and>
    take (length (encode_all utf16_enc cs)) w = encode_all utf16_enc cs \<and>
    r_utf16_to_utf8_dup alloc1 (Some w) (- 1)
      = Some (Some s, R_UNICODE_OK, Some (length (encode_all utf8_enc cs)), Some (length (encode_all utf16_enc cs))) \<and>
    s = encode_all utf8_enc cs @ [0] @ junk"
proof -
  obtain w junk where w: "r_utf8_to_utf16_dup alloc2 (Some (encode_all utf8_enc cs @ [0])) (- 1)
      = Some (Some w, R_UNICODE_OK, Some (length (encode_all utf16_enc cs)), Some (length (encode_all utf8_enc cs)))"
    "w = encode_all utf16_enc cs @ 0 # junk"
    using utf8_to_utf16_dup_text [of alloc2 cs "[]"] assms by blast
  obtain s junk' where s: "r_utf16_to_utf8_dup alloc1 (Some w) (- 1)
      = Some (Some s, R_UNICODE_OK, Some (length (encode_all utf8_enc cs)), Some (length (encode_all utf16_enc cs)))"
    "s = encode_all utf8_enc cs @ 0 # junk'"
    using utf16_to_utf8_dup_text [of alloc1 cs junk] assms w(2) by blast
  show ?thesis by (rule exI [of _ w], rule exI [of _ s], rule exI [of _ junk']) (use w s in simp)
qed

theorem r_utf8_utf16_roundtrip_witness:
  "\<exists>w s. r_utf8_to_utf16_dup (\<lambda>n. Some (replicate n 0)) (Some [0xf0, 0x9f, 0x98, 0x80, 0]) (- 1) = Some (Some w, R_UNICODE_OK, Some 2, Some 4) \<and>
     r_utf16_to_utf8_dup (\<lambda>n. Some (replicate n 0)) (Some w) (- 1) = Some (Some s, R_UNICODE_OK, Some 4, Some 2)"
proof -
  have e: "encode_all utf8_enc [0x1f600] = [0xf0, 0x9f, 0x98, 0x80]" "length (encode_all utf16_enc [0x1f600]) = 2"
    by (simp_all add: utf8_enc_def utf16_enc_def)
  have a: "alloc_ok (\<lambda>n. Some (replicate n 0))" by (simp add: alloc_ok_def)
  show ?thesis
    using r_utf8_utf16_roundtrip [OF a a, of "[0x1f600]"] unfolding e by (auto simp: bad_code_point_def)
qed

text \<open>
  C27. The allocating conversions from UTF-8 refuse the empty string: for a terminated string of length
  0 they return no string and report an overflow, because the buffer they allocate has room for one
  unit and the conversion takes a buffer of one unit for too small.
\<close>

theorem r_utf8_dup_empty:
  assumes "alloc_ok alloc2" "alloc_ok alloc4"
  shows "r_utf8_to_utf16_dup alloc2 (Some (0 # l)) (- 1) = Some (None, R_UNICODE_OVERFLOW, None, None) \<and>
    r_utf8_to_utf32_dup alloc4 (Some (0 # l)) (- 1) = Some (None, R_UNICODE_OVERFLOW, None, None)"
proof -
  obtain b c where "alloc2 1 = Some b" "length b = 1" "alloc4 1 = Some c" "length c = 1"
    using assms unfolding alloc_ok_def by blast
  then show ?thesis
    by (simp add: r_utf8_to_utf16_dup_def r_utf8_to_utf32_dup_def r_utf8_to_utf16_def r_utf8_to_utf32_def r_strlen_def
        dup_finish_def)
qed

theorem r_utf8_dup_empty_witness:
  "r_utf8_to_utf16_dup (\<lambda>n. Some (replicate n 0)) (Some [0]) (- 1) = Some (None, R_UNICODE_OVERFLOW, None, None)"
  using r_utf8_dup_empty [of "\<lambda>n. Some (replicate n 0)" "\<lambda>n. Some (replicate n 0)" "[]"] by (simp add: alloc_ok_def)


section \<open>Positions after an overflow\<close>

text \<open>Transcoding stops at the first code point that does not fit.\<close>

context codec
begin

lemma transcode_overflow:
  assumes "text_in valid (cs @ [c])" "length (encode_all enc' cs) \<le> room" "room < length (encode_all enc' (cs @ [c]))"
  shows "transcode step enc' ovf room (encode_all enc (cs @ [c]) @ rest)
    = (R_UNICODE_OVERFLOW, encode_all enc' cs, length (encode_all enc cs) + ovf (length (enc c)))"
  using assms
proof (induction cs arbitrary: room)
  case Nil
  have "step (enc c @ rest) = Chr c (length (enc c))" by (rule step_enc) (use Nil.prems in auto)
  then show ?case using Nil.prems enc_nonempty [of c] by (subst transcode.simps) simp
next
  case (Cons b cs)
  have "step (enc b @ encode_all enc (cs @ [c]) @ rest) = Chr b (length (enc b))"
    by (rule step_enc) (use Cons.prems in auto)
  then show ?case
    using Cons.IH [of "room - length (enc' b)"] Cons.prems enc_nonempty [of b]
    by (subst transcode.simps) (simp add: add.commute)
qed

end

text \<open>
  C28. The source position reported with an overflow, for every text that does not begin with a byte
  order mark or its mirror image and every code point \<open>c\<close> of it that is the first not to fit, whatever
  follows.  \<^verbatim>\<open>r_utf16_to_utf8\<close> reports the last unit of \<open>c\<close>: that is where \<open>c\<close> starts when
  it has one unit, but between its two units when it is a surrogate pair, and a conversion that
  resumes there fails at once with an invalid code point, however large the buffer.
  \<^verbatim>\<open>r_utf16_to_utf32\<close> reports the position behind \<open>c\<close>, so a conversion that resumes there loses it.
\<close>

theorem r_utf16_overflow_position:
  assumes "text_of (cs @ [c])" "hd (cs @ [c]) \<noteq> 0xfeff" "hd (cs @ [c]) \<noteq> 0xfffe"
    and src: "src = encode_all utf16_enc (cs @ [c]) @ rest"
    and m: "2 \<le> m" "m \<le> length dst" "length (encode_all utf8_enc cs) < m" "m \<le> length (encode_all utf8_enc (cs @ [c]))"
    and big: "2 \<le> big" "big \<le> length dst'"
  shows "(\<exists>d. r_utf16_to_utf8 (Some dst) m (Some src) (length src)
        = Some (R_UNICODE_OVERFLOW, d, Some (length (encode_all utf8_enc cs)),
            Some (length (encode_all utf16_enc cs) + (length (utf16_enc c) - 1)))) \<and>
    (length (utf16_enc c) = 2 \<longrightarrow>
      (\<exists>d. r_utf16_to_utf8 (Some dst') big (Some (drop (length (encode_all utf16_enc cs) + 1) src))
          (length src - (length (encode_all utf16_enc cs) + 1))
        = Some (R_UNICODE_INVALID_CODE_POINT, d, Some 0, Some 0))) \<and>
    (2 \<le> length cs + 1 \<and> length cs + 1 \<le> length dst4 \<longrightarrow>
      (\<exists>d. r_utf16_to_utf32 (Some dst4) (length cs + 1) (Some src) (length src)
        = Some (R_UNICODE_OVERFLOW, d, Some (length cs), Some (length (encode_all utf16_enc (cs @ [c]))))))"
proof (intro conjI impI)
  have ne: "encode_all utf16_enc (cs @ [c]) \<noteq> []" using utf16.enc_nonempty [of c] by simp
  then have first: "take 1 src = take 1 (encode_all utf16_enc (cs @ [c]))"
    unfolding src by (cases "encode_all utf16_enc (cs @ [c])") simp_all
  have mark: "unit_mark src = 0" "take 1 src \<noteq> [0xfffe]"
    unfolding unit_mark_def first
    using unit_mark_text [OF assms(1), unfolded unit_mark_def] unit_swap_text [OF assms(1)] assms(2,3) by blast+
  have "transcode utf16_step utf8_enc (\<lambda>k. k - 1) (m - 1) src
      = (R_UNICODE_OVERFLOW, encode_all utf8_enc cs, length (encode_all utf16_enc cs) + (length (utf16_enc c) - 1))"
    unfolding src by (rule utf16.transcode_overflow [OF assms(1)]) (use m in linarith)+
  then show "\<exists>d. r_utf16_to_utf8 (Some dst) m (Some src) (length src)
        = Some (R_UNICODE_OVERFLOW, d, Some (length (encode_all utf8_enc cs)),
            Some (length (encode_all utf16_enc cs) + (length (utf16_enc c) - 1)))"
    using r_utf16_to_utf8_conv [of m dst "length src" src] m mark by (simp add: conv_spec_def)
  {
    assume two: "length (utf16_enc c) = 2"
    then have "0x10000 \<le> unat c" "unat c < 0x110000"
      using assms(1) by (auto simp: utf16_enc_def Let_def scalar_nat split: if_splits)
    then obtain hi lo where c: "utf16_enc c = [hi, lo]" "low_surrogate lo"
      using surrogates_of(2) [of c] utf16_enc_two [of c] by blast
    let ?rest = "drop (length (encode_all utf16_enc cs) + 1) src"
    have r: "?rest = lo # rest" by (simp add: src c(1))
    have "utf16_step (lo # rest) = Bad R_UNICODE_INVALID_CODE_POINT" using c(2) by (cases rest) (auto simp: unit_less_nat)
    then have "transcode utf16_step utf8_enc (\<lambda>k. k - 1) (big - 1) (lo # rest) = (R_UNICODE_INVALID_CODE_POINT, [], 0)"
      by (subst transcode.simps) simp
    moreover have "lo \<noteq> 0xfeff" "lo \<noteq> 0xfffe" using c(2) by auto
    moreover have "length src - (length (encode_all utf16_enc cs) + 1) = length ?rest" by simp
    ultimately show "\<exists>d. r_utf16_to_utf8 (Some dst') big (Some ?rest) (length src - (length (encode_all utf16_enc cs) + 1))
        = Some (R_UNICODE_INVALID_CODE_POINT, d, Some 0, Some 0)"
      using r_utf16_to_utf8_conv [of big dst' "length (lo # rest)" "lo # rest"] big
      unfolding r by (simp add: conv_spec_def unit_mark_def)
  }
  {
    assume "2 \<le> length cs + 1 \<and> length cs + 1 \<le> length dst4"
    moreover have e: "encode_all utf32_enc bs = bs" for bs by (induction bs) (simp_all add: utf32_enc_def)
    have "transcode utf16_step utf32_enc (\<lambda>k. k) (length cs) src
        = (R_UNICODE_OVERFLOW, encode_all utf32_enc cs, length (encode_all utf16_enc cs) + length (utf16_enc c))"
      unfolding src by (rule utf16.transcode_overflow [OF assms(1)]) (simp_all only: e, simp_all)
    ultimately show "\<exists>d. r_utf16_to_utf32 (Some dst4) (length cs + 1) (Some src) (length src)
        = Some (R_UNICODE_OVERFLOW, d, Some (length cs), Some (length (encode_all utf16_enc (cs @ [c]))))"
      using r_utf16_to_utf32_conv [of "length cs + 1" dst4 "length src" src] mark by (simp add: conv_spec_def e)
  }
qed

theorem r_utf16_overflow_position_witness:
  "(\<exists>d. r_utf16_to_utf8 (Some [0, 0, 0, 0, 0]) 5 (Some [0x41, 0xd83d, 0xde00]) 3 = Some (R_UNICODE_OVERFLOW, d, Some 1, Some 2)) \<and>
   (\<exists>d. r_utf16_to_utf8 (Some [0, 0, 0, 0, 0]) 5 (Some [0xde00]) 1 = Some (R_UNICODE_INVALID_CODE_POINT, d, Some 0, Some 0))"
proof -
  have e: "utf16_enc 0x41 = [0x41]" "utf16_enc 0x1f600 = [0xd83d, 0xde00]" "length (utf8_enc 0x41) = 1"
    "length (utf8_enc 0x1f600) = 4"
    by (simp_all add: utf8_enc_def utf16_enc_def)
  show ?thesis
    using r_utf16_overflow_position [of "[0x41]" "0x1f600" "[0x41, 0xd83d, 0xde00]" "[]" 5 "[0, 0, 0, 0, 0]" 5 "[0, 0, 0, 0, 0]" "[]"]
    by (auto simp: e bad_code_point_def simp flip: numeral_2_eq_2)
qed

section \<open>Validation and counting\<close>

text \<open>
  A scan without output: it sees the same code points as the conversion to UTF-32 into a buffer that
  is large enough.
\<close>

context decoder
begin

lemma scan_transcode:
  assumes turn: "\<And>a i. i \<le> length us \<Longrightarrow> f a i = (case step (drop i us) of
        Done \<Rightarrow> Some (g R_UNICODE_OK a i) | Bad e \<Rightarrow> Some (g e a i) | Chr c k \<Rightarrow> f (Suc a) (i + k))"
    and "i \<le> length us" "length us - i \<le> room"
  shows "f a i = (case transcode step utf32_enc ovf room (drop i us) of (r, out, n) \<Rightarrow> Some (g r (a + length out) (i + n)))"
  using assms(2,3)
proof (induction "length us - i" arbitrary: a i room rule: less_induct)
  case less
  note f = turn [OF less.prems(1)] and t = transcode.simps [of step utf32_enc ovf room "drop i us"]
  show ?case
  proof (cases "step (drop i us)")
    case (Chr c k)
    then have k: "0 < k" "i + k \<le> length us" "i < length us" using step_Chr_length [of "drop i us" c k] less.prems by auto
    obtain r out n where o: "transcode step utf32_enc ovf (room - 1) (drop (i + k) us) = (r, out, n)"
      by (cases "transcode step utf32_enc ovf (room - 1) (drop (i + k) us)")
    have room: "0 < room" using k less.prems(2) by linarith
    have "f (Suc a) (i + k) = Some (g r (Suc a + length out) (i + k + n))"
      using less.hyps [of "i + k" "room - 1" "Suc a"] k less.prems o by simp
    then show ?thesis using f t Chr k room o by (simp add: utf32_enc_def ac_simps)
  qed (use f t in simp_all)
qed

end

context codec
begin

text \<open>A scan accepts exactly the encodings of texts, up to the end or the terminator.\<close>

lemma scan_accepts:
  assumes "transcode step utf32_enc ovf (length us) us = (r, out, n)"
  shows "r = R_UNICODE_OK \<longleftrightarrow> (\<exists>cs rest. text_in valid cs \<and> us = encode_all enc cs @ rest \<and> at_end rest)"
    and "text_in valid cs \<Longrightarrow> us = encode_all enc cs @ rest \<Longrightarrow> at_end rest \<Longrightarrow> out = cs \<and> n = length (encode_all enc cs)"
proof -
  have run: "(r, out, n) = (R_UNICODE_OK, cs, length (encode_all enc cs))"
    if "text_in valid cs" "us = encode_all enc cs @ rest" "at_end rest" for cs rest
  proof -
    have "length cs \<le> length (encode_all enc cs)"
    proof (induction cs)
      case (Cons c cs)
      have "1 \<le> length (enc c)" using enc_nonempty [of c] by (cases "enc c") simp_all
      with Cons show ?case by simp
    qed simp
    moreover have "encode_all utf32_enc cs = cs" by (induction cs) (simp_all add: utf32_enc_def)
    ultimately show ?thesis using transcode_text [OF that(1), of utf32_enc "length us" rest ovf] that assms by auto
  qed
  then show "text_in valid cs \<Longrightarrow> us = encode_all enc cs @ rest \<Longrightarrow> at_end rest \<Longrightarrow> out = cs \<and> n = length (encode_all enc cs)" by blast
  show "r = R_UNICODE_OK \<longleftrightarrow> (\<exists>cs rest. text_in valid cs \<and> us = encode_all enc cs @ rest \<and> at_end rest)"
    using transcode_sound [OF assms] run by blast
qed

end

text \<open>The turns of the scans, for the source cut to its size.\<close>

lemma utf8_scan_turns:
  assumes "n \<le> length src"
  shows "r_utf8_validate_loop src n i = (case utf8_step (drop i (take n src)) of
      Done \<Rightarrow> Some (R_UNICODE_OK, i) | Bad e \<Rightarrow> Some (e, i) | Chr c k \<Rightarrow> r_utf8_validate_loop src n (i + k))" (is ?A)
    and "r_utf8_strlen_codepoints_loop src n a i = (case utf8_step (drop i (take n src)) of
      Done \<Rightarrow> Some (R_UNICODE_OK, a) | Bad e \<Rightarrow> Some (e, a) | Chr c k \<Rightarrow> r_utf8_strlen_codepoints_loop src n (Suc a) (i + k))" (is ?B)
proof -
  note turns = r_utf8_validate_loop.simps [of src n i] r_utf8_strlen_codepoints_loop.simps [of src n a i]
  have "?A \<and> ?B"
  proof (cases "i < n \<and> src ! i \<noteq> 0")
    case False
    then have "utf8_step (drop i (take n src)) = Done" using utf8.step_Done step_at_end [OF assms, of i] by blast
    with False assms show ?thesis by (auto simp: turns)
  next
    case True
    then obtain r uc where "r_utf8_to_unichar src i (n - i) 0 = Some (r, uc)"
      "utf8_step (drop i (take n src)) = utf8_result (r, uc)" "r \<noteq> 0" using utf8_at [OF assms] by blast
    moreover have "fetch src i = Some (src ! i)" using True assms by simp
    ultimately show ?thesis using True by (auto simp: utf8_result_def turns)
  qed
  then show ?A ?B by blast+
qed

lemma utf16_scan_turns:
  assumes "n \<le> length src"
  shows "r_utf16_validate_loop src n i = (case utf16_step (drop i (take n src)) of
      Done \<Rightarrow> Some (R_UNICODE_OK, i) | Bad e \<Rightarrow> Some (e, i) | Chr c k \<Rightarrow> r_utf16_validate_loop src n (i + k))" (is ?A)
    and "r_utf16_strlen_codepoints_loop src n a i = (case utf16_step (drop i (take n src)) of
      Done \<Rightarrow> Some (R_UNICODE_OK, a) | Bad e \<Rightarrow> Some (e, a) | Chr c k \<Rightarrow> r_utf16_strlen_codepoints_loop src n (Suc a) (i + k))" (is ?B)
proof -
  note turns = r_utf16_validate_loop.simps [of src n i] r_utf16_strlen_codepoints_loop.simps [of src n a i]
  have "?A \<and> ?B"
  proof (cases "i < n \<and> src ! i \<noteq> 0")
    case False
    then have "utf16_step (drop i (take n src)) = Done" using utf16.step_Done step_at_end [OF assms, of i] by blast
    with False assms show ?thesis by (auto simp: turns)
  next
    case True
    have f: "fetch src i = Some (src ! i)" using True assms by simp
    show ?thesis
    proof (cases "Suc i < n")
      case False
      with assms have "drop (Suc i) (take n src) = []" by simp
      with True False f units_at(1) [OF assms, of i] show ?thesis by (auto simp: turns)
    next
      case more: True
      then have "fetch src (Suc i) = Some (src ! Suc i)" using assms by simp
      with True more f units_at [OF assms, of i] show ?thesis by (auto simp: turns)
    qed
  qed
  then show ?A ?B by blast+
qed

lemma utf32_scan_turns:
  assumes "n \<le> length src"
  shows "r_utf32_validate_loop src n i = (case utf32_step (drop i (take n src)) of
      Done \<Rightarrow> Some (R_UNICODE_OK, i) | Bad e \<Rightarrow> Some (e, i) | Chr c k \<Rightarrow> r_utf32_validate_loop src n (i + k))"
proof (cases "i < n \<and> src ! i \<noteq> 0")
  case False
  then have "utf32_step (drop i (take n src)) = Done" using utf32.step_Done step_at_end [OF assms, of i] by blast
  with False assms show ?thesis by (auto simp: r_utf32_validate_loop.simps [of src n i])
next
  case True
  with assms units_at(1) [OF assms, of i] show ?thesis by (simp add: r_utf32_validate_loop.simps [of src n i])
qed

lemma validate_scans:
  shows "n \<le> length s1 \<Longrightarrow> r_utf8_validate_loop s1 n 0
      = (case transcode utf8_step utf32_enc (\<lambda>_. 0) n (take n s1) of (r, out, k) \<Rightarrow> Some (r, k))"
    and "n \<le> length s2 \<Longrightarrow> r_utf16_validate_loop s2 n 0
      = (case transcode utf16_step utf32_enc (\<lambda>_. 0) n (take n s2) of (r, out, k) \<Rightarrow> Some (r, k))"
    and "n \<le> length s4 \<Longrightarrow> r_utf32_validate_loop s4 n 0
      = (case transcode utf32_step utf32_enc (\<lambda>_. 0) n (take n s4) of (r, out, k) \<Rightarrow> Some (r, k))"
  using utf8.scan_transcode [where f = "\<lambda>_. r_utf8_validate_loop s1 n" and g = "\<lambda>r _ i. (r, i)" and us = "take n s1" and i = 0
      and room = n and ovf = "\<lambda>_. 0", OF utf8_scan_turns(1)]
    utf16.scan_transcode [where f = "\<lambda>_. r_utf16_validate_loop s2 n" and g = "\<lambda>r _ i. (r, i)" and us = "take n s2" and i = 0
      and room = n and ovf = "\<lambda>_. 0", OF utf16_scan_turns(1)]
    utf32.scan_transcode [where f = "\<lambda>_. r_utf32_validate_loop s4 n" and g = "\<lambda>r _ i. (r, i)" and us = "take n s4" and i = 0
      and room = n and ovf = "\<lambda>_. 0", OF utf32_scan_turns] by simp_all

lemma strlen_scans:
  shows "n \<le> length s1 \<Longrightarrow> r_utf8_strlen_codepoints_loop s1 n 0 0
      = (case transcode utf8_step utf32_enc (\<lambda>_. 0) n (take n s1) of (r, out, k) \<Rightarrow> Some (r, length out))"
    and "n \<le> length s2 \<Longrightarrow> r_utf16_strlen_codepoints_loop s2 n 0 0
      = (case transcode utf16_step utf32_enc (\<lambda>_. 0) n (take n s2) of (r, out, k) \<Rightarrow> Some (r, length out))"
  using utf8.scan_transcode [where f = "r_utf8_strlen_codepoints_loop s1 n" and g = "\<lambda>r a _. (r, a)" and us = "take n s1" and i = 0
      and room = n and ovf = "\<lambda>_. 0" and a = 0, OF utf8_scan_turns(2)]
    utf16.scan_transcode [where f = "r_utf16_strlen_codepoints_loop s2 n" and g = "\<lambda>r a _. (r, a)" and us = "take n s2" and i = 0
      and room = n and ovf = "\<lambda>_. 0" and a = 0, OF utf16_scan_turns(2)] by simp_all

definition well_formed :: "(runichar \<Rightarrow> 'u :: zero list) \<Rightarrow> 'u list \<Rightarrow> bool" where
  "well_formed enc us \<longleftrightarrow> (\<exists>cs rest. text_of cs \<and> us = encode_all enc cs @ rest \<and> at_end rest)"

lemma validate_accepts:
  assumes run: "v = (case transcode step utf32_enc (\<lambda>_. 0) (length us) us of (r, out, k) \<Rightarrow> Some (r, k))"
    and codec: "codec scalar step enc"
  shows "\<exists>r k. v = Some (r, k) \<and> (r = R_UNICODE_OK \<longleftrightarrow> well_formed enc us)"
proof -
  obtain r out k where t: "transcode step utf32_enc (\<lambda>_. 0) (length us) us = (r, out, k)"
    by (cases "transcode step utf32_enc (\<lambda>_. 0) (length us) us")
  show ?thesis using run t codec.scan_accepts(1) [OF codec t] by (simp add: well_formed_def)
qed

lemmas codecs = utf8.codec_axioms utf16.codec_axioms utf32.codec_axioms

text \<open>
  C29. The validators decide well-formedness: on every source they return, and they return success
  exactly when the source, after a byte order mark and up to its end or its terminator, is the
  encoding of a sequence of scalar values.  A byte-swapped UTF-16 mark is never accepted.
\<close>

theorem r_utf_validators_decide:
  assumes "n \<le> length s1" "n \<le> length s2" "n \<le> length s4"
  shows "(\<exists>r e. r_utf8_validate (Some s1) (int n) = Some (r, e) \<and>
      (r = R_UNICODE_OK \<longleftrightarrow> well_formed utf8_enc (drop (utf8_mark (take n s1)) (take n s1)))) \<and>
    (\<exists>r e. r_utf16_validate (Some s2) n = Some (r, e) \<and>
      (r = R_UNICODE_OK \<longleftrightarrow> take 1 (take n s2) \<noteq> [0xfffe] \<and> well_formed utf16_enc (drop (unit_mark (take n s2)) (take n s2)))) \<and>
    (\<exists>r e. r_utf32_validate (Some s4) n = Some (r, e) \<and>
      (r = R_UNICODE_OK \<longleftrightarrow> well_formed utf32_enc (drop (unit_mark (take n s4)) (take n s4))))"
proof (intro conjI)
  show "\<exists>r e. r_utf8_validate (Some s1) (int n) = Some (r, e) \<and>
      (r = R_UNICODE_OK \<longleftrightarrow> well_formed utf8_enc (drop (utf8_mark (take n s1)) (take n s1)))"
  proof -
    let ?k = "utf8_mark (take n s1)"
    have k: "?k \<le> n" "n - ?k \<le> length (drop ?k s1)" using mark_le(1) [of "take n s1"] assms(1) by simp_all
    have us: "take (n - ?k) (drop ?k s1) = drop ?k (take n s1)" by (simp add: drop_take)
    obtain r e where "r_utf8_validate_loop (drop ?k s1) (n - ?k) 0 = Some (r, e)"
      "r = R_UNICODE_OK \<longleftrightarrow> well_formed utf8_enc (drop ?k (take n s1))"
      using validate_accepts [OF _ codecs(1), of "r_utf8_validate_loop (drop ?k s1) (n - ?k) 0" "drop ?k (take n s1)"]
        validate_scans(1) [OF k(2)] assms(1) unfolding us by auto
    then show ?thesis using utf8_bom_mark [OF assms(1)] by (simp add: r_utf8_validate_def)
  qed
  show "\<exists>r e. r_utf16_validate (Some s2) n = Some (r, e) \<and>
      (r = R_UNICODE_OK \<longleftrightarrow> take 1 (take n s2) \<noteq> [0xfffe] \<and> well_formed utf16_enc (drop (unit_mark (take n s2)) (take n s2)))"
  proof -
    let ?k = "unit_mark (take n s2)"
    have k: "?k \<le> n" "n - ?k \<le> length (drop ?k s2)" using mark_le(2) [of "take n s2"] assms(2) by simp_all
    have us: "take (n - ?k) (drop ?k s2) = drop ?k (take n s2)" by (simp add: drop_take)
    obtain r e where "r_utf16_validate_loop (drop ?k s2) (n - ?k) 0 = Some (r, e)"
      "r = R_UNICODE_OK \<longleftrightarrow> well_formed utf16_enc (drop ?k (take n s2))"
      using validate_accepts [OF _ codecs(2), of "r_utf16_validate_loop (drop ?k s2) (n - ?k) 0" "drop ?k (take n s2)"]
        validate_scans(2) [OF k(2)] assms(2) unfolding us by auto
    then show ?thesis using utf16_bom_mark [OF assms(2)] by (simp add: r_utf16_validate_def)
  qed
  show "\<exists>r e. r_utf32_validate (Some s4) n = Some (r, e) \<and>
      (r = R_UNICODE_OK \<longleftrightarrow> well_formed utf32_enc (drop (unit_mark (take n s4)) (take n s4)))"
  proof -
    let ?k = "unit_mark (take n s4)"
    have k: "?k \<le> n" "n - ?k \<le> length (drop ?k s4)" using mark_le(2) [of "take n s4"] assms(3) by simp_all
    have us: "take (n - ?k) (drop ?k s4) = drop ?k (take n s4)" by (simp add: drop_take)
    obtain r e where "r_utf32_validate_loop (drop ?k s4) (n - ?k) 0 = Some (r, e)"
      "r = R_UNICODE_OK \<longleftrightarrow> well_formed utf32_enc (drop ?k (take n s4))"
      using validate_accepts [OF _ codecs(3), of "r_utf32_validate_loop (drop ?k s4) (n - ?k) 0" "drop ?k (take n s4)"]
        validate_scans(3) [OF k(2)] assms(3) unfolding us by auto
    then show ?thesis using utf32_bom_mark [OF assms(3)] by (simp add: r_utf32_validate_def)
  qed
qed

theorem r_utf_validators_decide_witness:
  "\<exists>e. r_utf8_validate (Some [0xc3, 0xa9]) 2 = Some (R_UNICODE_OK, e)"
proof -
  have "[0xc3, 0xa9] = encode_all utf8_enc [0xe9] @ []" by (simp add: utf8_enc_def)
  moreover have "text_of [0xe9]" by (simp add: bad_code_point_def)
  ultimately have "well_formed utf8_enc [0xc3, 0xa9]" unfolding well_formed_def by blast
  then show ?thesis
    using r_utf_validators_decide [of 2 "[0xc3, 0xa9]" "[0, 0]" "[0, 0]"] by (auto simp: utf8_mark_def)
qed

lemma r_utf8_advance_run:
  assumes "text_of cs" "m = min cnt (length cs)" "e8 = encode_all utf8_enc cs"
    and "s \<le> m" "i = length (encode_all utf8_enc (take s cs))"
  shows "r_utf8_advance_loop (e8 @ l) (length e8) cnt s i = Some (R_UNICODE_OK, m, length (encode_all utf8_enc (take m cs)))"
  using assms(4,5)
proof (induction "m - s" arbitrary: s i)
  case 0
  then have s: "s = m" by simp
  then have "s = cnt \<or> i = length e8" using assms(2,3) 0 by (cases "cnt \<le> length cs") (simp_all add: min_def)
  then show ?case using s 0 by (subst r_utf8_advance_loop.simps) auto
next
  case (Suc k)
  then have lt: "s < cnt" "s < length cs" using assms(2) by auto
  let ?c = "cs ! s"
  have cs: "cs = take s cs @ ?c # drop (Suc s) cs" using lt(2) by (rule id_take_nth_drop)
  have e8: "e8 = encode_all utf8_enc (take s cs) @ utf8_enc ?c @ encode_all utf8_enc (drop (Suc s) cs)"
    unfolding assms(3) by (subst cs) simp
  have c: "scalar ?c" "?c \<noteq> 0" using assms(1) lt(2) by (auto simp: list_all_length)
  then have c': "unat ?c < 0x110000" by (auto simp: scalar_nat)
  have pos: "0 < length (utf8_enc ?c)" using utf8_enc_nonempty by simp
  have i: "i < length e8" "drop i (take (length e8) (e8 @ l)) = utf8_enc ?c @ encode_all utf8_enc (drop (Suc s) cs)"
    using Suc.prems(2) pos e8 by simp_all
  have "(e8 @ l) ! i \<in> set e8" using i(1) by (simp add: nth_append)
  then have nz: "(e8 @ l) ! i \<noteq> 0" using text_nonzero(1) [OF assms(1)] assms(3) by metis
  have f: "r_utf8_to_unichar (e8 @ l) i (length e8 - i) 0 = Some (int (length (utf8_enc ?c)), ?c)"
    using r_utf8_to_unichar_at [of "length e8" "e8 @ l" i] utf8_front_enc [OF c'] unfolding i(2) by simp
  have "i + length (utf8_enc ?c) = length (encode_all utf8_enc (take (Suc s) cs))"
    using Suc.prems(2) lt(2) by (simp add: take_Suc_conv_app_nth)
  then have "r_utf8_advance_loop (e8 @ l) (length e8) cnt (Suc s) (i + length (utf8_enc ?c))
      = Some (R_UNICODE_OK, m, length (encode_all utf8_enc (take m cs)))"
    using Suc.hyps(1) [of "Suc s"] Suc.hyps(2) Suc.prems(1) by simp
  then show ?case
    using lt(1) i(1) nz f c pos by (subst r_utf8_advance_loop.simps) simp
qed

text \<open>
  C30. Counting and advancing go by code points: on the encoding of a text, terminated, the counters
  return the number of its code points, and advancing by \<open>m\<close> stops behind the first \<open>m\<close> of them, or at
  the end with an overflow when there are fewer.
\<close>

theorem r_utf_counts_codepoints:
  assumes "text_of cs"
  shows "r_utf8_strlen_codepoints (Some (encode_all utf8_enc cs @ 0 # l)) (- 1) = Some (R_UNICODE_OK, length cs) \<and>
    r_utf16_strlen_codepoints (Some (encode_all utf16_enc cs @ l2)) (length (encode_all utf16_enc cs)) = Some (R_UNICODE_OK, length cs) \<and>
    r_utf8_advance (Some (encode_all utf8_enc cs @ 0 # l)) (- 1) m
      = Some (if m \<le> length cs then R_UNICODE_OK else R_UNICODE_OVERFLOW, Some (length (encode_all utf8_enc (take m cs))))"
proof (intro conjI)
  let ?e8 = "encode_all utf8_enc cs" and ?e16 = "encode_all utf16_enc cs"
  have len: "c_strlen (?e8 @ 0 # l) = Some (length ?e8)" by (rule c_strlen_append [OF text_nonzero(1) [OF assms]])
  obtain r out k where t: "transcode utf8_step utf32_enc (\<lambda>_. 0) (length ?e8) ?e8 = (r, out, k)"
    by (cases "transcode utf8_step utf32_enc (\<lambda>_. 0) (length ?e8) ?e8")
  have "r = R_UNICODE_OK" "out = cs"
    using utf8.scan_accepts(1) [OF t] utf8.scan_accepts(2) [OF t assms, of "[]"] assms by auto
  then show "r_utf8_strlen_codepoints (Some (?e8 @ 0 # l)) (- 1) = Some (R_UNICODE_OK, length cs)"
    using strlen_scans(1) [of "length ?e8" "?e8 @ 0 # l"] t len by (simp add: r_utf8_strlen_codepoints_def r_strlen_def)
  obtain r out k where t: "transcode utf16_step utf32_enc (\<lambda>_. 0) (length ?e16) ?e16 = (r, out, k)"
    by (cases "transcode utf16_step utf32_enc (\<lambda>_. 0) (length ?e16) ?e16")
  have "r = R_UNICODE_OK" "out = cs"
    using utf16.scan_accepts(1) [OF t] utf16.scan_accepts(2) [OF t assms, of "[]"] assms by auto
  then show "r_utf16_strlen_codepoints (Some (?e16 @ l2)) (length ?e16) = Some (R_UNICODE_OK, length cs)"
    using strlen_scans(2) [of "length ?e16" "?e16 @ l2"] t by (simp add: r_utf16_strlen_codepoints_def)
  have "r_utf8_advance_loop (?e8 @ 0 # l) (length ?e8) m 0 0
      = Some (R_UNICODE_OK, min m (length cs), length (encode_all utf8_enc (take (min m (length cs)) cs)))"
    by (rule r_utf8_advance_run [OF assms refl refl]) simp_all
  moreover have "take (min m (length cs)) cs = take m cs" by (simp add: min_def)
  ultimately show "r_utf8_advance (Some (?e8 @ 0 # l)) (- 1) m
      = Some (if m \<le> length cs then R_UNICODE_OK else R_UNICODE_OVERFLOW, Some (length (encode_all utf8_enc (take m cs))))"
    using len by (simp add: r_utf8_advance_def r_strlen_def)
qed

theorem r_utf_counts_codepoints_witness:
  "r_utf8_strlen_codepoints (Some [0x41, 0xc3, 0xa9, 0]) (- 1) = Some (R_UNICODE_OK, 2)"
proof -
  have "encode_all utf8_enc [0x41, 0xe9] = [0x41, 0xc3, 0xa9]" by (simp add: utf8_enc_def)
  then show ?thesis
    using r_utf_counts_codepoints [of "[0x41, 0xe9]" "[]" "[]" 0] by (simp add: bad_code_point_def)
qed

end
