(* ===== verification/RUnicodeWire.thy ===== *)
theory RUnicodeWire
  imports RUnicodeText
begin

text \<open>
  \<^verbatim>\<open>rlib/charset/runicode.c\<close>, the wire formats and WTF-8: UTF-16 and UTF-32 in a given byte order
  to UTF-8, and the conversions between UTF-16 with unpaired surrogates and WTF-8.
\<close>

section \<open>Wire formats\<close>

definition r_load_utf16_be :: "ruint8 list \<Rightarrow> nat \<Rightarrow> runichar2 option" where
  "r_load_utf16_be p i = do {
     b0 \<leftarrow> fetch p i;
     b1 \<leftarrow> fetch p (i + 1);
     Some (push_bit 8 (ucast b0) OR ucast b1)
   }"

definition r_load_utf16_le :: "ruint8 list \<Rightarrow> nat \<Rightarrow> runichar2 option" where
  "r_load_utf16_le p i = do {
     b0 \<leftarrow> fetch p i;
     b1 \<leftarrow> fetch p (i + 1);
     Some (push_bit 8 (ucast b1) OR ucast b0)
   }"

definition r_load_utf32_be :: "ruint8 list \<Rightarrow> nat \<Rightarrow> runichar option" where
  "r_load_utf32_be p i = do {
     b0 \<leftarrow> fetch p i;
     b1 \<leftarrow> fetch p (i + 1);
     b2 \<leftarrow> fetch p (i + 2);
     b3 \<leftarrow> fetch p (i + 3);
     Some (((push_bit 24 (ucast b0) OR push_bit 16 (ucast b1)) OR push_bit 8 (ucast b2)) OR ucast b3)
   }"

definition r_load_utf32_le :: "ruint8 list \<Rightarrow> nat \<Rightarrow> runichar option" where
  "r_load_utf32_le p i = do {
     b0 \<leftarrow> fetch p i;
     b1 \<leftarrow> fetch p (i + 1);
     b2 \<leftarrow> fetch p (i + 2);
     b3 \<leftarrow> fetch p (i + 3);
     Some (((push_bit 24 (ucast b3) OR push_bit 16 (ucast b2)) OR push_bit 8 (ucast b1)) OR ucast b0)
   }"

partial_function (option) r_utf16_wire_to_utf8_loop ::
  "(ruint8 list \<Rightarrow> nat \<Rightarrow> runichar2 option) \<Rightarrow> ruint8 list \<Rightarrow> nat \<Rightarrow> nat \<Rightarrow> ruint8 list \<Rightarrow> nat \<Rightarrow> nat
   \<Rightarrow> (RUnicodeResult \<times> ruint8 list \<times> nat \<times> nat) option" where
  "r_utf16_wire_to_utf8_loop load src n dend dst d i =
     (if i + 1 < n then do {
        u \<leftarrow> load src i;
        if u = 0 then Some (R_UNICODE_OK, dst, d, i)
        else if u < 0xd800 \<or> u \<ge> 0xe000 then do {
          (r, dst) \<leftarrow> r_unichar_to_utf8 (ucast u) dst d (dend - d);
          if r \<le> 0 then Some (R_UNICODE_OVERFLOW, dst, d, i + 2)
          else r_utf16_wire_to_utf8_loop load src n dend dst (d + nat r) (i + 2)
        }
        else if u < 0xdc00 then
          if i + 3 < n then do {
            u2 \<leftarrow> load src (i + 2);
            if u2 \<ge> 0xdc00 \<and> u2 < 0xe000 then do {
              (r, dst) \<leftarrow> r_unichar_to_utf8 (pair_code_point2 u u2) dst d (dend - d);
              if r \<le> 0 then Some (R_UNICODE_OVERFLOW, dst, d, i + 4)
              else r_utf16_wire_to_utf8_loop load src n dend dst (d + nat r) (i + 4)
            }
            else Some (R_UNICODE_INCOMPLETE_CODE_POINT, dst, d, i)
          }
          else Some (R_UNICODE_INCOMPLETE_CODE_POINT, dst, d, i)
        else Some (R_UNICODE_INVALID_CODE_POINT, dst, d, i)
      }
      else Some (R_UNICODE_OK, dst, d, i))"

definition r_utf16_wire_to_utf8 ::
  "(ruint8 list \<Rightarrow> nat \<Rightarrow> runichar2 option) \<Rightarrow> ruint8 list option \<Rightarrow> nat \<Rightarrow> ruint8 list option \<Rightarrow> nat
   \<Rightarrow> ruint8 conv_result option" where
  "r_utf16_wire_to_utf8 load dst dstsize src srcsize =
     (case (dst, src) of
        (Some dbuf, Some sbuf) \<Rightarrow>
          if dstsize = 0 then Some (R_UNICODE_INVAL, dst, None, None)
          else if srcsize AND 1 \<noteq> 0 then Some (R_UNICODE_INVAL, dst, None, None)
          else if dstsize = 1 then do {
            dbuf \<leftarrow> store dbuf 0 0;
            Some (R_UNICODE_OVERFLOW, Some dbuf, None, None)
          }
          else do {
            (ret, dbuf, d, i) \<leftarrow> r_utf16_wire_to_utf8_loop load sbuf srcsize (dstsize - 1) dbuf 0 0;
            dbuf \<leftarrow> store dbuf d 0;
            Some (ret, Some dbuf, Some d, Some i)
          }
      | _ \<Rightarrow> Some (R_UNICODE_INVAL, dst, None, None))"

partial_function (option) r_utf32_wire_to_utf8_loop ::
  "(ruint8 list \<Rightarrow> nat \<Rightarrow> runichar option) \<Rightarrow> ruint8 list \<Rightarrow> nat \<Rightarrow> nat \<Rightarrow> ruint8 list \<Rightarrow> nat \<Rightarrow> nat
   \<Rightarrow> (RUnicodeResult \<times> ruint8 list \<times> nat \<times> nat) option" where
  "r_utf32_wire_to_utf8_loop load src n dend dst d i =
     (if i + 3 < n then do {
        cp \<leftarrow> load src i;
        if cp = 0 then Some (R_UNICODE_OK, dst, d, i)
        else if bad_code_point cp then Some (R_UNICODE_INVALID_CODE_POINT, dst, d, i)
        else do {
          (r, dst) \<leftarrow> r_unichar_to_utf8 cp dst d (dend - d);
          if r \<le> 0 then Some (R_UNICODE_OVERFLOW, dst, d, i)
          else r_utf32_wire_to_utf8_loop load src n dend dst (d + nat r) (i + 4)
        }
      }
      else Some (R_UNICODE_OK, dst, d, i))"

definition r_utf32_wire_to_utf8 ::
  "(ruint8 list \<Rightarrow> nat \<Rightarrow> runichar option) \<Rightarrow> ruint8 list option \<Rightarrow> nat \<Rightarrow> ruint8 list option \<Rightarrow> nat
   \<Rightarrow> ruint8 conv_result option" where
  "r_utf32_wire_to_utf8 load dst dstsize src srcsize =
     (case (dst, src) of
        (Some dbuf, Some sbuf) \<Rightarrow>
          if dstsize = 0 then Some (R_UNICODE_INVAL, dst, None, None)
          else if srcsize AND 3 \<noteq> 0 then Some (R_UNICODE_INVAL, dst, None, None)
          else if dstsize = 1 then do {
            dbuf \<leftarrow> store dbuf 0 0;
            Some (R_UNICODE_OVERFLOW, Some dbuf, None, None)
          }
          else do {
            (ret, dbuf, d, i) \<leftarrow> r_utf32_wire_to_utf8_loop load sbuf srcsize (dstsize - 1) dbuf 0 0;
            dbuf \<leftarrow> store dbuf d 0;
            Some (ret, Some dbuf, Some d, Some i)
          }
      | _ \<Rightarrow> Some (R_UNICODE_INVAL, dst, None, None))"

definition r_utf16be_to_utf8 :: "ruint8 list option \<Rightarrow> nat \<Rightarrow> ruint8 list option \<Rightarrow> nat \<Rightarrow> ruint8 conv_result option" where
  "r_utf16be_to_utf8 = r_utf16_wire_to_utf8 r_load_utf16_be"

definition r_utf16le_to_utf8 :: "ruint8 list option \<Rightarrow> nat \<Rightarrow> ruint8 list option \<Rightarrow> nat \<Rightarrow> ruint8 conv_result option" where
  "r_utf16le_to_utf8 = r_utf16_wire_to_utf8 r_load_utf16_le"

definition r_utf32be_to_utf8 :: "ruint8 list option \<Rightarrow> nat \<Rightarrow> ruint8 list option \<Rightarrow> nat \<Rightarrow> ruint8 conv_result option" where
  "r_utf32be_to_utf8 = r_utf32_wire_to_utf8 r_load_utf32_be"

definition r_utf32le_to_utf8 :: "ruint8 list option \<Rightarrow> nat \<Rightarrow> ruint8 list option \<Rightarrow> nat \<Rightarrow> ruint8 conv_result option" where
  "r_utf32le_to_utf8 = r_utf32_wire_to_utf8 r_load_utf32_le"

definition r_utfXX_to_utf8_dup_common ::
  "(nat \<Rightarrow> ruint8 list option) \<Rightarrow> ruint8 list option \<Rightarrow> nat \<Rightarrow> nat \<Rightarrow> nat
   \<Rightarrow> (ruint8 list option \<Rightarrow> nat \<Rightarrow> ruint8 list option \<Rightarrow> nat \<Rightarrow> ruint8 conv_result option)
   \<Rightarrow> ruint8 dup_result option" where
  "r_utfXX_to_utf8_dup_common alloc src srcsize per_unit_bytes worst_utf8_per_unit conv =
     (if src = None \<or> srcsize = 0 then Some (None, R_UNICODE_INVAL, None, None)
      else if srcsize mod per_unit_bytes \<noteq> 0 then Some (None, R_UNICODE_INVAL, None, None)
      else do {
        let units = srcsize div per_unit_bytes;
        let dstsize = units * worst_utf8_per_unit + 1;
        case alloc dstsize of
          None \<Rightarrow> Some (None, R_UNICODE_OOM, None, None)
        | Some buf \<Rightarrow> map_option dup_finish (conv (Some buf) dstsize src srcsize)
      })"

definition r_utf16be_to_utf8_dup :: "(nat \<Rightarrow> ruint8 list option) \<Rightarrow> ruint8 list option \<Rightarrow> nat \<Rightarrow> ruint8 dup_result option" where
  "r_utf16be_to_utf8_dup alloc src srcsize = r_utfXX_to_utf8_dup_common alloc src srcsize 2 3 r_utf16be_to_utf8"

definition r_utf16le_to_utf8_dup :: "(nat \<Rightarrow> ruint8 list option) \<Rightarrow> ruint8 list option \<Rightarrow> nat \<Rightarrow> ruint8 dup_result option" where
  "r_utf16le_to_utf8_dup alloc src srcsize = r_utfXX_to_utf8_dup_common alloc src srcsize 2 3 r_utf16le_to_utf8"

definition r_utf32be_to_utf8_dup :: "(nat \<Rightarrow> ruint8 list option) \<Rightarrow> ruint8 list option \<Rightarrow> nat \<Rightarrow> ruint8 dup_result option" where
  "r_utf32be_to_utf8_dup alloc src srcsize = r_utfXX_to_utf8_dup_common alloc src srcsize 4 4 r_utf32be_to_utf8"

definition r_utf32le_to_utf8_dup :: "(nat \<Rightarrow> ruint8 list option) \<Rightarrow> ruint8 list option \<Rightarrow> nat \<Rightarrow> ruint8 dup_result option" where
  "r_utf32le_to_utf8_dup alloc src srcsize = r_utfXX_to_utf8_dup_common alloc src srcsize 4 4 r_utf32le_to_utf8"

section \<open>WTF-8\<close>

partial_function (option) r_utf16_to_wtf8_loop ::
  "runichar2 list \<Rightarrow> nat \<Rightarrow> nat \<Rightarrow> ruint8 list \<Rightarrow> nat \<Rightarrow> nat
   \<Rightarrow> (RUnicodeResult \<times> ruint8 list \<times> nat \<times> nat) option" where
  "r_utf16_to_wtf8_loop src n dend dst d i =
     (if i < n then do {
        u \<leftarrow> fetch src i;
        if u > 0 then do {
          (uc, i) \<leftarrow>
            (if u < 0xd800 \<or> u \<ge> 0xe000 then Some (ucast u, i)
             else if u < 0xdc00 then
               if i + 1 < n then do {
                 u2 \<leftarrow> fetch src (i + 1);
                 if u2 \<ge> 0xdc00 \<and> u2 < 0xe000 then Some (pair_code_point2 u u2, i + 1)
                 else Some (ucast u, i)
               }
               else Some (ucast u, i)
             else Some (ucast u, i));
          (r, dst) \<leftarrow> r_unichar_to_utf8 uc dst d (dend - d);
          if r \<le> 0 then Some (R_UNICODE_OVERFLOW, dst, d, i)
          else r_utf16_to_wtf8_loop src n dend dst (d + nat r) (i + 1)
        }
        else Some (R_UNICODE_OK, dst, d, i)
      }
      else Some (R_UNICODE_OK, dst, d, i))"

definition r_utf16_to_wtf8 ::
  "ruint8 list option \<Rightarrow> nat \<Rightarrow> runichar2 list option \<Rightarrow> nat \<Rightarrow> ruint8 conv_result option" where
  "r_utf16_to_wtf8 dst dstsize src srcsize =
     (case (dst, src) of
        (Some dbuf, Some sbuf) \<Rightarrow>
          if dstsize = 0 then Some (R_UNICODE_INVAL, dst, None, None)
          else if dstsize = 1 then do {
            dbuf \<leftarrow> store dbuf 0 0;
            Some (R_UNICODE_OVERFLOW, Some dbuf, None, None)
          }
          else do {
            bom \<leftarrow> utf16_bom sbuf srcsize;
            case bom of
              None \<Rightarrow> Some (R_UNICODE_INVAL, dst, None, None)
            | Some skip \<Rightarrow> do {
                (ret, dbuf, d, i) \<leftarrow> r_utf16_to_wtf8_loop (drop skip sbuf) (srcsize - skip) (dstsize - 1) dbuf 0 0;
                dbuf \<leftarrow> store dbuf d 0;
                Some (ret, Some dbuf, Some d, Some (skip + i))
              }
          }
      | _ \<Rightarrow> Some (R_UNICODE_INVAL, dst, None, None))"

partial_function (option) r_wtf8_to_utf16_loop ::
  "ruint8 list \<Rightarrow> nat \<Rightarrow> nat \<Rightarrow> runichar2 list \<Rightarrow> nat \<Rightarrow> nat
   \<Rightarrow> (RUnicodeResult \<times> runichar2 list \<times> nat \<times> nat) option" where
  "r_wtf8_to_utf16_loop src n dend dst d i =
     (if i < n then do {
        b \<leftarrow> fetch src i;
        if b \<noteq> 0 then do {
          (r, uc) \<leftarrow> r_utf8_to_unichar src i (n - i) 0;
          if r > 0 then
            if uc \<ge> 0x110000 then Some (R_UNICODE_INVALID_CODE_POINT, dst, d, i)
            else if uc \<le> 0xffff then
              if d + 1 > dend then Some (R_UNICODE_OVERFLOW, dst, d, i)
              else do {
                dst \<leftarrow> store dst d (ucast uc);
                r_wtf8_to_utf16_loop src n dend dst (d + 1) (i + nat r)
              }
            else
              if d + 2 > dend then Some (R_UNICODE_OVERFLOW, dst, d, i)
              else do {
                dst \<leftarrow> store dst d (ucast ((uc - 0x10000) div 0x400 OR 0xd800));
                dst \<leftarrow> store dst (d + 1) (ucast ((uc - 0x10000) mod 0x400 OR 0xdc00));
                r_wtf8_to_utf16_loop src n dend dst (d + 2) (i + nat r)
              }
          else if r = 0 then Some (R_UNICODE_OK, dst, d, i)
          else if r = R_UTF8_OVERLONG then Some (R_UNICODE_INVALID_CODE_POINT, dst, d, i)
          else Some (R_UNICODE_INCOMPLETE_CODE_POINT, dst, d, i)
        }
        else Some (R_UNICODE_OK, dst, d, i)
      }
      else Some (R_UNICODE_OK, dst, d, i))"

definition r_wtf8_to_utf16 ::
  "runichar2 list option \<Rightarrow> nat \<Rightarrow> ruint8 list option \<Rightarrow> int \<Rightarrow> runichar2 conv_result option" where
  "r_wtf8_to_utf16 dst dstsize src srcsize =
     (case (dst, src) of
        (Some dbuf, Some sbuf) \<Rightarrow>
          if dstsize = 0 then Some (R_UNICODE_INVAL, dst, None, None)
          else if dstsize = 1 then do {
            dbuf \<leftarrow> store dbuf 0 0;
            Some (R_UNICODE_OVERFLOW, Some dbuf, None, None)
          }
          else do {
            n \<leftarrow> (if srcsize < 0 then r_strlen src else Some (nat srcsize));
            skip \<leftarrow> utf8_bom sbuf n;
            (ret, dbuf, d, i) \<leftarrow> r_wtf8_to_utf16_loop (drop skip sbuf) (n - skip) (dstsize - 1) dbuf 0 0;
            dbuf \<leftarrow> store dbuf d 0;
            Some (ret, Some dbuf, Some d, Some (skip + i))
          }
      | _ \<Rightarrow> Some (R_UNICODE_INVAL, dst, None, None))"

definition r_utf16_to_wtf8_dup ::
  "(nat \<Rightarrow> ruint8 list option) \<Rightarrow> runichar2 list option \<Rightarrow> nat \<Rightarrow> ruint8 dup_result option" where
  "r_utf16_to_wtf8_dup alloc src srcsize =
     (if src = None \<or> srcsize = 0 then Some (None, R_UNICODE_INVAL, None, None)
      else case alloc (srcsize * 3 + 1) of
        None \<Rightarrow> Some (None, R_UNICODE_OOM, None, None)
      | Some buf \<Rightarrow> map_option dup_finish (r_utf16_to_wtf8 (Some buf) (srcsize * 3 + 1) src srcsize))"

definition r_wtf8_to_utf16_dup ::
  "(nat \<Rightarrow> runichar2 list option) \<Rightarrow> ruint8 list option \<Rightarrow> int \<Rightarrow> runichar2 dup_result option" where
  "r_wtf8_to_utf16_dup alloc src srcsize = do {
     n \<leftarrow> (if srcsize < 0 then r_strlen src else Some (nat srcsize));
     case alloc (n + 1) of
       None \<Rightarrow> Some (None, R_UNICODE_OOM, None, None)
     | Some buf \<Rightarrow> map_option dup_finish (r_wtf8_to_utf16 (Some buf) (n + 1) src (int n))
   }"


section \<open>The bytes of a unit\<close>

definition unit_be :: "runichar2 \<Rightarrow> ruint8 list" where
  "unit_be u = [ucast (drop_bit 8 u), ucast u]"

definition unit_le :: "runichar2 \<Rightarrow> ruint8 list" where
  "unit_le u = [ucast u, ucast (drop_bit 8 u)]"

definition quad_be :: "runichar \<Rightarrow> ruint8 list" where
  "quad_be u = [ucast (drop_bit 24 u), ucast (drop_bit 16 u), ucast (drop_bit 8 u), ucast u]"

definition quad_le :: "runichar \<Rightarrow> ruint8 list" where
  "quad_le u = [ucast u, ucast (drop_bit 8 u), ucast (drop_bit 16 u), ucast (drop_bit 24 u)]"

lemma unit_join: "push_bit 8 (ucast (ucast (drop_bit 8 u) :: ruint8)) OR ucast (ucast u :: ruint8) = (u :: runichar2)"
  by (rule bit_word_eqI) (auto simp: bit_simps)

lemma quad_join:
  "((push_bit 24 (ucast (ucast (drop_bit 24 u) :: ruint8)) OR push_bit 16 (ucast (ucast (drop_bit 16 u) :: ruint8)))
     OR push_bit 8 (ucast (ucast (drop_bit 8 u) :: ruint8))) OR ucast (ucast u :: ruint8) = (u :: runichar)" (is "?l = u")
proof (rule bit_word_eqI)
  fix n
  assume "n < LENGTH(32)"
  then consider "n < 8" | "8 \<le> n" "n < 16" | "16 \<le> n" "n < 24" | "24 \<le> n" "n < 32" by fastforce
  then show "bit ?l n = bit u n" by cases (auto simp: bit_simps)
qed

lemma byte_nths:
  "unit_be u ! 0 = ucast (drop_bit 8 u)" "unit_be u ! 1 = ucast u" "unit_le u ! 0 = ucast u" "unit_le u ! 1 = ucast (drop_bit 8 u)"
  "quad_be c ! 0 = ucast (drop_bit 24 c)" "quad_be c ! 1 = ucast (drop_bit 16 c)" "quad_be c ! 2 = ucast (drop_bit 8 c)" "quad_be c ! 3 = ucast c"
  "quad_le c ! 0 = ucast c" "quad_le c ! 1 = ucast (drop_bit 8 c)" "quad_le c ! 2 = ucast (drop_bit 16 c)" "quad_le c ! 3 = ucast (drop_bit 24 c)"
  by (simp_all add: unit_be_def unit_le_def quad_be_def quad_le_def)

lemma nth_blocks:
  assumes "\<And>u. length (f u) = w" "j < length us" "k < w"
  shows "concat (map f us) ! (w * j + k) = f (us ! j) ! k" and "w * j + k < length (concat (map f us))"
proof -
  have len: "length (concat (map f us)) = w * length us" for us by (induction us) (simp_all add: assms(1))
  show "w * j + k < length (concat (map f us))"
  proof -
    have "w * j + k < w * Suc j" using assms(3) by simp
    also have "\<dots> \<le> w * length us" using assms(2) by (intro mult_le_mono2) simp
    finally show ?thesis by (simp add: len)
  qed
  show "concat (map f us) ! (w * j + k) = f (us ! j) ! k"
    using assms(2)
  proof (induction us arbitrary: j)
    case (Cons u us)
    then show ?case using assms(1,3) by (cases j) (auto simp: nth_append)
  qed simp
qed

lemma loads:
  shows "j < length us \<Longrightarrow> r_load_utf16_be (concat (map unit_be us)) (2 * j) = Some (us ! j)"
    and "j < length us \<Longrightarrow> r_load_utf16_le (concat (map unit_le us)) (2 * j) = Some (us ! j)"
    and "j < length cs \<Longrightarrow> r_load_utf32_be (concat (map quad_be cs)) (4 * j) = Some (cs ! j)"
    and "j < length cs \<Longrightarrow> r_load_utf32_le (concat (map quad_le cs)) (4 * j) = Some (cs ! j)"
proof -
  have l: "length (unit_be u) = 2" "length (unit_le u) = 2" "length (quad_be c) = 4" "length (quad_le c) = 4" for u c
    by (simp_all add: unit_be_def unit_le_def quad_be_def quad_le_def)
  note two = nth_blocks [of unit_be 2 j us, OF l(1)] nth_blocks [of unit_le 2 j us, OF l(2)]
  note four = nth_blocks [of quad_be 4 j cs, OF l(3)] nth_blocks [of quad_le 4 j cs, OF l(4)]
  show "r_load_utf16_be (concat (map unit_be us)) (2 * j) = Some (us ! j)" if "j < length us"
    using two(1,2) [OF that, of 0] two(1,2) [OF that, of 1] unit_join [of "us ! j"]
    by (simp add: r_load_utf16_be_def byte_nths [simplified])
  show "r_load_utf16_le (concat (map unit_le us)) (2 * j) = Some (us ! j)" if "j < length us"
    using two(3,4) [OF that, of 0] two(3,4) [OF that, of 1] unit_join [of "us ! j"]
    by (simp add: r_load_utf16_le_def byte_nths [simplified])
  show "r_load_utf32_be (concat (map quad_be cs)) (4 * j) = Some (cs ! j)" if "j < length cs"
    using four(1,2) [OF that, of 0] four(1,2) [OF that, of 1] four(1,2) [OF that, of 2] four(1,2) [OF that, of 3] quad_join [of "cs ! j"]
    by (simp add: r_load_utf32_be_def byte_nths [simplified])
  show "r_load_utf32_le (concat (map quad_le cs)) (4 * j) = Some (cs ! j)" if "j < length cs"
    using four(3,4) [OF that, of 0] four(3,4) [OF that, of 1] four(3,4) [OF that, of 2] four(3,4) [OF that, of 3] quad_join [of "cs ! j"]
    by (simp add: r_load_utf32_le_def byte_nths [simplified])
qed

section \<open>The wire conversions\<close>

definition wire_spec ::
  "nat \<Rightarrow> ('u list \<Rightarrow> dstep) \<Rightarrow> (nat \<Rightarrow> nat) \<Rightarrow> ruint8 list \<Rightarrow> nat \<Rightarrow> 'u list \<Rightarrow> ruint8 conv_result" where
  "wire_spec w step ovf dst dstsize us =
     (case transcode step utf8_enc ovf (dstsize - 1) us of
        (r, out, k) \<Rightarrow> (r, Some (write_at dst 0 (out @ [0])), Some (length out), Some (w * k)))"

context decoder
begin

lemma wire_conv:
  assumes turn: "\<And>dst d j. dend < length dst \<Longrightarrow> d \<le> dend \<Longrightarrow> j \<le> length us \<Longrightarrow>
      f dst d (w * j) = loop_turn w step utf8_enc ovf us dend (\<lambda>dst d j. f dst d (w * j)) dst d j"
    and sizes: "2 \<le> dstsize" "dstsize \<le> length dst" "dend = dstsize - 1"
  shows "(do {
      (ret, dbuf, d, i) \<leftarrow> f dst 0 0;
      dbuf \<leftarrow> store dbuf d 0;
      Some (ret, Some dbuf, Some d, Some i)
    }) = Some (wire_spec w step ovf dst dstsize us)"
proof -
  obtain r out k where t: "transcode step utf8_enc ovf dend us = (r, out, k)" by (cases "transcode step utf8_enc ovf dend us")
  have "(\<lambda>dst d j. f dst d (w * j)) dst 0 0 = (case transcode step utf8_enc ovf (dend - 0) (drop 0 us) of
      (r, out, m) \<Rightarrow> Some (r, write_at dst 0 out, 0 + length out, w * (0 + m)))"
    by (rule loop_transcode) (use turn sizes in auto)
  then have f: "f dst 0 0 = Some (r, write_at dst 0 out, length out, w * k)" using t by simp
  have "length out \<le> dend" by (rule transcode_room [OF t])
  then have lo: "length out < length dst" using sizes by linarith
  have "write_at dst 0 (out @ [0]) = (write_at dst 0 out)[length out := 0]"
    using lo write_at_write_at [of 0 out "[0]" dst] write_at_units(1) [of "length out" 1 "write_at dst 0 out" 0] by simp
  moreover have "length out < length (write_at dst 0 out)" using lo by simp
  ultimately show ?thesis using f t sizes(3) by (simp add: wire_spec_def)
qed

end

lemma r_utf16_wire_turn:
  assumes load: "\<And>j. j < length us \<Longrightarrow> load src (2 * j) = Some (us ! j)" and n: "n = 2 * length us"
    and dst: "dend < length dst" "d \<le> dend" and j: "j \<le> length us"
  shows "r_utf16_wire_to_utf8_loop load src n dend dst d (2 * j)
    = loop_turn 2 utf16_step utf8_enc (\<lambda>k. k) us dend (\<lambda>dst d j. r_utf16_wire_to_utf8_loop load src n dend dst d (2 * j)) dst d j"
proof (cases "j < length us \<and> us ! j \<noteq> 0")
  case False
  then have "at_end (drop j us)" by (cases "j < length us") (auto simp: hd_drop_conv_nth)
  then have "utf16_step (drop j us) = Done" using utf16.step_Done by blast
  with False n load show ?thesis by (subst r_utf16_wire_to_utf8_loop.simps) (auto simp: loop_turn_def)
next
  case True
  let ?u = "us ! j" and ?v = "us ! Suc j"
  have f: "load src (2 * j) = Some ?u" "2 * j + 1 < n" "Suc (2 * j) < n" using True load n by simp_all
  have us: "drop j us = ?u # drop (Suc j) us" using True by (simp add: Cons_nth_drop_Suc)
  have more: "2 * j + 3 < n \<longleftrightarrow> Suc j < length us" using n by auto
  have four: "4 + x = Suc (Suc (Suc (Suc x)))" for x :: nat by simp
  note put = unichar_put [OF _ dst]
  show ?thesis
  proof (cases "?u < 0xd800 \<or> 0xe000 \<le> ?u")
    case bmp: True
    have p: "unat (ucast ?u :: runichar) < 0x110000" using unit_less [of ?u] by simp
    show ?thesis
      using True bmp f us put [OF p] by (subst r_utf16_wire_to_utf8_loop.simps) (auto simp: loop_turn_def algebra_simps)
  next
    case sur: False
    show ?thesis
    proof (cases "?u < 0xdc00 \<and> Suc j < length us")
      case False
      then have "?u < 0xdc00 \<Longrightarrow> drop (Suc j) us = []" by simp
      then show ?thesis
        using True False sur f us more by (subst r_utf16_wire_to_utf8_loop.simps) (auto simp: loop_turn_def)
    next
      case high: True
      then have us2: "drop (Suc j) us = ?v # drop (Suc (Suc j)) us" by (simp add: Cons_nth_drop_Suc)
      have f2: "load src (2 * j + 2) = Some ?v" using load [of "Suc j"] high by simp
      show ?thesis
      proof (cases "0xdc00 \<le> ?v \<and> ?v < 0xe000")
        case False
        then show ?thesis
          using True high sur f f2 us us2 more by (subst r_utf16_wire_to_utf8_loop.simps) (auto simp: loop_turn_def)
      next
        case low: True
        then have hl: "high_surrogate ?u" "low_surrogate ?v" using high sur by (auto simp: unit_less_nat)
        show ?thesis
          using True high sur low f f2 us us2 more put [OF enc_pair(3) [OF hl]] unat_pair_code_point(2) [OF hl]
          by (subst r_utf16_wire_to_utf8_loop.simps) (auto simp: loop_turn_def algebra_simps four)
      qed
    qed
  qed
qed

lemma r_utf32_wire_turn:
  assumes load: "\<And>j. j < length us \<Longrightarrow> load src (4 * j) = Some (us ! j)" and n: "n = 4 * length us"
    and dst: "dend < length dst" "d \<le> dend" and j: "j \<le> length us"
  shows "r_utf32_wire_to_utf8_loop load src n dend dst d (4 * j)
    = loop_turn 4 utf32_step utf8_enc (\<lambda>_. 0) us dend (\<lambda>dst d j. r_utf32_wire_to_utf8_loop load src n dend dst d (4 * j)) dst d j"
proof (cases "j < length us \<and> us ! j \<noteq> 0")
  case False
  then have "at_end (drop j us)" by (cases "j < length us") (auto simp: hd_drop_conv_nth)
  then have "utf32_step (drop j us) = Done" using utf32.step_Done by blast
  with False n load show ?thesis by (subst r_utf32_wire_to_utf8_loop.simps) (auto simp: loop_turn_def)
next
  case True
  let ?u = "us ! j"
  have f: "load src (4 * j) = Some ?u" "4 * j + 3 < n" using True load n by simp_all
  have us: "drop j us = ?u # drop (Suc j) us" using True by (simp add: Cons_nth_drop_Suc)
  have "scalar ?u \<Longrightarrow> unat ?u < 0x110000" by (auto simp: scalar_nat)
  then show ?thesis
    using True f us unichar_put [of ?u dend dst d] dst
    by (subst r_utf32_wire_to_utf8_loop.simps) (auto simp: loop_turn_def algebra_simps)
qed

lemma wire_conv16:
  assumes load: "\<And>j. j < length us \<Longrightarrow> load src (2 * j) = Some (us ! j)" and "dstsize \<le> length dst"
  shows "r_utf16_wire_to_utf8 load (Some dst) dstsize (Some src) (2 * length us)
    = Some (sized dst dstsize (wire_spec 2 utf16_step (\<lambda>k. k) dst dstsize us))"
proof -
  have e: "(2 * length us) AND 1 = 0" by (simp add: and_one_eq)
  consider "dstsize = 0" | "dstsize = 1" "0 < length dst" | "2 \<le> dstsize" using assms(2) by linarith
  then show ?thesis
  proof cases
    case 3
    then show ?thesis
      using utf16.wire_conv [OF r_utf16_wire_turn [of us load src, OF load refl] 3 assms(2) refl] e by (simp add: r_utf16_wire_to_utf8_def sized_def)
  qed (use e in \<open>simp_all add: r_utf16_wire_to_utf8_def sized_def\<close>)
qed

lemma wire_conv32:
  assumes load: "\<And>j. j < length us \<Longrightarrow> load src (4 * j) = Some (us ! j)" and "dstsize \<le> length dst"
  shows "r_utf32_wire_to_utf8 load (Some dst) dstsize (Some src) (4 * length us)
    = Some (sized dst dstsize (wire_spec 4 utf32_step (\<lambda>_. 0) dst dstsize us))"
proof -
  have e: "(4 * length us) AND 3 = 0" using nat_and_pow2_minus_1 [of "4 * length us" 2] by simp
  consider "dstsize = 0" | "dstsize = 1" "0 < length dst" | "2 \<le> dstsize" using assms(2) by linarith
  then show ?thesis
  proof cases
    case 3
    then show ?thesis
      using utf32.wire_conv [OF r_utf32_wire_turn [of us load src, OF load refl] 3 assms(2) refl] e by (simp add: r_utf32_wire_to_utf8_def sized_def)
  qed (use e in \<open>simp_all add: r_utf32_wire_to_utf8_def sized_def\<close>)
qed

text \<open>
  C31. The wire conversions read their units in the byte order they name: on the bytes of a sequence
  of code units, in that order, each is the transcoding of the units to UTF-8, with the source
  position in bytes, so the result does not depend on the byte order of the host.  All four refuse a
  byte count that is not a whole number of units, without a write.
\<close>

theorem r_utf_wire_conversions:
  assumes "dstsize \<le> length dst"
  shows "r_utf16be_to_utf8 (Some dst) dstsize (Some (concat (map unit_be us))) (2 * length us)
      = Some (sized dst dstsize (wire_spec 2 utf16_step (\<lambda>k. k) dst dstsize us)) \<and>
    r_utf16le_to_utf8 (Some dst) dstsize (Some (concat (map unit_le us))) (2 * length us)
      = Some (sized dst dstsize (wire_spec 2 utf16_step (\<lambda>k. k) dst dstsize us)) \<and>
    r_utf32be_to_utf8 (Some dst) dstsize (Some (concat (map quad_be cs))) (4 * length cs)
      = Some (sized dst dstsize (wire_spec 4 utf32_step (\<lambda>_. 0) dst dstsize cs)) \<and>
    r_utf32le_to_utf8 (Some dst) dstsize (Some (concat (map quad_le cs))) (4 * length cs)
      = Some (sized dst dstsize (wire_spec 4 utf32_step (\<lambda>_. 0) dst dstsize cs)) \<and>
    (m mod 2 \<noteq> 0 \<longrightarrow>
      r_utf16be_to_utf8 (Some dst) dstsize (Some src) m = Some (R_UNICODE_INVAL, Some dst, None, None) \<and>
      r_utf16le_to_utf8 (Some dst) dstsize (Some src) m = Some (R_UNICODE_INVAL, Some dst, None, None)) \<and>
    (m mod 4 \<noteq> 0 \<longrightarrow>
      r_utf32be_to_utf8 (Some dst) dstsize (Some src) m = Some (R_UNICODE_INVAL, Some dst, None, None) \<and>
      r_utf32le_to_utf8 (Some dst) dstsize (Some src) m = Some (R_UNICODE_INVAL, Some dst, None, None))"
proof (intro conjI)
  have "m AND 1 = m mod 2" "m AND 3 = m mod 4" using nat_and_pow2_minus_1 [of m 2] by (simp_all add: and_one_eq)
  then show "m mod 2 \<noteq> 0 \<longrightarrow>
      r_utf16be_to_utf8 (Some dst) dstsize (Some src) m = Some (R_UNICODE_INVAL, Some dst, None, None) \<and>
      r_utf16le_to_utf8 (Some dst) dstsize (Some src) m = Some (R_UNICODE_INVAL, Some dst, None, None)"
    "m mod 4 \<noteq> 0 \<longrightarrow>
      r_utf32be_to_utf8 (Some dst) dstsize (Some src) m = Some (R_UNICODE_INVAL, Some dst, None, None) \<and>
      r_utf32le_to_utf8 (Some dst) dstsize (Some src) m = Some (R_UNICODE_INVAL, Some dst, None, None)"
    by (simp_all add: r_utf16be_to_utf8_def r_utf16le_to_utf8_def r_utf16_wire_to_utf8_def
        r_utf32be_to_utf8_def r_utf32le_to_utf8_def r_utf32_wire_to_utf8_def)
qed (unfold r_utf16be_to_utf8_def r_utf16le_to_utf8_def r_utf32be_to_utf8_def r_utf32le_to_utf8_def,
    rule wire_conv16 wire_conv32; use loads assms in blast)+

theorem r_utf_wire_conversions_witness:
  "r_utf16be_to_utf8 (Some [7, 7, 7]) 3 (Some [0, 0x41]) 2 = Some (R_UNICODE_OK, Some [0x41, 0, 7], Some 1, Some 2) \<and>
   r_utf32le_to_utf8 (Some [7, 7, 7]) 3 (Some [0, 0x41]) 2 = Some (R_UNICODE_INVAL, Some [7, 7, 7], None, None)"
proof -
  have "transcode utf16_step utf8_enc (\<lambda>k. k) 2 (encode_all utf16_enc [0x41] @ [])
      = (R_UNICODE_OK, encode_all utf8_enc [0x41], length (encode_all utf16_enc [0x41]))"
    by (rule utf16.transcode_text) (simp_all add: bad_code_point_def utf8_enc_def)
  then have "transcode utf16_step utf8_enc (\<lambda>k. k) 2 [0x41] = (R_UNICODE_OK, [0x41], 1)"
    by (simp add: utf16_enc_def utf8_enc_def)
  then show ?thesis
    using r_utf_wire_conversions [of 3 "[7, 7, 7]" "[0x41]" "[]" 2 "[0, 0x41]"]
    by (simp add: unit_be_def sized_def wire_spec_def write_at_def)
qed

section \<open>WTF-8 as an encoding form\<close>

text \<open>
  WTF-8 is UTF-8 over all code points, surrogates included; the reader of UTF-16 takes a surrogate
  that is not half of a pair as a code point of its own.
\<close>

abbreviation wide :: "runichar \<Rightarrow> bool" where
  "wide c \<equiv> unat c < 0x110000"

definition wtf8_result :: "int \<times> runichar \<Rightarrow> dstep" where
  "wtf8_result x = (case x of (r, uc) \<Rightarrow>
     if r > 0 then if uc \<ge> 0x110000 then Bad R_UNICODE_INVALID_CODE_POINT else Chr uc (nat r)
     else if r = 0 then Done
     else if r = R_UTF8_OVERLONG then Bad R_UNICODE_INVALID_CODE_POINT
     else Bad R_UNICODE_INCOMPLETE_CODE_POINT)"

definition wtf8_step :: "ruint8 list \<Rightarrow> dstep" where
  "wtf8_step us = (if at_end us then Done else case utf8_front us of None \<Rightarrow> Done | Some x \<Rightarrow> wtf8_result x)"

fun wtf16_step :: "runichar2 list \<Rightarrow> dstep" where
  "wtf16_step [] = Done"
| "wtf16_step (u # us) =
     (if u = 0 then Done
      else case us of
        v # _ \<Rightarrow> if high_surrogate u \<and> low_surrogate v then Chr (pair_code_point u v) 2 else Chr (ucast u) 1
      | [] \<Rightarrow> Chr (ucast u) 1)"

interpretation wtf8: codec wide wtf8_step utf8_enc
proof
  fix c us
  assume c: "wide c" "c \<noteq> 0"
  have "\<not> at_end (utf8_enc c @ us)" using utf8_enc_hd [OF c] utf8_enc_nonempty [of c] by auto
  then show "wtf8_step (utf8_enc c @ us) = Chr c (length (utf8_enc c))"
    using c utf8_front_enc [OF c(1)] utf8_enc_nonempty [of c]
    by (simp add: wtf8_step_def wtf8_result_def word_less_nat del: append_is_Nil_conv hd_append2)
next
  fix us c k
  assume step: "wtf8_step us = Chr c k"
  then have us: "\<not> at_end us" by (auto simp: wtf8_step_def)
  obtain r uc where f: "utf8_front us = Some (r, uc)" using utf8_front_total by blast
  have "r > 0" "wide uc" "c = uc" "k = nat r"
    using step us f by (auto simp: wtf8_step_def wtf8_result_def word_less_nat split: if_splits)
  moreover obtain l where l: "us = utf8_enc uc @ l" "r = int (length (utf8_enc uc))" using utf8_enc_front [OF f \<open>r > 0\<close>] by blast
  moreover have "uc \<noteq> 0" using l us by (auto simp: utf8_enc_def)
  ultimately show "wide c \<and> c \<noteq> 0 \<and> k = length (utf8_enc c) \<and> (\<exists>l. us = utf8_enc c @ l)" by auto
next
  show "utf8_enc c \<noteq> []" for c by (rule utf8_enc_nonempty)
  fix us
  obtain r uc where f: "utf8_front us = Some (r, uc)" using utf8_front_total by blast
  show "wtf8_step us = Done \<longleftrightarrow> us = [] \<or> hd us = 0"
    using f utf8_front_zero [OF f] by (auto simp: wtf8_step_def wtf8_result_def split: if_splits)
  show "wtf8_step us \<noteq> Bad R_UNICODE_OK"
    using f by (auto simp: wtf8_step_def wtf8_result_def split: if_splits)
qed

interpretation wtf16: decoder wtf16_step
proof
  show "0 < k \<and> k \<le> length us" if "wtf16_step us = Chr c k" for us c k
    using that by (cases us) (auto split: if_splits list.splits)
qed

lemma wtf16_step_Done: "at_end us \<Longrightarrow> wtf16_step us = Done"
  by (cases us) auto

lemma surrogate_words:
  "0xd800 \<le> u \<and> u < 0xdc00 \<longleftrightarrow> high_surrogate u" "0xdc00 \<le> v \<and> v < 0xe000 \<longleftrightarrow> low_surrogate v"
  for u v :: runichar2
  by (auto simp: unit_less_nat)

lemma r_utf16_to_wtf8_turn:
  assumes "n \<le> length src" "dend < length dst" "d \<le> dend" "i \<le> n"
  shows "r_utf16_to_wtf8_loop src n dend dst d i
    = loop_turn 1 wtf16_step utf8_enc (\<lambda>k. k - 1) (take n src) dend (r_utf16_to_wtf8_loop src n dend) dst d i"
proof (cases "i < n \<and> src ! i \<noteq> 0")
  case False
  then have "wtf16_step (drop i (take n src)) = Done" using wtf16_step_Done step_at_end [OF assms(1), of i] by blast
  with False assms(1) show ?thesis by (subst r_utf16_to_wtf8_loop.simps) (auto simp: loop_turn_def)
next
  case True
  let ?u = "src ! i" and ?v = "src ! Suc i"
  have f: "fetch src i = Some ?u" "0 < ?u" using True assms(1) by (simp_all add: word_neq_0_conv [symmetric] word_gt_0)
  have us: "drop i (take n src) = ?u # drop (Suc i) (take n src)" by (rule units_at(1)) (use True assms in auto)
  note put = unichar_put [OF _ assms(2,3)]
  show ?thesis
  proof (cases "high_surrogate ?u \<and> Suc i < n \<and> low_surrogate ?v")
    case pair: True
    then have hl: "high_surrogate ?u" "low_surrogate ?v" by auto
    have c: "\<not> ?u < 0xd800" "\<not> 0xe000 \<le> ?u" "?u < 0xdc00" "0xdc00 \<le> ?v" "?v < 0xe000"
      using hl unfolding unit_less_nat by linarith+
    have f2: "fetch src (Suc i) = Some ?v" using pair assms(1) by simp
    have s: "wtf16_step (drop i (take n src)) = Chr (pair_code_point ?u ?v) 2"
      using us units_at(2) [OF assms(1), of i] True pair by simp
    show ?thesis
      using True pair f f2 c s put [OF enc_pair(3) [OF hl]] unat_pair_code_point(2) [OF hl]
      by (subst r_utf16_to_wtf8_loop.simps) (auto simp: loop_turn_def)
  next
    case single: False
    have s: "wtf16_step (drop i (take n src)) = Chr (ucast ?u) 1"
      using us units_at(2) [OF assms(1), of i] True single by (cases "Suc i < n") auto
    have f2: "fetch src (Suc i) = Some ?v" if "Suc i < n" using that assms(1) by simp
    have p: "wide (ucast ?u)" using unit_less [of ?u] by simp
    have c: "\<not> (0xdc00 \<le> ?v \<and> ?v < 0xe000)" if "Suc i < n" "?u < 0xdc00" "\<not> (?u < 0xd800 \<or> 0xe000 \<le> ?u)"
      using that single unfolding surrogate_words(2) by (auto simp: unit_less_nat)
    show ?thesis
    proof (cases "Suc i < n \<and> ?u < 0xdc00 \<and> \<not> (?u < 0xd800 \<or> 0xe000 \<le> ?u)")
      case bad: True
      then have "\<not> (0xdc00 \<le> ?v \<and> ?v < 0xe000)" using c by blast
      then show ?thesis
        using True bad f f2 s put [OF p] by (subst r_utf16_to_wtf8_loop.simps) (auto simp: loop_turn_def)
    next
      case False
      then show ?thesis
        using True f s put [OF p] by (subst r_utf16_to_wtf8_loop.simps) (auto simp: loop_turn_def)
    qed
  qed
qed

lemma wtf8_at:
  assumes "n \<le> length src" "i < n" "src ! i \<noteq> 0"
  obtains r uc where "r_utf8_to_unichar src i (n - i) 0 = Some (r, uc)" "wtf8_step (drop i (take n src)) = wtf8_result (r, uc)" "r \<noteq> 0"
proof -
  obtain r uc where f: "utf8_front (drop i (take n src)) = Some (r, uc)" using utf8_front_total by blast
  have ne: "drop i (take n src) \<noteq> []" "hd (drop i (take n src)) \<noteq> 0" using assms by (simp_all add: hd_drop_conv_nth)
  show ?thesis
    by (rule that [of r uc])
      (use f ne r_utf8_to_unichar_at [OF assms(1)] utf8_front_zero [OF f ne(1)] in \<open>simp_all add: wtf8_step_def\<close>)
qed

lemma r_wtf8_to_utf16_turn:
  assumes "n \<le> length src" "dend < length dst" "d \<le> dend" "i \<le> n"
  shows "r_wtf8_to_utf16_loop src n dend dst d i
    = loop_turn 1 wtf8_step utf16_enc (\<lambda>_. 0) (take n src) dend (r_wtf8_to_utf16_loop src n dend) dst d i"
proof (cases "i < n \<and> src ! i \<noteq> 0")
  case False
  then have "wtf8_step (drop i (take n src)) = Done" using wtf8.step_Done step_at_end [OF assms(1), of i] by blast
  with False assms(1) show ?thesis by (subst r_wtf8_to_utf16_loop.simps) (auto simp: loop_turn_def)
next
  case True
  then obtain r uc where f: "r_utf8_to_unichar src i (n - i) 0 = Some (r, uc)"
    and s: "wtf8_step (drop i (take n src)) = wtf8_result (r, uc)" "r \<noteq> 0" using wtf8_at [OF assms(1)] by blast
  have "fetch src i = Some (src ! i)" using True assms(1) by simp
  moreover have "\<not> 0x110000 \<le> uc \<Longrightarrow> wide uc" by (simp add: word_less_nat)
  ultimately show ?thesis
    using True f s utf16_write_wide [of uc dend dst d] assms
    by (subst r_wtf8_to_utf16_loop.simps) (auto simp: loop_turn_def wtf8_result_def)
qed

lemma r_utf16_to_wtf8_conv:
  assumes "2 \<le> dstsize" "dstsize \<le> length dst" "n \<le> length src"
  shows "r_utf16_to_wtf8 (Some dst) dstsize (Some src) n
    = Some (if take 1 (take n src) = [0xfffe] then (R_UNICODE_INVAL, Some dst, None, None)
        else conv_spec wtf16_step utf8_enc (\<lambda>k. k - 1) dst dstsize (unit_mark (take n src)) (take n src))"
proof -
  have s: "unit_mark (take n src) \<le> n" using mark_le(2) [of "take n src"] assms(3) by simp
  show ?thesis
    using wtf16.loop_conv [OF r_utf16_to_wtf8_turn assms refl s] assms s
    by (simp add: r_utf16_to_wtf8_def utf16_bom_mark)
qed

lemma r_wtf8_to_utf16_conv:
  assumes "2 \<le> dstsize" "dstsize \<le> length dst" "n \<le> length src"
  shows "r_wtf8_to_utf16 (Some dst) dstsize (Some src) (int n)
    = Some (conv_spec wtf8_step utf16_enc (\<lambda>_. 0) dst dstsize (utf8_mark (take n src)) (take n src))"
proof -
  have s: "utf8_mark (take n src) \<le> n" using mark_le(1) [of "take n src"] assms(3) by simp
  show ?thesis
    using wtf8.loop_conv [OF r_wtf8_to_utf16_turn assms refl s] assms s
    by (simp add: r_wtf8_to_utf16_def utf8_bom_mark)
qed

section \<open>Every sequence of units survives\<close>

lemma utf16_enc_unit: "utf16_enc (ucast u) = [u]"
  using utf16_enc_one [of "ucast u"] unit_less [of u] by simp

lemma wtf16_step_unit:
  assumes "us \<noteq> []" "hd us \<noteq> 0"
  obtains c k where "wtf16_step us = Chr c k" "wide c" "c \<noteq> 0" "utf16_enc c = take k us" "0 < k" "k \<le> length us"
proof -
  obtain u l where us: "us = u # l" "u \<noteq> 0" using assms by (cases us) auto
  show ?thesis
  proof (cases "l \<noteq> [] \<and> high_surrogate u \<and> low_surrogate (hd l)")
    case True
    then obtain v l' where l: "l = v # l'" and hl: "high_surrogate u" "low_surrogate v" by (cases l) auto
    have "pair_code_point u v \<noteq> 0" using enc_pair(2) [OF hl] by auto
    then show ?thesis
      using that [of "pair_code_point u v" 2] us l hl enc_pair [OF hl] by simp
  next
    case False
    have "wide (ucast u)" using unit_less [of u] by simp
    moreover have "(ucast u :: runichar) \<noteq> 0" using us(2) by (metis unat_0 unat_eq_zero unat_ucast_unit)
    moreover have "wtf16_step us = Chr (ucast u) 1" using us False by (cases l) auto
    ultimately show ?thesis using that [of "ucast u" 1] us utf16_enc_unit [of u] by simp
  qed
qed

lemma wtf16_units:
  assumes "0 \<notin> set us"
  shows "\<exists>cs. text_in wide cs \<and> us = encode_all utf16_enc cs \<and>
    (\<forall>ovf room. length (encode_all utf8_enc cs) \<le> room \<longrightarrow>
      transcode wtf16_step utf8_enc ovf room us = (R_UNICODE_OK, encode_all utf8_enc cs, length us))"
  using assms
proof (induction "length us" arbitrary: us rule: less_induct)
  case less
  show ?case
  proof (cases "us = []")
    case True
    then show ?thesis by (intro exI [of _ "[]"]) (simp add: transcode.simps)
  next
    case False
    have "hd us \<noteq> 0" using less.prems False by (cases us) auto
    from wtf16_step_unit [OF False this] obtain c k where c: "wtf16_step us = Chr c k" "wide c" "c \<noteq> 0"
      and k: "utf16_enc c = take k us" "0 < k" "k \<le> length us" .
    have "length (drop k us) < length us" "0 \<notin> set (drop k us)" using k less.prems set_drop_subset [of k us] by auto
    from less.hyps [OF this] obtain cs where cs: "text_in wide cs" "drop k us = encode_all utf16_enc cs"
      and t: "\<And>ovf room. length (encode_all utf8_enc cs) \<le> room \<Longrightarrow>
        transcode wtf16_step utf8_enc ovf room (drop k us) = (R_UNICODE_OK, encode_all utf8_enc cs, length (drop k us))" by blast
    have "us = encode_all utf16_enc (c # cs)" using append_take_drop_id [of k us] cs(2) k(1) by simp
    moreover have "transcode wtf16_step utf8_enc ovf room us = (R_UNICODE_OK, encode_all utf8_enc (c # cs), length us)"
      if "length (encode_all utf8_enc (c # cs)) \<le> room" for ovf room
      using t [of "room - length (utf8_enc c)" ovf] that c k False by (subst transcode.simps) simp
    ultimately show ?thesis using c cs(1) by (intro exI [of _ "c # cs"]) simp
  qed
qed

lemma r_utf16_to_wtf8_dup_text:
  assumes "alloc_ok alloc" "us \<noteq> []" "hd us \<noteq> 0xfeff" "hd us \<noteq> 0xfffe" "us = encode_all utf16_enc cs"
    and t: "\<And>ovf room. length (encode_all utf8_enc cs) \<le> room \<Longrightarrow>
      transcode wtf16_step utf8_enc ovf room us = (R_UNICODE_OK, encode_all utf8_enc cs, length us)"
  shows "\<exists>junk. r_utf16_to_wtf8_dup alloc (Some (us @ l)) (length us)
    = Some (Some (encode_all utf8_enc cs @ 0 # junk), R_UNICODE_OK, Some (length (encode_all utf8_enc cs)), Some (length us))"
proof -
  let ?n = "length us * 3 + 1"
  obtain b where b: "alloc ?n = Some b" "length b = ?n" using assms(1) unfolding alloc_ok_def by blast
  have m: "unit_mark us = 0" "take 1 us \<noteq> [0xfffe]" using assms(2-4) by (cases us; simp add: unit_mark_def)+
  have n: "2 \<le> ?n" "length us \<noteq> 0" using assms(2) by (cases us; simp)+
  have le: "length (encode_all utf8_enc cs) \<le> ?n - 1" using text_lengths(2) [of cs] assms(5) by simp
  have "r_utf16_to_wtf8 (Some b) ?n (Some (us @ l)) (length us)
      = Some (conv_spec wtf16_step utf8_enc (\<lambda>k. k - 1) b ?n 0 us)"
    using r_utf16_to_wtf8_conv [OF n(1), of b "length us" "us @ l"] b m by simp
  also have "conv_spec wtf16_step utf8_enc (\<lambda>k. k - 1) b ?n 0 us = (R_UNICODE_OK,
      Some (write_at b 0 (encode_all utf8_enc cs @ [0])), Some (length (encode_all utf8_enc cs)), Some (length us))"
    using t [OF le] by (simp add: conv_spec_def)
  finally show ?thesis using b n by (simp add: r_utf16_to_wtf8_dup_def dup_finish_def write_at_def)
qed

lemma r_wtf8_to_utf16_dup_text:
  assumes "alloc_ok alloc" "text_in wide cs" "cs \<noteq> []" "hd cs \<noteq> 0xfeff"
  shows "\<exists>junk. r_wtf8_to_utf16_dup alloc (Some (encode_all utf8_enc cs @ 0 # l)) (- 1)
    = Some (Some (encode_all utf16_enc cs @ 0 # junk), R_UNICODE_OK, Some (length (encode_all utf16_enc cs)), Some (length (encode_all utf8_enc cs)))"
proof -
  let ?e8 = "encode_all utf8_enc cs" and ?e16 = "encode_all utf16_enc cs"
  obtain b where b: "alloc (length ?e8 + 1) = Some b" "length b = length ?e8 + 1" using assms(1) unfolding alloc_ok_def by blast
  have "0 \<notin> set ?e8" using assms(2) utf8_enc_nonzero by (auto simp: list_all_iff)
  then have len: "c_strlen (?e8 @ 0 # l) = Some (length ?e8)" by (rule c_strlen_append)
  have two: "2 \<le> length ?e8 + 1" using assms(3) utf8_enc_nonempty by (cases cs) (auto simp: Suc_le_eq)
  have "utf8_enc 0xfeff = [0xef, 0xbb, 0xbf]" by (simp add: utf8_enc_def)
  then have m: "utf8_mark (take (length ?e8) (?e8 @ 0 # l)) = 0"
    using wtf8.mark_absent [of cs "0xfeff" 3] assms by (simp add: utf8_mark_def)
  have "r_wtf8_to_utf16 (Some b) (length ?e8 + 1) (Some (?e8 @ 0 # l)) (int (length ?e8))
      = Some (conv_spec wtf8_step utf16_enc (\<lambda>_. 0) b (length ?e8 + 1) 0 ?e8)"
    using r_wtf8_to_utf16_conv [OF two, of b "length ?e8" "?e8 @ 0 # l"] b m by simp
  also have "conv_spec wtf8_step utf16_enc (\<lambda>_. 0) b (length ?e8 + 1) 0 ?e8
      = (R_UNICODE_OK, Some (write_at b 0 (?e16 @ [0])), Some (length ?e16), Some (length ?e8))"
    by (rule wtf8.conv_spec_text [OF assms(2)]) (use text_lengths(1) [of cs] in simp)
  finally show ?thesis
    using b len by (simp add: r_wtf8_to_utf16_dup_def r_strlen_def dup_finish_def write_at_def)
qed

text \<open>
  C32. WTF-8 carries UTF-16 code units that are not well-formed text: a non-empty sequence without a zero unit that
  does not begin with a byte order mark (which is stripped) or its mirror image (which is refused),
  whether or not its surrogates are paired,
  is converted without an error and comes back unit by unit, terminated, and the buffer of three bytes
  a unit is large enough.
\<close>

theorem r_utf16_wtf8_roundtrip:
  assumes "alloc_ok alloc1" "alloc_ok alloc2" "us \<noteq> []" "0 \<notin> set us" "hd us \<noteq> 0xfeff" "hd us \<noteq> 0xfffe"
  shows "\<exists>s w n junk. r_utf16_to_wtf8_dup alloc1 (Some (us @ l)) (length us) = Some (Some s, R_UNICODE_OK, Some n, Some (length us)) \<and>
    r_wtf8_to_utf16_dup alloc2 (Some s) (- 1) = Some (Some w, R_UNICODE_OK, Some (length us), Some n) \<and>
    w = us @ [0] @ junk"
proof -
  obtain cs where cs: "text_in wide cs" "us = encode_all utf16_enc cs"
    and t: "\<And>ovf room. length (encode_all utf8_enc cs) \<le> room \<Longrightarrow>
      transcode wtf16_step utf8_enc ovf room us = (R_UNICODE_OK, encode_all utf8_enc cs, length us)"
    using wtf16_units [OF assms(4)] by blast
  have ne: "cs \<noteq> []" using cs(2) assms(3) by auto
  have hd: "hd cs \<noteq> 0xfeff"
  proof
    assume "hd cs = 0xfeff"
    with ne obtain cs' where "cs = 0xfeff # cs'" by (cases cs) auto
    then have "hd us = 0xfeff" using cs(2) by (simp add: utf16_enc_def)
    with assms(5) show False by simp
  qed
  obtain junk where s: "r_utf16_to_wtf8_dup alloc1 (Some (us @ l)) (length us) = Some (Some (encode_all utf8_enc cs @ 0 # junk),
      R_UNICODE_OK, Some (length (encode_all utf8_enc cs)), Some (length us))"
    using r_utf16_to_wtf8_dup_text [OF assms(1,3,5,6) cs(2) t] by blast
  obtain junk' where w: "r_wtf8_to_utf16_dup alloc2 (Some (encode_all utf8_enc cs @ 0 # junk)) (- 1) = Some (Some (us @ 0 # junk'),
      R_UNICODE_OK, Some (length us), Some (length (encode_all utf8_enc cs)))"
    using r_wtf8_to_utf16_dup_text [OF assms(2) cs(1) ne hd, of junk] cs(2) by blast
  show ?thesis
    by (rule exI [of _ "encode_all utf8_enc cs @ 0 # junk"], rule exI [of _ "us @ 0 # junk'"],
        rule exI [of _ "length (encode_all utf8_enc cs)"], rule exI [of _ junk']) (use s w in simp)
qed

theorem r_utf16_wtf8_roundtrip_witness:
  "\<exists>s w n junk. r_utf16_to_wtf8_dup (\<lambda>n. Some (replicate n 0)) (Some [0xdc00, 0xd800, 0x41]) 3 = Some (Some s, R_UNICODE_OK, Some n, Some 3) \<and>
    r_wtf8_to_utf16_dup (\<lambda>n. Some (replicate n 0)) (Some s) (- 1) = Some (Some w, R_UNICODE_OK, Some 3, Some n) \<and>
    w = [0xdc00, 0xd800, 0x41, 0] @ junk"
proof -
  have a: "alloc_ok (\<lambda>n. Some (replicate n 0))" by (simp add: alloc_ok_def)
  show ?thesis using r_utf16_wtf8_roundtrip [OF a a, of "[0xdc00, 0xd800, 0x41]" "[]"] by (simp add: numeral_3_eq_3)
qed

end
