(* ===== verification/RDigest.thy ===== *)
theory RDigest
  imports RPrelude
begin

text \<open>
  What the digests of \<^verbatim>\<open>rlib/crypto/rmsgdigest.c\<close> share: the byte order helpers of
  \<^verbatim>\<open>include/rlib/types/rendianness.h\<close>, the rotations of \<^verbatim>\<open>include/rlib/types/rbitops.h\<close>, and the way
  every Merkle-Damgard digest of the file buffers its input and pads its last block.  The locale
  \<open>block_hash\<close> is the contract of a block function; under it, buffering and padding amount to
  running the compression function over the blocks of the padded message.
\<close>

section \<open>Byte order and rotations\<close>

definition r_load_le32 :: "ruint8 list \<Rightarrow> nat \<Rightarrow> ruint32 option" where
  "r_load_le32 p i = do {
     b0 \<leftarrow> fetch p i;
     b1 \<leftarrow> fetch p (i + 1);
     b2 \<leftarrow> fetch p (i + 2);
     b3 \<leftarrow> fetch p (i + 3);
     Some (ucast b0 OR push_bit 8 (ucast b1) OR push_bit 16 (ucast b2) OR push_bit 24 (ucast b3))
   }"

definition r_load_be32 :: "ruint8 list \<Rightarrow> nat \<Rightarrow> ruint32 option" where
  "r_load_be32 p i = do {
     b0 \<leftarrow> fetch p i;
     b1 \<leftarrow> fetch p (i + 1);
     b2 \<leftarrow> fetch p (i + 2);
     b3 \<leftarrow> fetch p (i + 3);
     Some (push_bit 24 (ucast b0) OR push_bit 16 (ucast b1) OR push_bit 8 (ucast b2) OR ucast b3)
   }"

definition r_load_be64 :: "ruint8 list \<Rightarrow> nat \<Rightarrow> ruint64 option" where
  "r_load_be64 p i = do {
     b0 \<leftarrow> fetch p i;
     b1 \<leftarrow> fetch p (i + 1);
     b2 \<leftarrow> fetch p (i + 2);
     b3 \<leftarrow> fetch p (i + 3);
     b4 \<leftarrow> fetch p (i + 4);
     b5 \<leftarrow> fetch p (i + 5);
     b6 \<leftarrow> fetch p (i + 6);
     b7 \<leftarrow> fetch p (i + 7);
     Some (push_bit 56 (ucast b0) OR push_bit 48 (ucast b1) OR push_bit 40 (ucast b2) OR push_bit 32 (ucast b3) OR
           push_bit 24 (ucast b4) OR push_bit 16 (ucast b5) OR push_bit 8 (ucast b6) OR ucast b7)
   }"

text \<open>The bytes of a word, least significant first.\<close>

definition le_bytes :: "nat \<Rightarrow> 'w :: len word \<Rightarrow> ruint8 list" where
  "le_bytes n v = map (\<lambda>i. ucast (drop_bit (8 * i) v)) [0..<n]"

definition r_store_le32 :: "ruint8 list \<Rightarrow> nat \<Rightarrow> ruint32 \<Rightarrow> ruint8 list option" where
  "r_store_le32 p i v = memcpy p i (le_bytes 4 v) 0 4"

definition r_store_be32 :: "ruint8 list \<Rightarrow> nat \<Rightarrow> ruint32 \<Rightarrow> ruint8 list option" where
  "r_store_be32 p i v = memcpy p i (rev (le_bytes 4 v)) 0 4"

definition r_store_le64 :: "ruint8 list \<Rightarrow> nat \<Rightarrow> ruint64 \<Rightarrow> ruint8 list option" where
  "r_store_le64 p i v = memcpy p i (le_bytes 8 v) 0 8"

definition r_store_be64 :: "ruint8 list \<Rightarrow> nat \<Rightarrow> ruint64 \<Rightarrow> ruint8 list option" where
  "r_store_be64 p i v = memcpy p i (rev (le_bytes 8 v)) 0 8"

definition RUINT32_SHL :: "ruint32 \<Rightarrow> nat \<Rightarrow> ruint32" where
  "RUINT32_SHL x n = push_bit (n AND 31) x"

definition RUINT32_SHR :: "ruint32 \<Rightarrow> nat \<Rightarrow> ruint32" where
  "RUINT32_SHR x n = drop_bit (n AND 31) x"

definition RUINT32_ROTL :: "ruint32 \<Rightarrow> nat \<Rightarrow> ruint32" where
  "RUINT32_ROTL x n = RUINT32_SHL x n OR RUINT32_SHR x (32 - n)"

definition RUINT32_ROTR :: "ruint32 \<Rightarrow> nat \<Rightarrow> ruint32" where
  "RUINT32_ROTR x n = RUINT32_SHR x n OR RUINT32_SHL x (32 - n)"

definition RUINT64_SHL :: "ruint64 \<Rightarrow> nat \<Rightarrow> ruint64" where
  "RUINT64_SHL x n = push_bit (n AND 63) x"

definition RUINT64_SHR :: "ruint64 \<Rightarrow> nat \<Rightarrow> ruint64" where
  "RUINT64_SHR x n = drop_bit (n AND 63) x"

definition RUINT64_ROTR :: "ruint64 \<Rightarrow> nat \<Rightarrow> ruint64" where
  "RUINT64_ROTR x n = RUINT64_SHR x n OR RUINT64_SHL x (64 - n)"

text \<open>The loop that reads the words of a block.\<close>

definition load_words :: "(ruint8 list \<Rightarrow> nat \<Rightarrow> 'w option) \<Rightarrow> nat \<Rightarrow> ruint8 list \<Rightarrow> nat \<Rightarrow> 'w list option" where
  "load_words load w dat p = those (map (\<lambda>i. load dat (p + i * w)) [0..<16])"

section \<open>Buffering\<close>

text \<open>
  The compression variables, the message length, and the bytes that do not fill a block yet.  The
  structures \<^verbatim>\<open>RMd2\<close> to \<^verbatim>\<open>RSha512\<close> are instances.
\<close>

record ('d, 'l) md_state =
  md_vars :: 'd
  md_len :: 'l
  md_buffer :: "ruint8 list"
  md_bufsize :: nat

text \<open>
  The loop over the full blocks of the input, and the whole of an update apart from the length.
  \<open>clear\<close> tells whether the buffer is zeroed once it has been used.
\<close>

partial_function (option) md_blocks_loop ::
  "nat \<Rightarrow> (('d, 'l) md_state \<Rightarrow> ruint8 list \<Rightarrow> nat \<Rightarrow> ('d, 'l) md_state option) \<Rightarrow> ('d, 'l) md_state
   \<Rightarrow> ruint8 list \<Rightarrow> nat \<Rightarrow> nat \<Rightarrow> (('d, 'l) md_state \<times> nat \<times> nat) option" where
  "md_blocks_loop bs block md ptr p sz =
     (if sz \<ge> bs then do {
        md \<leftarrow> block md ptr p;
        md_blocks_loop bs block md ptr (p + bs) (sz - bs)
      }
      else Some (md, p, sz))"

declare md_blocks_loop.simps [code]

definition md_update ::
  "bool \<Rightarrow> nat \<Rightarrow> (('d, 'l) md_state \<Rightarrow> ruint8 list \<Rightarrow> nat \<Rightarrow> ('d, 'l) md_state option) \<Rightarrow> ('d, 'l) md_state
   \<Rightarrow> ruint8 list \<Rightarrow> nat \<Rightarrow> ('d, 'l) md_state option" where
  "md_update clear bs block md ptr sz = do {
     (md, p, sz, on) \<leftarrow>
       (if md_bufsize md > 0 then
          let s = bs - md_bufsize md in
          if s \<le> sz then do {
            buf \<leftarrow> memcpy (md_buffer md) (md_bufsize md) ptr 0 s;
            md \<leftarrow> block (md\<lparr>md_buffer := buf, md_bufsize := 0\<rparr>) buf 0;
            buf \<leftarrow> (if clear then memfill (md_buffer md) 0 bs 0 else Some (md_buffer md));
            Some (md\<lparr>md_buffer := buf\<rparr>, s, sz - s, True)
          }
          else do {
            buf \<leftarrow> memcpy (md_buffer md) (md_bufsize md) ptr 0 sz;
            Some (md\<lparr>md_buffer := buf, md_bufsize := md_bufsize md + sz\<rparr>, 0, sz, False)
          }
        else Some (md, 0, sz, True));
     if on then do {
       (md, p, sz) \<leftarrow> md_blocks_loop bs block md ptr p sz;
       let md = md\<lparr>md_bufsize := sz\<rparr>;
       if sz > 0 then do {
         buf \<leftarrow> memcpy (md_buffer md) 0 ptr p sz;
         Some (md\<lparr>md_buffer := buf\<rparr>)
       }
       else Some md
     }
     else Some md
   }"

text \<open>
  Padding: the block that the length is stored in, and whether it is the buffer itself or a fresh
  zeroed block.
\<close>

definition md_final_block ::
  "nat \<Rightarrow> (('d, 'l) md_state \<Rightarrow> ruint8 list \<Rightarrow> nat \<Rightarrow> ('d, 'l) md_state option) \<Rightarrow> ('d, 'l) md_state
   \<Rightarrow> (('d, 'l) md_state \<times> ruint8 list \<times> bool) option" where
  "md_final_block bs block md = do {
     let bufsize = md_bufsize md;
     buf \<leftarrow> store (md_buffer md) bufsize 0x80;
     let bufsize = bufsize + 1;
     if bufsize \<le> bs - 8 then do {
       buf \<leftarrow> memfill buf bufsize (bs - 8 - bufsize) 0;
       Some (md\<lparr>md_buffer := buf\<rparr>, buf, True)
     }
     else do {
       buf \<leftarrow> memfill buf bufsize (bs - bufsize) 0;
       md \<leftarrow> block (md\<lparr>md_buffer := buf\<rparr>) buf 0;
       buf \<leftarrow> memfill (md_buffer md) 0 bs 0;
       Some (md\<lparr>md_buffer := buf\<rparr>, replicate bs 0, False)
     }
   }"

definition md_last_block ::
  "(('d, 'l) md_state \<Rightarrow> ruint8 list \<Rightarrow> nat \<Rightarrow> ('d, 'l) md_state option) \<Rightarrow> ('d, 'l) md_state
   \<Rightarrow> ruint8 list \<Rightarrow> bool \<Rightarrow> ('d, 'l) md_state option" where
  "md_last_block block md ptr own = block (if own then md\<lparr>md_buffer := ptr\<rparr> else md) ptr 0"

section \<open>Blocks of a message\<close>

definition blocks_of :: "nat \<Rightarrow> 'a list \<Rightarrow> 'a list list" where
  "blocks_of bs msg = map (\<lambda>i. take bs (drop (i * bs) msg)) [0..<length msg div bs]"

lemma blocks_of_Nil [simp]: "blocks_of bs [] = []"
  by (simp add: blocks_of_def)

lemma blocks_of_short [simp]: "length msg < bs \<Longrightarrow> blocks_of bs msg = []"
  by (simp add: blocks_of_def)

lemma blocks_of_one:
  assumes "length blk = bs" "0 < bs"
  shows "blocks_of bs blk = [blk]"
  using assms by (simp add: blocks_of_def)

lemma blocks_of_append:
  assumes "bs dvd length a" "0 < bs"
  shows "blocks_of bs (a @ b) = blocks_of bs a @ blocks_of bs b"
proof -
  obtain q where q: "length a = q * bs" using assms(1) by (metis dvdE mult.commute)
  have n: "length (a @ b) div bs = q + length b div bs" using q assms(2) by simp
  have "map (\<lambda>i. take bs (drop (i * bs) (a @ b))) [0..<q] = map (\<lambda>i. take bs (drop (i * bs) a)) [0..<q]"
  proof (rule map_cong [OF refl])
    fix i assume "i \<in> set [0..<q]"
    then have "Suc i \<le> q" by simp
    then have "Suc i * bs \<le> q * bs" by (rule mult_le_mono1)
    then have "bs \<le> length a - i * bs" using q by simp
    then show "take bs (drop (i * bs) (a @ b)) = take bs (drop (i * bs) a)" by simp
  qed
  moreover have "map (\<lambda>i. take bs (drop (i * bs) (a @ b))) [q..<q + length b div bs]
      = map (\<lambda>i. take bs (drop (i * bs) b)) [0..<length b div bs]"
    by (rule nth_equalityI) (simp_all add: q add_mult_distrib)
  ultimately show ?thesis
    using q assms(2) unfolding blocks_of_def n using upt_add_eq_append [of 0 q "length b div bs"] by simp
qed

text \<open>What a digest state holds once it has absorbed a message.\<close>

definition absorbed ::
  "nat \<Rightarrow> ('d \<Rightarrow> ruint8 list \<Rightarrow> 'd) \<Rightarrow> ('d \<Rightarrow> bool) \<Rightarrow> 'd \<Rightarrow> ('d, 'l) md_state \<Rightarrow> ruint8 list \<Rightarrow> bool" where
  "absorbed bs compress ok iv md msg \<longleftrightarrow> length (md_buffer md) = bs \<and> ok (md_vars md) \<and>
     (\<exists>full rest. msg = full @ rest \<and> bs dvd length full \<and> length rest < bs \<and>
       md_vars md = foldl compress iv (blocks_of bs full) \<and>
       md_bufsize md = length rest \<and> take (length rest) (md_buffer md) = rest)"

text \<open>
  The padding of a message of \<open>n\<close> bytes: a byte \<open>0x80\<close>, as few zeros as fill a block together with the
  bytes \<open>lb\<close> of the length, and these.
\<close>

definition md_padding :: "nat \<Rightarrow> nat \<Rightarrow> ruint8 list \<Rightarrow> ruint8 list" where
  "md_padding bs n lb = 0x80 # replicate ((bs - (n + 1 + length lb) mod bs) mod bs) 0 @ lb"


section \<open>The contract of a block function\<close>

text \<open>
  A block function reads one block and replaces the compression variables by their compression with
  it.  \<open>ok\<close> is the invariant of the variables.
\<close>

lemma take_front: "length xs = n \<Longrightarrow> take n (xs @ ys) = xs"
  by simp

locale block_hash =
  fixes bs :: nat
    and block :: "('d, 'l) md_state \<Rightarrow> ruint8 list \<Rightarrow> nat \<Rightarrow> ('d, 'l) md_state option"
    and compress :: "'d \<Rightarrow> ruint8 list \<Rightarrow> 'd"
    and ok :: "'d \<Rightarrow> bool"
  assumes bs_pos: "8 < bs"
    and block_compress: "ok (md_vars md) \<Longrightarrow> p + bs \<le> length mem \<Longrightarrow>
      block md mem p = Some (md\<lparr>md_vars := compress (md_vars md) (take bs (drop p mem))\<rparr>)"
    and ok_compress: "ok d \<Longrightarrow> length blk = bs \<Longrightarrow> ok (compress d blk)"
begin

lemma blocks_cons:
  assumes "length blk = bs"
  shows "blocks_of bs (blk @ msg) = blk # blocks_of bs msg"
  using blocks_of_append [of bs blk msg] blocks_of_one [OF assms] assms bs_pos by simp

lemma block_whole:
  assumes "ok (md_vars md)" "length blk = bs"
  shows "block md blk 0 = Some (md\<lparr>md_vars := compress (md_vars md) blk\<rparr>)"
  using block_compress [OF assms(1), of 0 blk] assms(2) by simp

lemma blocks_loop:
  assumes "ok (md_vars md)" "p + sz \<le> length ptr"
  shows "\<exists>d. md_blocks_loop bs block md ptr p sz = Some (md\<lparr>md_vars := d\<rparr>, p + sz div bs * bs, sz mod bs) \<and>
    d = foldl compress (md_vars md) (blocks_of bs (take (sz div bs * bs) (drop p ptr))) \<and> ok d"
  using assms
proof (induction sz arbitrary: md p rule: less_induct)
  case (less sz)
  show ?case
  proof (cases "sz \<ge> bs")
    case False
    then have "sz div bs = 0" "sz mod bs = sz" by simp_all
    then show ?thesis using False less.prems by (subst md_blocks_loop.simps) simp
  next
    case True
    let ?blk = "take bs (drop p ptr)"
    let ?md = "md\<lparr>md_vars := compress (md_vars md) ?blk\<rparr>"
    have b: "block md ptr p = Some ?md" by (rule block_compress) (use True less.prems in auto)
    have len: "length ?blk = bs" using True less.prems by simp
    have div: "sz div bs = Suc ((sz - bs) div bs)" "sz mod bs = (sz - bs) mod bs"
      using True bs_pos by (simp_all add: le_div_geq le_mod_geq)
    have "sz - bs < sz" using True bs_pos by simp
    from less.IH [OF this, of ?md "p + bs"] obtain d where
      d: "md_blocks_loop bs block ?md ptr (p + bs) (sz - bs)
          = Some (?md\<lparr>md_vars := d\<rparr>, p + bs + (sz - bs) div bs * bs, (sz - bs) mod bs)"
        "d = foldl compress (md_vars ?md) (blocks_of bs (take ((sz - bs) div bs * bs) (drop (p + bs) ptr)))" "ok d"
      using ok_compress [OF less.prems(1) len] True less.prems by auto
    have "take (sz div bs * bs) (drop p ptr) = ?blk @ take ((sz - bs) div bs * bs) (drop (p + bs) ptr)"
      unfolding div(1) by (simp add: take_add add.commute)
    then have "d = foldl compress (md_vars md) (blocks_of bs (take (sz div bs * bs) (drop p ptr)))"
      using d(2) blocks_cons [OF len] by simp
    moreover have "md_blocks_loop bs block md ptr p sz = Some (md\<lparr>md_vars := d\<rparr>, p + sz div bs * bs, sz mod bs)"
      using True b d(1) unfolding div by (subst md_blocks_loop.simps) (simp add: ac_simps)
    ultimately show ?thesis using d(3) by blast
  qed
qed

lemma update_tail:
  assumes md: "length (md_buffer md) = bs" "ok (md_vars md)" "md_vars md = foldl compress iv (blocks_of bs full)" "bs dvd length full"
    and sz: "p + sz \<le> length ptr"
  shows "\<exists>md'. (do {
       (md, p, sz) \<leftarrow> md_blocks_loop bs block md ptr p sz;
       let md = md\<lparr>md_bufsize := sz\<rparr>;
       if sz > 0 then do {
         buf \<leftarrow> memcpy (md_buffer md) 0 ptr p sz;
         Some (md\<lparr>md_buffer := buf\<rparr>)
       }
       else Some md
     }) = Some md' \<and> absorbed bs compress ok iv md' (full @ take sz (drop p ptr)) \<and> md_len md' = md_len md"
proof -
  let ?n = "sz div bs * bs" and ?m = "sz mod bs"
  let ?in = "take ?n (drop p ptr)" and ?rest = "take ?m (drop (p + ?n) ptr)"
  obtain d where d: "md_blocks_loop bs block md ptr p sz = Some (md\<lparr>md_vars := d\<rparr>, p + ?n, ?m)"
    "d = foldl compress (md_vars md) (blocks_of bs ?in)" "ok d"
    using blocks_loop [OF md(2) sz] by blast
  have nm: "?n + ?m = sz" by simp
  then have le: "p + ?n + ?m \<le> length ptr" using sz by (metis add.assoc)
  have pos: "?m < bs" using bs_pos by simp
  have "?m \<le> length (drop (p + ?n) ptr)" unfolding length_drop using le by linarith
  then have rest: "length ?rest = ?m" by (simp only: length_take min_absorb2)
  have split: "take sz (drop p ptr) = ?in @ ?rest"
    using take_add [of ?n ?m "drop p ptr"] nm by (simp add: add.commute)
  have "?n \<le> length (drop p ptr)" unfolding length_drop using le by linarith
  then have "length ?in = ?n" by (simp only: length_take min_absorb2)
  then have dvd: "bs dvd length (full @ ?in)" using md(4) by simp
  have vars: "d = foldl compress iv (blocks_of bs (full @ ?in))"
    using d(2) md(3) blocks_of_append [OF md(4)] bs_pos by simp
  let ?md = "md\<lparr>md_vars := d, md_bufsize := ?m, md_buffer := ?rest @ drop ?m (md_buffer md)\<rparr>"
  have "absorbed bs compress ok iv ?md (full @ take sz (drop p ptr))"
    unfolding absorbed_def
    by (intro conjI exI [of _ "full @ ?in"] exI [of _ ?rest]) (use md(1) d(3) dvd vars pos rest split in auto)
  moreover have "(do {
       (md, p, sz) \<leftarrow> md_blocks_loop bs block md ptr p sz;
       let md = md\<lparr>md_bufsize := sz\<rparr>;
       if sz > 0 then do {
         buf \<leftarrow> memcpy (md_buffer md) 0 ptr p sz;
         Some (md\<lparr>md_buffer := buf\<rparr>)
       }
       else Some md
     }) = Some ?md"
    using d(1) md(1) le pos by (cases "?m = 0") simp_all
  ultimately show ?thesis by (intro exI [of _ ?md]) simp
qed

lemma update_absorbs:
  assumes "absorbed bs compress ok iv md msg" "sz \<le> length ptr"
  shows "\<exists>md'. md_update clear bs block md ptr sz = Some md' \<and> absorbed bs compress ok iv md' (msg @ take sz ptr) \<and> md_len md' = md_len md"
proof -
  obtain full rest where buf: "length (md_buffer md) = bs" and ok: "ok (md_vars md)"
    and msg: "msg = full @ rest" "bs dvd length full" "length rest < bs"
    and vars: "md_vars md = foldl compress iv (blocks_of bs full)"
    and bsz: "md_bufsize md = length rest" "take (length rest) (md_buffer md) = rest"
    using assms(1) unfolding absorbed_def by blast
  consider (empty) "rest = []" | (fill) "rest \<noteq> []" "bs - length rest \<le> sz" | (stay) "rest \<noteq> []" "sz < bs - length rest" by linarith
  then show ?thesis
  proof cases
    case empty
    then show ?thesis
      using update_tail [OF buf ok vars msg(2), of 0 sz ptr] assms(2) bsz msg by (simp add: md_update_def)
  next
    case fill
    let ?s = "bs - length rest"
    let ?blk = "rest @ take ?s ptr"
    have cp: "memcpy (md_buffer md) (md_bufsize md) ptr 0 ?s = Some ?blk" using fill assms(2) buf bsz msg(3) by simp
    have len: "length ?blk = bs" using fill assms(2) msg(3) by simp
    let ?md1 = "md\<lparr>md_buffer := ?blk, md_bufsize := 0\<rparr>"
    have blk: "block ?md1 ?blk 0 = Some (?md1\<lparr>md_vars := compress (md_vars md) ?blk\<rparr>)"
      using block_whole [of ?md1, OF _ len] ok by simp
    let ?md2 = "?md1\<lparr>md_vars := compress (md_vars md) ?blk, md_buffer := (if clear then replicate bs 0 else ?blk)\<rparr>"
    have clr: "(if clear then memfill ?blk 0 bs 0 else Some ?blk) = Some (if clear then replicate bs 0 else ?blk)" using len by simp
    have b2: "length (md_buffer ?md2) = bs" using len by simp
    have ok2: "ok (md_vars ?md2)" using ok_compress [OF ok len] by simp
    have v2: "md_vars ?md2 = foldl compress iv (blocks_of bs (full @ ?blk))"
      using vars blocks_of_append [OF msg(2), of ?blk] blocks_of_one [OF len] bs_pos by simp
    have dv: "bs dvd length (full @ ?blk)" using msg(2) len by simp
    have "?s + (sz - ?s) \<le> length ptr" using fill assms(2) by simp
    from update_tail [OF b2 ok2 v2 dv this] obtain md' where md': "(do {
       (md, p, sz) \<leftarrow> md_blocks_loop bs block ?md2 ptr ?s (sz - ?s);
       let md = md\<lparr>md_bufsize := sz\<rparr>;
       if sz > 0 then do {
         buf \<leftarrow> memcpy (md_buffer md) 0 ptr p sz;
         Some (md\<lparr>md_buffer := buf\<rparr>)
       }
       else Some md
     }) = Some md'" "absorbed bs compress ok iv md' ((full @ ?blk) @ take (sz - ?s) (drop ?s ptr))" "md_len md' = md_len md" by auto
    have "(full @ ?blk) @ take (sz - ?s) (drop ?s ptr) = msg @ take sz ptr"
      using msg(1) fill take_add [of ?s "sz - ?s" ptr] by simp
    moreover have "md_update clear bs block md ptr sz = Some md'"
      using fill bsz cp blk clr md'(1) by (cases clear; cases md) (simp_all add: md_update_def Let_def)
    ultimately show ?thesis using md' by auto
  next
    case stay
    let ?buf = "rest @ take sz ptr @ drop (length rest + sz) (md_buffer md)"
    let ?md = "md\<lparr>md_buffer := ?buf, md_bufsize := length rest + sz\<rparr>"
    have "memcpy (md_buffer md) (md_bufsize md) ptr 0 sz = Some ?buf" using stay assms(2) buf bsz by simp
    then have "md_update clear bs block md ptr sz = Some ?md"
      using stay bsz by (simp add: md_update_def Let_def)
    moreover have "absorbed bs compress ok iv ?md (msg @ take sz ptr)"
      unfolding absorbed_def
      by (intro conjI exI [of _ full] exI [of _ "rest @ take sz ptr"]) (use msg vars ok buf stay assms(2) in auto)
    ultimately show ?thesis by (intro exI [of _ ?md]) simp
  qed
qed

text \<open>The last block, and the one before it when the length does not fit.\<close>

lemma final_block_fits:
  assumes md: "length (md_buffer md) = bs" "md_bufsize md = length rest" "take (length rest) (md_buffer md) = rest"
    and r: "length rest + 1 \<le> bs - 8"
  shows "\<exists>junk. md_final_block bs block md = Some (md\<lparr>md_buffer := rest @ 0x80 # replicate (bs - 8 - (length rest + 1)) 0 @ junk\<rparr>,
      rest @ 0x80 # replicate (bs - 8 - (length rest + 1)) 0 @ junk, True) \<and> length junk = 8"
proof -
  let ?r = "length rest" and ?buf = "(md_buffer md)[length rest := 0x80]"
  have st: "store (md_buffer md) (md_bufsize md) 0x80 = Some ?buf" using md r by simp
  have tk: "take (Suc ?r) ?buf = rest @ [0x80]" using md r by (simp add: take_Suc_conv_app_nth)
  have i: "?r + 1 + (bs - 8 - (?r + 1)) = bs - 8" using r by simp
  have "memfill ?buf (?r + 1) (bs - 8 - (?r + 1)) 0 = Some (take (Suc ?r) ?buf @ replicate (bs - 8 - (?r + 1)) 0 @ drop (bs - 8) ?buf)"
    using memfill_in [of "?r + 1" "bs - 8 - (?r + 1)" ?buf 0] md(1) unfolding i by simp
  then have "md_final_block bs block md = Some (md\<lparr>md_buffer := rest @ 0x80 # replicate (bs - 8 - (?r + 1)) 0 @ drop (bs - 8) ?buf\<rparr>,
      rest @ 0x80 # replicate (bs - 8 - (?r + 1)) 0 @ drop (bs - 8) ?buf, True)"
    using r st md(2) unfolding tk by (simp add: md_final_block_def Let_def)
  then show ?thesis using md(1) bs_pos by (intro exI [of _ "drop (bs - 8) ?buf"]) simp
qed

lemma final_block_spills:
  assumes md: "length (md_buffer md) = bs" "md_bufsize md = length rest" "take (length rest) (md_buffer md) = rest" "ok (md_vars md)"
    and r: "\<not> length rest + 1 \<le> bs - 8" "length rest < bs"
  shows "md_final_block bs block md = Some (md\<lparr>md_vars := compress (md_vars md) (rest @ 0x80 # replicate (bs - (length rest + 1)) 0),
      md_buffer := replicate bs 0\<rparr>, replicate bs 0, False)"
proof -
  let ?r = "length rest" and ?buf = "(md_buffer md)[length rest := 0x80]"
  let ?b = "rest @ 0x80 # replicate (bs - (?r + 1)) 0"
  have st: "store (md_buffer md) (md_bufsize md) 0x80 = Some ?buf" using md r by simp
  have tk: "take (Suc ?r) ?buf = rest @ [0x80]" using md r by (simp add: take_Suc_conv_app_nth)
  have fl: "memfill ?buf (?r + 1) (bs - (?r + 1)) 0 = Some ?b" using md(1) r(2) tk by simp
  have l: "length ?b = bs" using r(2) by simp
  have bl: "block (md\<lparr>md_buffer := ?b\<rparr>) ?b 0 = Some (md\<lparr>md_buffer := ?b, md_vars := compress (md_vars md) ?b\<rparr>)"
    using block_whole [of "md\<lparr>md_buffer := ?b\<rparr>", OF _ l] md(4) by simp
  show ?thesis using r st md(2) fl bl l by (cases md) (simp add: md_final_block_def Let_def)
qed

text \<open>Finishing with an eight byte length field.\<close>

lemma final_block:
  assumes "absorbed bs compress ok iv md msg"
  shows "\<exists>md' ptr own done tail. md_final_block bs block md = Some (md', ptr, own) \<and> md_len md' = md_len md \<and>
    length (md_buffer md') = bs \<and> length ptr = bs \<and> ok (md_vars md') \<and> md_vars md' = foldl compress iv (blocks_of bs done) \<and> bs dvd length done \<and>
    take (bs - 8) ptr = tail \<and> (\<forall>lb. length lb = 8 \<longrightarrow> done @ tail @ lb = msg @ md_padding bs (length msg) lb)"
proof -
  obtain full rest where buf: "length (md_buffer md) = bs" and ok: "ok (md_vars md)"
    and msg: "msg = full @ rest" "bs dvd length full" "length rest < bs"
    and vars: "md_vars md = foldl compress iv (blocks_of bs full)"
    and bsz: "md_bufsize md = length rest" "take (length rest) (md_buffer md) = rest"
    using assms unfolding absorbed_def by blast
  let ?r = "length rest"
  obtain k where "length full = bs * k" using msg(2) by (rule dvdE)
  then have "length msg + 1 + 8 = (?r + 9) + bs * k" using msg(1) by simp
  then have n: "(length msg + 1 + 8) mod bs = (?r + 9) mod bs" by (simp only: mod_mult_self2)
  show ?thesis
  proof (cases "?r + 1 \<le> bs - 8")
    case True
    let ?t = "rest @ 0x80 # replicate (bs - 8 - (?r + 1)) 0"
    obtain junk where f: "md_final_block bs block md = Some (md\<lparr>md_buffer := ?t @ junk\<rparr>, ?t @ junk, True)" "length junk = 8"
      using final_block_fits [OF buf bsz True] by auto
    have k: "(bs - (?r + 9) mod bs) mod bs = bs - 8 - (?r + 1)"
    proof (cases "?r + 9 = bs")
      case False
      then have "?r + 9 < bs" using True bs_pos by linarith
      then show ?thesis by simp
    qed simp
    have lt: "length ?t = bs - 8" using True by simp
    have l: "length (?t @ junk) = bs" using True f(2) bs_pos by simp
    have pad: "full @ ?t @ lb = msg @ md_padding bs (length msg) lb" if lb: "length lb = 8" for lb
      unfolding md_padding_def lb n k using msg(1) by simp
    show ?thesis
      by (rule exI [of _ "md\<lparr>md_buffer := ?t @ junk\<rparr>"], rule exI [of _ "?t @ junk"], rule exI [of _ True], rule exI [of _ full], rule exI [of _ ?t], intro conjI)
        (use f(1) l take_front [OF lt, of junk] ok vars msg(2) pad in auto)
  next
    case False
    let ?b = "rest @ 0x80 # replicate (bs - (?r + 1)) 0"
    have l: "length ?b = bs" using msg(3) by simp
    note f = final_block_spills [OF buf bsz ok False msg(3)]
    have "?r + 9 < 2 * bs" "bs < ?r + 9" using False msg(3) bs_pos by linarith+
    then have k: "(bs - (?r + 9) mod bs) mod bs = (bs - (?r + 1)) + (bs - 8)"
      using msg(3) bs_pos by (simp add: le_mod_geq)
    have v: "compress (md_vars md) ?b = foldl compress iv (blocks_of bs (full @ ?b))"
      using vars blocks_of_append [OF msg(2), of ?b] blocks_of_one [OF l] bs_pos by simp
    have pad: "(full @ ?b) @ replicate (bs - 8) 0 @ lb = msg @ md_padding bs (length msg) lb" if lb: "length lb = 8" for lb
      unfolding md_padding_def lb n k using msg(1) by (simp add: replicate_add)
    let ?md = "md\<lparr>md_vars := compress (md_vars md) ?b, md_buffer := replicate bs 0\<rparr>"
    show ?thesis
      by (rule exI [of _ ?md], rule exI [of _ "replicate bs 0"], rule exI [of _ False],
          rule exI [of _ "full @ ?b"], rule exI [of _ "replicate (bs - 8) 0"], intro conjI)
        (use f l v ok_compress [OF ok l] msg(2) pad in auto)
  qed
qed

lemma final_padded:
  assumes "absorbed bs compress ok iv md msg" "\<And>l. length (lb l) = 8"
  shows "\<exists>md'. (do {
      (md, ptr, own) \<leftarrow> md_final_block bs block md;
      ptr \<leftarrow> memcpy ptr (bs - 8) (lb (md_len md)) 0 8;
      md_last_block block md ptr own
    }) = Some md' \<and> ok (md_vars md') \<and> length (md_buffer md') = bs \<and>
    md_vars md' = foldl compress iv (blocks_of bs (msg @ md_padding bs (length msg) (lb (md_len md))))"
proof -
  obtain md' ptr own "done" tail where f: "md_final_block bs block md = Some (md', ptr, own)" "md_len md' = md_len md"
    "length ptr = bs" "ok (md_vars md')" "md_vars md' = foldl compress iv (blocks_of bs done)" "bs dvd length done"
    "take (bs - 8) ptr = tail" "done @ tail @ lb (md_len md) = msg @ md_padding bs (length msg) (lb (md_len md))"
    "length (md_buffer md') = bs"
    using final_block [OF assms(1)] assms(2) by blast
  let ?blk = "tail @ lb (md_len md)"
  have len: "length ?blk = bs" using f(3,7) assms(2) bs_pos by auto
  have cp: "memcpy ptr (bs - 8) (lb (md_len md)) 0 8 = Some ?blk" using f(3,7) assms(2) bs_pos by simp
  let ?md = "(if own then md'\<lparr>md_buffer := ?blk\<rparr> else md')"
  have "block ?md ?blk 0 = Some (?md\<lparr>md_vars := compress (md_vars md') ?blk\<rparr>)"
    using block_whole [of ?md, OF _ len] f(4) by (auto split: if_splits)
  moreover have "compress (md_vars md') ?blk = foldl compress iv (blocks_of bs (msg @ md_padding bs (length msg) (lb (md_len md))))"
    using f(5) blocks_of_append [OF f(6), of ?blk] blocks_of_one [OF len] bs_pos f(8) by simp
  ultimately show ?thesis
    using f(1,2,9) cp ok_compress [OF f(4) len] len by (auto simp: md_last_block_def)
qed

end

end
