(* ===== verification/RMdSha.thy ===== *)
theory RMdSha
  imports RDigest
begin

text \<open>
  The block functions and the init, update, final and get functions of the fixed-size digests of
  \<^verbatim>\<open>rlib/crypto/rmsgdigest.c\<close>: MD2, MD4, MD5, SHA-1, SHA-224, SHA-256, SHA-384 and SHA-512.  The unrolled
  macro lines of a block function are the rows of a table, taken in the groups in which the roles
  of the variables come round.
\<close>

text \<open>Writing the variables out as bytes, and the checks every get function starts with.\<close>

fun store_words :: "(ruint8 list \<Rightarrow> nat \<Rightarrow> 'w \<Rightarrow> ruint8 list option) \<Rightarrow> nat \<Rightarrow> 'w list \<Rightarrow> nat list \<Rightarrow> ruint8 list \<Rightarrow> ruint8 list option" where
  "store_words put w vars [] dat = Some dat"
| "store_words put w vars (i # is) dat = do {
     dat \<leftarrow> put dat (i * w) (vars ! i);
     store_words put w vars is dat
   }"

definition md_get ::
  "(ruint8 list \<Rightarrow> nat \<Rightarrow> 'w \<Rightarrow> ruint8 list option) \<Rightarrow> nat \<Rightarrow> nat \<Rightarrow> ('w list, 'l) md_state \<Rightarrow> ruint8 list option \<Rightarrow> nat
   \<Rightarrow> (bool \<times> ruint8 list option \<times> nat option) option" where
  "md_get put w size_out md dat sz =
     (case dat of
        None \<Rightarrow> Some (False, dat, None)
      | Some buf \<Rightarrow>
          if sz < size_out then Some (False, dat, None)
          else do {
            buf \<leftarrow> store_words put w (md_vars md) [0..<size_out div w] buf;
            Some (True, Some buf, Some size_out)
          })"

section \<open>MD2\<close>

record md2_vars =
  md2_state :: "ruint8 list"
  md2_checksum :: "ruint8 list"

type_synonym RMd2 = "(md2_vars, unit) md_state"

definition r_md2_sbox :: "ruint8 list" where
  "r_md2_sbox = [
   41, 46, 67, 201, 162, 216, 124, 1, 61, 54, 84, 161, 236, 240, 6, 19,
   98, 167, 5, 243, 192, 199, 115, 140, 152, 147, 43, 217, 188, 76, 130, 202,
   30, 155, 87, 60, 253, 212, 224, 22, 103, 66, 111, 24, 138, 23, 229, 18,
   190, 78, 196, 214, 218, 158, 222, 73, 160, 251, 245, 142, 187, 47, 238, 122,
   169, 104, 121, 145, 21, 178, 7, 63, 148, 194, 16, 137, 11, 34, 95, 33,
   128, 127, 93, 154, 90, 144, 50, 39, 53, 62, 204, 231, 191, 247, 151, 3,
   255, 25, 48, 179, 72, 165, 181, 209, 215, 94, 146, 42, 172, 86, 170, 198,
   79, 184, 56, 210, 150, 164, 125, 182, 118, 252, 107, 226, 156, 116, 4, 241,
   69, 157, 112, 89, 100, 113, 135, 32, 134, 91, 207, 101, 230, 45, 168, 2,
   27, 96, 37, 173, 174, 176, 185, 246, 28, 70, 97, 105, 52, 64, 126, 15,
   85, 71, 163, 35, 221, 81, 175, 58, 195, 92, 249, 206, 186, 197, 234, 38,
   44, 83, 13, 110, 133, 40, 132, 9, 211, 223, 205, 244, 65, 129, 77, 82,
   106, 220, 55, 200, 108, 193, 171, 250, 36, 225, 123, 8, 12, 189, 177, 74,
   120, 136, 149, 139, 227, 99, 232, 109, 233, 203, 213, 254, 59, 0, 29, 57,
   242, 239, 183, 14, 102, 88, 208, 228, 166, 119, 114, 248, 235, 117, 75, 10,
   49, 68, 80, 180, 143, 237, 31, 26, 219, 153, 141, 51, 159, 17, 131, 20]"

definition r_md2_init :: "RMd2 \<Rightarrow> RMd2" where
  "r_md2_init md2 = md2\<lparr>md_vars := \<lparr>md2_state = replicate 16 0, md2_checksum = replicate 16 0\<rparr>, md_bufsize := 0\<rparr>"

text \<open>One pass over the working set, and over the checksum.\<close>

fun md2_pass :: "ruint8 \<Rightarrow> ruint8 list \<Rightarrow> ruint8 \<times> ruint8 list" where
  "md2_pass t [] = (t, [])"
| "md2_pass t (x # xs) =
     (let t = x XOR r_md2_sbox ! unat t; (t', xs) = md2_pass t xs in (t', t # xs))"

fun md2_rounds :: "nat list \<Rightarrow> ruint8 \<Rightarrow> ruint8 list \<Rightarrow> ruint8 list" where
  "md2_rounds [] t x = x"
| "md2_rounds (i # is) t x = (let (t, x) = md2_pass t x in md2_rounds is (t + of_nat i) x)"

fun md2_fold :: "ruint8 \<Rightarrow> ruint8 list \<Rightarrow> ruint8 list \<Rightarrow> ruint8 list" where
  "md2_fold t (c # cs) (b # bs) = (let t = c XOR r_md2_sbox ! unat (b XOR t) in t # md2_fold t cs bs)"
| "md2_fold t _ _ = []"

definition r_md2_update_block :: "RMd2 \<Rightarrow> ruint8 list \<Rightarrow> nat \<Rightarrow> RMd2 option" where
  "r_md2_update_block md2 dat p = do {
     block \<leftarrow> those (map (\<lambda>i. fetch dat (p + i)) [0..<16]);
     let v = md_vars md2;
     let x = md2_state v @ block @ map2 (XOR) (md2_state v) block;
     let x = md2_rounds [0..<18] 0 x;
     Some (md2\<lparr>md_vars := \<lparr>md2_state = take 16 x, md2_checksum = md2_fold (md2_checksum v ! 15) (md2_checksum v) block\<rparr>\<rparr>)
   }"

definition r_md2_update :: "RMd2 option \<Rightarrow> ruint8 list option \<Rightarrow> nat \<Rightarrow> (bool \<times> RMd2 option) option" where
  "r_md2_update md dat sz =
     (case (md, dat) of
        (Some md2, Some ptr) \<Rightarrow> do {
          md2 \<leftarrow> md_update False 16 r_md2_update_block md2 ptr sz;
          Some (True, Some md2)
        }
      | _ \<Rightarrow> Some (False, md))"

definition r_md2_final :: "RMd2 \<Rightarrow> (bool \<times> RMd2) option" where
  "r_md2_final md2 = do {
     let pad = of_nat (16 - md_bufsize md2);
     buf \<leftarrow> memfill (md_buffer md2) (md_bufsize md2) (16 - md_bufsize md2) pad;
     md2 \<leftarrow> r_md2_update_block (md2\<lparr>md_buffer := buf\<rparr>) buf 0;
     let checksum = md2_checksum (md_vars md2);
     md2 \<leftarrow> r_md2_update_block md2 checksum 0;
     Some (True, md2)
   }"

definition r_md2_get :: "RMd2 \<Rightarrow> ruint8 list option \<Rightarrow> nat \<Rightarrow> (bool \<times> ruint8 list option \<times> nat option) option" where
  "r_md2_get md2 dat sz =
     (case dat of
        None \<Rightarrow> Some (False, dat, None)
      | Some buf \<Rightarrow>
          if sz < 16 then Some (False, dat, None)
          else do {
            buf \<leftarrow> memcpy buf 0 (md2_state (md_vars md2)) 0 16;
            Some (True, Some buf, Some 16)
          })"

section \<open>MD4 and MD5\<close>

type_synonym RMd4 = "(ruint32 list, ruint64) md_state"
type_synonym RMd5 = "(ruint32 list, ruint64) md_state"

text \<open>Four macro lines at a time: the variables are updated in the order a, d, c, b.\<close>

fun md_lines ::
  "(ruint32 \<Rightarrow> ruint32 \<Rightarrow> ruint32 \<Rightarrow> ruint32 \<Rightarrow> ruint32 \<Rightarrow> 'p \<Rightarrow> ruint32) \<Rightarrow> ruint32 list \<Rightarrow> (nat \<times> 'p) list
   \<Rightarrow> ruint32 \<times> ruint32 \<times> ruint32 \<times> ruint32 \<Rightarrow> ruint32 \<times> ruint32 \<times> ruint32 \<times> ruint32" where
  "md_lines core x ((k0, p0) # (k1, p1) # (k2, p2) # (k3, p3) # rows) (a, b, c, d) =
     (let a = core a b c d (x ! k0) p0;
          d = core d a b c (x ! k1) p1;
          c = core c d a b (x ! k2) p2;
          b = core b c d a (x ! k3) p3
      in md_lines core x rows (a, b, c, d))"
| "md_lines core x _ s = s"

definition r_md4_init :: "RMd4 \<Rightarrow> RMd4" where
  "r_md4_init md4 = md4\<lparr>md_bufsize := 0, md_len := 0, md_vars := [0x67452301, 0xefcdab89, 0x98badcfe, 0x10325476]\<rparr>"

definition MD4_CORE1 :: "ruint32 \<Rightarrow> ruint32 \<Rightarrow> ruint32 \<Rightarrow> ruint32 \<Rightarrow> ruint32 \<Rightarrow> nat \<Rightarrow> ruint32" where
  "MD4_CORE1 a b c d x s = RUINT32_ROTL (a + (((b AND c) OR (NOT b AND d)) + x)) s"

definition MD4_CORE2 :: "ruint32 \<Rightarrow> ruint32 \<Rightarrow> ruint32 \<Rightarrow> ruint32 \<Rightarrow> ruint32 \<Rightarrow> nat \<Rightarrow> ruint32" where
  "MD4_CORE2 a b c d x s = RUINT32_ROTL (a + (((b AND c) OR (b AND d) OR (c AND d)) + x + 0x5a827999)) s"

definition MD4_CORE3 :: "ruint32 \<Rightarrow> ruint32 \<Rightarrow> ruint32 \<Rightarrow> ruint32 \<Rightarrow> ruint32 \<Rightarrow> nat \<Rightarrow> ruint32" where
  "MD4_CORE3 a b c d x s = RUINT32_ROTL (a + ((b XOR c XOR d) + x + 0x6ed9eba1)) s"

definition md4_rows1 :: "(nat \<times> nat) list" where
  "md4_rows1 = [
   (0, 3), (1, 7), (2, 11), (3, 19), (4, 3), (5, 7), (6, 11), (7, 19),
   (8, 3), (9, 7), (10, 11), (11, 19), (12, 3), (13, 7), (14, 11), (15, 19)]"

definition md4_rows2 :: "(nat \<times> nat) list" where
  "md4_rows2 = [
   (0, 3), (4, 5), (8, 9), (12, 13), (1, 3), (5, 5), (9, 9), (13, 13),
   (2, 3), (6, 5), (10, 9), (14, 13), (3, 3), (7, 5), (11, 9), (15, 13)]"

definition md4_rows3 :: "(nat \<times> nat) list" where
  "md4_rows3 = [
   (0, 3), (8, 9), (4, 11), (12, 15), (2, 3), (10, 9), (6, 11), (14, 15),
   (1, 3), (9, 9), (5, 11), (13, 15), (3, 3), (11, 9), (7, 11), (15, 15)]"

definition r_md4_update_block :: "RMd4 \<Rightarrow> ruint8 list \<Rightarrow> nat \<Rightarrow> RMd4 option" where
  "r_md4_update_block md4 dat p = do {
     x \<leftarrow> load_words r_load_le32 4 dat p;
     let v = md_vars md4;
     let r = md_lines MD4_CORE1 x md4_rows1 (v ! 0, v ! 1, v ! 2, v ! 3);
     let r = md_lines MD4_CORE2 x md4_rows2 r;
     let (a, b, c, d) = md_lines MD4_CORE3 x md4_rows3 r;
     Some (md4\<lparr>md_vars := [v ! 0 + a, v ! 1 + b, v ! 2 + c, v ! 3 + d]\<rparr>)
   }"

definition r_md4_update :: "RMd4 option \<Rightarrow> ruint8 list option \<Rightarrow> nat \<Rightarrow> (bool \<times> RMd4 option) option" where
  "r_md4_update md dat sz =
     (case (md, dat) of
        (Some md4, Some ptr) \<Rightarrow> do {
          md4 \<leftarrow> md_update True 64 r_md4_update_block (md4\<lparr>md_len := md_len md4 + of_nat sz\<rparr>) ptr sz;
          Some (True, Some md4)
        }
      | _ \<Rightarrow> Some (False, md))"

definition r_md4_final :: "RMd4 \<Rightarrow> (bool \<times> RMd4) option" where
  "r_md4_final md4 = do {
     (md4, ptr, own) \<leftarrow> md_final_block 64 r_md4_update_block md4;
     ptr \<leftarrow> r_store_le64 ptr (64 - 8) (push_bit 3 (md_len md4));
     md4 \<leftarrow> md_last_block r_md4_update_block md4 ptr own;
     Some (True, md4)
   }"

definition r_md4_get :: "RMd4 \<Rightarrow> ruint8 list option \<Rightarrow> nat \<Rightarrow> (bool \<times> ruint8 list option \<times> nat option) option" where
  "r_md4_get md4 dat sz = md_get r_store_le32 4 16 md4 dat sz"

definition r_md5_init :: "RMd5 \<Rightarrow> RMd5" where
  "r_md5_init md5 = md5\<lparr>md_bufsize := 0, md_len := 0, md_vars := [0x67452301, 0xefcdab89, 0x98badcfe, 0x10325476]\<rparr>"

text \<open>What the four macros share once the mixing function has been added: rotate, and add b.\<close>

definition md5_turn :: "ruint32 \<Rightarrow> ruint32 \<Rightarrow> nat \<Rightarrow> ruint32" where
  "md5_turn a b s = (push_bit s a OR drop_bit (32 - s) a) + b"

definition MD5_CORE1 :: "ruint32 \<Rightarrow> ruint32 \<Rightarrow> ruint32 \<Rightarrow> ruint32 \<Rightarrow> ruint32 \<Rightarrow> nat \<times> ruint32 \<Rightarrow> ruint32" where
  "MD5_CORE1 a b c d x p = (case p of (s, ac) \<Rightarrow> md5_turn (a + (((b AND c) OR (NOT b AND d)) + x + ac)) b s)"

definition MD5_CORE2 :: "ruint32 \<Rightarrow> ruint32 \<Rightarrow> ruint32 \<Rightarrow> ruint32 \<Rightarrow> ruint32 \<Rightarrow> nat \<times> ruint32 \<Rightarrow> ruint32" where
  "MD5_CORE2 a b c d x p = (case p of (s, ac) \<Rightarrow> md5_turn (a + (((b AND d) OR (c AND NOT d)) + x + ac)) b s)"

definition MD5_CORE3 :: "ruint32 \<Rightarrow> ruint32 \<Rightarrow> ruint32 \<Rightarrow> ruint32 \<Rightarrow> ruint32 \<Rightarrow> nat \<times> ruint32 \<Rightarrow> ruint32" where
  "MD5_CORE3 a b c d x p = (case p of (s, ac) \<Rightarrow> md5_turn (a + ((b XOR c XOR d) + x + ac)) b s)"

definition MD5_CORE4 :: "ruint32 \<Rightarrow> ruint32 \<Rightarrow> ruint32 \<Rightarrow> ruint32 \<Rightarrow> ruint32 \<Rightarrow> nat \<times> ruint32 \<Rightarrow> ruint32" where
  "MD5_CORE4 a b c d x p = (case p of (s, ac) \<Rightarrow> md5_turn (a + ((c XOR (b OR NOT d)) + x + ac)) b s)"

definition md5_rows1 :: "(nat \<times> nat \<times> ruint32) list" where
  "md5_rows1 = [
   (0, 7, 0xd76aa478), (1, 12, 0xe8c7b756), (2, 17, 0x242070db), (3, 22, 0xc1bdceee),
   (4, 7, 0xf57c0faf), (5, 12, 0x4787c62a), (6, 17, 0xa8304613), (7, 22, 0xfd469501),
   (8, 7, 0x698098d8), (9, 12, 0x8b44f7af), (10, 17, 0xffff5bb1), (11, 22, 0x895cd7be),
   (12, 7, 0x6b901122), (13, 12, 0xfd987193), (14, 17, 0xa679438e), (15, 22, 0x49b40821)]"

definition md5_rows2 :: "(nat \<times> nat \<times> ruint32) list" where
  "md5_rows2 = [
   (1, 5, 0xf61e2562), (6, 9, 0xc040b340), (11, 14, 0x265e5a51), (0, 20, 0xe9b6c7aa),
   (5, 5, 0xd62f105d), (10, 9, 0x2441453), (15, 14, 0xd8a1e681), (4, 20, 0xe7d3fbc8),
   (9, 5, 0x21e1cde6), (14, 9, 0xc33707d6), (3, 14, 0xf4d50d87), (8, 20, 0x455a14ed),
   (13, 5, 0xa9e3e905), (2, 9, 0xfcefa3f8), (7, 14, 0x676f02d9), (12, 20, 0x8d2a4c8a)]"

definition md5_rows3 :: "(nat \<times> nat \<times> ruint32) list" where
  "md5_rows3 = [
   (5, 4, 0xfffa3942), (8, 11, 0x8771f681), (11, 16, 0x6d9d6122), (14, 23, 0xfde5380c),
   (1, 4, 0xa4beea44), (4, 11, 0x4bdecfa9), (7, 16, 0xf6bb4b60), (10, 23, 0xbebfbc70),
   (13, 4, 0x289b7ec6), (0, 11, 0xeaa127fa), (3, 16, 0xd4ef3085), (6, 23, 0x4881d05),
   (9, 4, 0xd9d4d039), (12, 11, 0xe6db99e5), (15, 16, 0x1fa27cf8), (2, 23, 0xc4ac5665)]"

definition md5_rows4 :: "(nat \<times> nat \<times> ruint32) list" where
  "md5_rows4 = [
   (0, 6, 0xf4292244), (7, 10, 0x432aff97), (14, 15, 0xab9423a7), (5, 21, 0xfc93a039),
   (12, 6, 0x655b59c3), (3, 10, 0x8f0ccc92), (10, 15, 0xffeff47d), (1, 21, 0x85845dd1),
   (8, 6, 0x6fa87e4f), (15, 10, 0xfe2ce6e0), (6, 15, 0xa3014314), (13, 21, 0x4e0811a1),
   (4, 6, 0xf7537e82), (11, 10, 0xbd3af235), (2, 15, 0x2ad7d2bb), (9, 21, 0xeb86d391)]"

definition r_md5_update_block :: "RMd5 \<Rightarrow> ruint8 list \<Rightarrow> nat \<Rightarrow> RMd5 option" where
  "r_md5_update_block md5 dat p = do {
     x \<leftarrow> load_words r_load_le32 4 dat p;
     let v = md_vars md5;
     let r = md_lines MD5_CORE1 x md5_rows1 (v ! 0, v ! 1, v ! 2, v ! 3);
     let r = md_lines MD5_CORE2 x md5_rows2 r;
     let r = md_lines MD5_CORE3 x md5_rows3 r;
     let (a, b, c, d) = md_lines MD5_CORE4 x md5_rows4 r;
     Some (md5\<lparr>md_vars := [v ! 0 + a, v ! 1 + b, v ! 2 + c, v ! 3 + d]\<rparr>)
   }"

definition r_md5_update :: "RMd5 option \<Rightarrow> ruint8 list option \<Rightarrow> nat \<Rightarrow> (bool \<times> RMd5 option) option" where
  "r_md5_update md dat sz =
     (case (md, dat) of
        (Some md5, Some ptr) \<Rightarrow> do {
          md5 \<leftarrow> md_update True 64 r_md5_update_block (md5\<lparr>md_len := md_len md5 + of_nat sz\<rparr>) ptr sz;
          Some (True, Some md5)
        }
      | _ \<Rightarrow> Some (False, md))"

definition r_md5_final :: "RMd5 \<Rightarrow> (bool \<times> RMd5) option" where
  "r_md5_final md5 = do {
     (md5, ptr, own) \<leftarrow> md_final_block 64 r_md5_update_block md5;
     ptr \<leftarrow> r_store_le64 ptr (64 - 8) (push_bit 3 (md_len md5));
     md5 \<leftarrow> md_last_block r_md5_update_block md5 ptr own;
     Some (True, md5)
   }"

definition r_md5_get :: "RMd5 \<Rightarrow> ruint8 list option \<Rightarrow> nat \<Rightarrow> (bool \<times> ruint8 list option \<times> nat option) option" where
  "r_md5_get md5 dat sz = md_get r_store_le32 4 16 md5 dat sz"


section \<open>SHA-1\<close>

type_synonym RSha1 = "(ruint32 list, ruint64) md_state"

definition r_sha1_init :: "RSha1 \<Rightarrow> RSha1" where
  "r_sha1_init sha1 = sha1\<lparr>md_bufsize := 0, md_len := 0,
     md_vars := [0x67452301, 0xefcdab89, 0x98badcfe, 0x10325476, 0xc3d2e1f0]\<rparr>"

definition SHA1_W :: "ruint32 list \<Rightarrow> nat \<Rightarrow> ruint32 \<times> ruint32 list" where
  "SHA1_W w t =
     (let v = RUINT32_ROTL (w ! ((t - 3) AND 15) XOR w ! ((t - 8) AND 15) XOR w ! ((t - 14) AND 15) XOR w ! (t AND 15)) 1
      in (v, w[t AND 15 := v]))"

text \<open>The last macro argument: a word of the block in the first sixteen lines, then a step of the schedule.\<close>

definition line_word :: "('w list \<Rightarrow> nat \<Rightarrow> 'w \<times> 'w list) \<Rightarrow> 'w list \<Rightarrow> nat \<Rightarrow> 'w \<times> 'w list" where
  "line_word W x t = (if t < 16 then (x ! t, x) else W x t)"

text \<open>The macro updates the variables in the places of e and b.\<close>

definition SHA1_CORE :: "(ruint32 \<Rightarrow> ruint32 \<Rightarrow> ruint32 \<Rightarrow> ruint32) \<Rightarrow> ruint32 \<Rightarrow>
   ruint32 \<Rightarrow> ruint32 \<Rightarrow> ruint32 \<Rightarrow> ruint32 \<Rightarrow> ruint32 \<Rightarrow> ruint32 \<Rightarrow> ruint32 \<times> ruint32" where
  "SHA1_CORE f K a b c d e x = (e + (RUINT32_ROTL a 5 + f b c d + K + x), RUINT32_ROTL b 30)"

fun sha1_lines ::
  "(ruint32 \<Rightarrow> ruint32 \<Rightarrow> ruint32 \<Rightarrow> ruint32 \<Rightarrow> ruint32 \<Rightarrow> ruint32 \<Rightarrow> ruint32 \<times> ruint32) \<Rightarrow> nat list
   \<Rightarrow> ruint32 \<times> ruint32 \<times> ruint32 \<times> ruint32 \<times> ruint32 \<times> ruint32 list
   \<Rightarrow> ruint32 \<times> ruint32 \<times> ruint32 \<times> ruint32 \<times> ruint32 \<times> ruint32 list" where
  "sha1_lines core (t0 # t1 # t2 # t3 # t4 # rows) (a, b, c, d, e, x) =
     (let (w, x) = line_word SHA1_W x t0; (e, b) = core a b c d e w;
          (w, x) = line_word SHA1_W x t1; (d, a) = core e a b c d w;
          (w, x) = line_word SHA1_W x t2; (c, e) = core d e a b c w;
          (w, x) = line_word SHA1_W x t3; (b, d) = core c d e a b w;
          (w, x) = line_word SHA1_W x t4; (a, c) = core b c d e a w
      in sha1_lines core rows (a, b, c, d, e, x))"
| "sha1_lines core _ s = s"

definition r_sha1_update_block :: "RSha1 \<Rightarrow> ruint8 list \<Rightarrow> nat \<Rightarrow> RSha1 option" where
  "r_sha1_update_block sha1 dat p = do {
     x \<leftarrow> load_words r_load_be32 4 dat p;
     let v = md_vars sha1;
     let r = sha1_lines (SHA1_CORE (\<lambda>b c d. d XOR (b AND (c XOR d))) 0x5a827999) [0..<20] (v ! 0, v ! 1, v ! 2, v ! 3, v ! 4, x);
     let r = sha1_lines (SHA1_CORE (\<lambda>b c d. b XOR c XOR d) 0x6ed9eba1) [20..<40] r;
     let r = sha1_lines (SHA1_CORE (\<lambda>b c d. (b AND c) OR (d AND (b OR c))) 0x8f1bbcdc) [40..<60] r;
     let (a, b, c, d, e, x) = sha1_lines (SHA1_CORE (\<lambda>b c d. b XOR c XOR d) 0xca62c1d6) [60..<80] r;
     Some (sha1\<lparr>md_vars := [v ! 0 + a, v ! 1 + b, v ! 2 + c, v ! 3 + d, v ! 4 + e]\<rparr>)
   }"

definition r_sha1_update :: "RSha1 option \<Rightarrow> ruint8 list option \<Rightarrow> nat \<Rightarrow> (bool \<times> RSha1 option) option" where
  "r_sha1_update md dat sz =
     (case (md, dat) of
        (Some sha1, Some ptr) \<Rightarrow> do {
          sha1 \<leftarrow> md_update True 64 r_sha1_update_block (sha1\<lparr>md_len := md_len sha1 + of_nat sz\<rparr>) ptr sz;
          Some (True, Some sha1)
        }
      | _ \<Rightarrow> Some (False, md))"

definition r_sha1_final :: "RSha1 \<Rightarrow> (bool \<times> RSha1) option" where
  "r_sha1_final sha1 = do {
     (sha1, ptr, own) \<leftarrow> md_final_block 64 r_sha1_update_block sha1;
     ptr \<leftarrow> r_store_be64 ptr (64 - 8) (push_bit 3 (md_len sha1));
     sha1 \<leftarrow> md_last_block r_sha1_update_block sha1 ptr own;
     Some (True, sha1)
   }"

definition r_sha1_get :: "RSha1 \<Rightarrow> ruint8 list option \<Rightarrow> nat \<Rightarrow> (bool \<times> ruint8 list option \<times> nat option) option" where
  "r_sha1_get sha1 dat sz = md_get r_store_be32 4 20 sha1 dat sz"

section \<open>SHA-2\<close>

text \<open>
  Eight macro lines at a time, for both word sizes.  The macro updates the variables in the places of
  d and h.
\<close>

fun sha2_lines ::
  "('w \<Rightarrow> 'w \<Rightarrow> 'w \<Rightarrow> 'w \<Rightarrow> 'w \<Rightarrow> 'w \<Rightarrow> 'w \<Rightarrow> 'w \<Rightarrow> 'w \<Rightarrow> 'w \<Rightarrow> 'w \<times> 'w) \<Rightarrow> ('w list \<Rightarrow> nat \<Rightarrow> 'w \<times> 'w list)
   \<Rightarrow> (nat \<times> 'w) list \<Rightarrow> 'w \<times> 'w \<times> 'w \<times> 'w \<times> 'w \<times> 'w \<times> 'w \<times> 'w \<times> 'w list
   \<Rightarrow> 'w \<times> 'w \<times> 'w \<times> 'w \<times> 'w \<times> 'w \<times> 'w \<times> 'w \<times> 'w list" where
  "sha2_lines core W ((t0, k0) # (t1, k1) # (t2, k2) # (t3, k3) # (t4, k4) # (t5, k5) # (t6, k6) # (t7, k7) # rows)
     (a, b, c, d, e, f, g, h, x) =
     (let (w, x) = line_word W x t0; (d, h) = core a b c d e f g h w k0;
          (w, x) = line_word W x t1; (c, g) = core h a b c d e f g w k1;
          (w, x) = line_word W x t2; (b, f) = core g h a b c d e f w k2;
          (w, x) = line_word W x t3; (a, e) = core f g h a b c d e w k3;
          (w, x) = line_word W x t4; (h, d) = core e f g h a b c d w k4;
          (w, x) = line_word W x t5; (g, c) = core d e f g h a b c w k5;
          (w, x) = line_word W x t6; (f, b) = core c d e f g h a b w k6;
          (w, x) = line_word W x t7; (e, a) = core b c d e f g h a w k7
      in sha2_lines core W rows (a, b, c, d, e, f, g, h, x))"
| "sha2_lines core W _ s = s"

type_synonym RSha256 = "(ruint32 list, ruint64) md_state"

definition r_sha224_init :: "RSha256 \<Rightarrow> RSha256" where
  "r_sha224_init sha224 = sha224\<lparr>md_bufsize := 0, md_len := 0,
     md_vars := [0xc1059ed8, 0x367cd507, 0x3070dd17, 0xf70e5939, 0xffc00b31, 0x68581511, 0x64f98fa7, 0xbefa4fa4]\<rparr>"

definition r_sha256_init :: "RSha256 \<Rightarrow> RSha256" where
  "r_sha256_init sha256 = sha256\<lparr>md_bufsize := 0, md_len := 0,
     md_vars := [0x6a09e667, 0xbb67ae85, 0x3c6ef372, 0xa54ff53a, 0x510e527f, 0x9b05688c, 0x1f83d9ab, 0x5be0cd19]\<rparr>"

definition SHA256_SIG0 :: "ruint32 \<Rightarrow> ruint32" where
  "SHA256_SIG0 x = RUINT32_ROTR x 7 XOR RUINT32_ROTR x 18 XOR RUINT32_SHR x 3"

definition SHA256_SIG1 :: "ruint32 \<Rightarrow> ruint32" where
  "SHA256_SIG1 x = RUINT32_ROTR x 17 XOR RUINT32_ROTR x 19 XOR RUINT32_SHR x 10"

definition SHA256_W :: "ruint32 list \<Rightarrow> nat \<Rightarrow> ruint32 \<times> ruint32 list" where
  "SHA256_W x t =
     (let v = SHA256_SIG1 (x ! ((t - 2) AND 15)) + x ! ((t - 7) AND 15) + SHA256_SIG0 (x ! ((t - 15) AND 15)) + x ! (t AND 15)
      in (v, x[t AND 15 := v]))"

definition SHA256_CORE :: "ruint32 \<Rightarrow> ruint32 \<Rightarrow> ruint32 \<Rightarrow> ruint32 \<Rightarrow> ruint32 \<Rightarrow> ruint32 \<Rightarrow> ruint32 \<Rightarrow> ruint32 \<Rightarrow>
   ruint32 \<Rightarrow> ruint32 \<Rightarrow> ruint32 \<times> ruint32" where
  "SHA256_CORE a b c d e f g h x K =
     (let h = h + (RUINT32_ROTR e 6 XOR RUINT32_ROTR e 11 XOR RUINT32_ROTR e 25);
          h = h + ((g XOR (e AND (f XOR g))) + K + x);
          d = d + h;
          h = h + (RUINT32_ROTR a 2 XOR RUINT32_ROTR a 13 XOR RUINT32_ROTR a 22);
          h = h + ((a AND b) OR (c AND (a OR b)))
      in (d, h))"

definition sha256_rows :: "(nat \<times> ruint32) list" where
  "sha256_rows = [
   (0, 0x428a2f98), (1, 0x71374491), (2, 0xb5c0fbcf), (3, 0xe9b5dba5),
   (4, 0x3956c25b), (5, 0x59f111f1), (6, 0x923f82a4), (7, 0xab1c5ed5),
   (8, 0xd807aa98), (9, 0x12835b01), (10, 0x243185be), (11, 0x550c7dc3),
   (12, 0x72be5d74), (13, 0x80deb1fe), (14, 0x9bdc06a7), (15, 0xc19bf174),
   (16, 0xe49b69c1), (17, 0xefbe4786), (18, 0x0fc19dc6), (19, 0x240ca1cc),
   (20, 0x2de92c6f), (21, 0x4a7484aa), (22, 0x5cb0a9dc), (23, 0x76f988da),
   (24, 0x983e5152), (25, 0xa831c66d), (26, 0xb00327c8), (27, 0xbf597fc7),
   (28, 0xc6e00bf3), (29, 0xd5a79147), (30, 0x06ca6351), (31, 0x14292967),
   (32, 0x27b70a85), (33, 0x2e1b2138), (34, 0x4d2c6dfc), (35, 0x53380d13),
   (36, 0x650a7354), (37, 0x766a0abb), (38, 0x81c2c92e), (39, 0x92722c85),
   (40, 0xa2bfe8a1), (41, 0xa81a664b), (42, 0xc24b8b70), (43, 0xc76c51a3),
   (44, 0xd192e819), (45, 0xd6990624), (46, 0xf40e3585), (47, 0x106aa070),
   (48, 0x19a4c116), (49, 0x1e376c08), (50, 0x2748774c), (51, 0x34b0bcb5),
   (52, 0x391c0cb3), (53, 0x4ed8aa4a), (54, 0x5b9cca4f), (55, 0x682e6ff3),
   (56, 0x748f82ee), (57, 0x78a5636f), (58, 0x84c87814), (59, 0x8cc70208),
   (60, 0x90befffa), (61, 0xa4506ceb), (62, 0xbef9a3f7), (63, 0xc67178f2)]"

definition r_sha256_update_block :: "RSha256 \<Rightarrow> ruint8 list \<Rightarrow> nat \<Rightarrow> RSha256 option" where
  "r_sha256_update_block sha256 dat p = do {
     x \<leftarrow> load_words r_load_be32 4 dat p;
     let v = md_vars sha256;
     let (a, b, c, d, e, f, g, h, x) = sha2_lines SHA256_CORE SHA256_W sha256_rows
       (v ! 0, v ! 1, v ! 2, v ! 3, v ! 4, v ! 5, v ! 6, v ! 7, x);
     Some (sha256\<lparr>md_vars := [v ! 0 + a, v ! 1 + b, v ! 2 + c, v ! 3 + d, v ! 4 + e, v ! 5 + f, v ! 6 + g, v ! 7 + h]\<rparr>)
   }"

definition r_sha256_final :: "RSha256 \<Rightarrow> (bool \<times> RSha256) option" where
  "r_sha256_final sha256 = do {
     (sha256, ptr, own) \<leftarrow> md_final_block 64 r_sha256_update_block sha256;
     ptr \<leftarrow> r_store_be64 ptr (64 - 8) (push_bit 3 (md_len sha256));
     sha256 \<leftarrow> md_last_block r_sha256_update_block sha256 ptr own;
     Some (True, sha256)
   }"

definition r_sha256_update :: "RSha256 option \<Rightarrow> ruint8 list option \<Rightarrow> nat \<Rightarrow> (bool \<times> RSha256 option) option" where
  "r_sha256_update md dat sz =
     (case (md, dat) of
        (Some sha256, Some ptr) \<Rightarrow> do {
          sha256 \<leftarrow> md_update True 64 r_sha256_update_block (sha256\<lparr>md_len := md_len sha256 + of_nat sz\<rparr>) ptr sz;
          Some (True, Some sha256)
        }
      | _ \<Rightarrow> Some (False, md))"

definition r_sha224_get :: "RSha256 \<Rightarrow> ruint8 list option \<Rightarrow> nat \<Rightarrow> (bool \<times> ruint8 list option \<times> nat option) option" where
  "r_sha224_get sha224 dat sz = md_get r_store_be32 4 28 sha224 dat sz"

definition r_sha256_get :: "RSha256 \<Rightarrow> ruint8 list option \<Rightarrow> nat \<Rightarrow> (bool \<times> ruint8 list option \<times> nat option) option" where
  "r_sha256_get sha256 dat sz = md_get r_store_be32 4 32 sha256 dat sz"

text \<open>The length of SHA-384 and SHA-512 is a pair of words, the low one first.\<close>

type_synonym RSha512 = "(ruint64 list, ruint64 \<times> ruint64) md_state"

definition r_sha384_init :: "RSha512 \<Rightarrow> RSha512" where
  "r_sha384_init sha384 = sha384\<lparr>md_bufsize := 0, md_len := (0, 0),
     md_vars := [0xcbbb9d5dc1059ed8, 0x629a292a367cd507, 0x9159015a3070dd17, 0x152fecd8f70e5939,
       0x67332667ffc00b31, 0x8eb44a8768581511, 0xdb0c2e0d64f98fa7, 0x47b5481dbefa4fa4]\<rparr>"

definition r_sha512_init :: "RSha512 \<Rightarrow> RSha512" where
  "r_sha512_init sha512 = sha512\<lparr>md_bufsize := 0, md_len := (0, 0),
     md_vars := [0x6a09e667f3bcc908, 0xbb67ae8584caa73b, 0x3c6ef372fe94f82b, 0xa54ff53a5f1d36f1,
       0x510e527fade682d1, 0x9b05688c2b3e6c1f, 0x1f83d9abfb41bd6b, 0x5be0cd19137e2179]\<rparr>"

definition SHA512_SIG0 :: "ruint64 \<Rightarrow> ruint64" where
  "SHA512_SIG0 x = RUINT64_ROTR x 1 XOR RUINT64_ROTR x 8 XOR RUINT64_SHR x 7"

definition SHA512_SIG1 :: "ruint64 \<Rightarrow> ruint64" where
  "SHA512_SIG1 x = RUINT64_ROTR x 19 XOR RUINT64_ROTR x 61 XOR RUINT64_SHR x 6"

definition SHA512_W :: "ruint64 list \<Rightarrow> nat \<Rightarrow> ruint64 \<times> ruint64 list" where
  "SHA512_W x t =
     (let v = SHA512_SIG1 (x ! ((t - 2) AND 15)) + x ! ((t - 7) AND 15) + SHA512_SIG0 (x ! ((t - 15) AND 15)) + x ! (t AND 15)
      in (v, x[t AND 15 := v]))"

definition SHA512_CORE :: "ruint64 \<Rightarrow> ruint64 \<Rightarrow> ruint64 \<Rightarrow> ruint64 \<Rightarrow> ruint64 \<Rightarrow> ruint64 \<Rightarrow> ruint64 \<Rightarrow> ruint64 \<Rightarrow>
   ruint64 \<Rightarrow> ruint64 \<Rightarrow> ruint64 \<times> ruint64" where
  "SHA512_CORE a b c d e f g h x K =
     (let h = h + (RUINT64_ROTR e 14 XOR RUINT64_ROTR e 18 XOR RUINT64_ROTR e 41);
          h = h + ((g XOR (e AND (f XOR g))) + K + x);
          d = d + h;
          h = h + (RUINT64_ROTR a 28 XOR RUINT64_ROTR a 34 XOR RUINT64_ROTR a 39);
          h = h + ((a AND b) OR (c AND (a OR b)))
      in (d, h))"

definition sha512_rows :: "(nat \<times> ruint64) list" where
  "sha512_rows = [
   (0, 0x428a2f98d728ae22), (1, 0x7137449123ef65cd), (2, 0xb5c0fbcfec4d3b2f), (3, 0xe9b5dba58189dbbc),
   (4, 0x3956c25bf348b538), (5, 0x59f111f1b605d019), (6, 0x923f82a4af194f9b), (7, 0xab1c5ed5da6d8118),
   (8, 0xd807aa98a3030242), (9, 0x12835b0145706fbe), (10, 0x243185be4ee4b28c), (11, 0x550c7dc3d5ffb4e2),
   (12, 0x72be5d74f27b896f), (13, 0x80deb1fe3b1696b1), (14, 0x9bdc06a725c71235), (15, 0xc19bf174cf692694),
   (16, 0xe49b69c19ef14ad2), (17, 0xefbe4786384f25e3), (18, 0x0fc19dc68b8cd5b5), (19, 0x240ca1cc77ac9c65),
   (20, 0x2de92c6f592b0275), (21, 0x4a7484aa6ea6e483), (22, 0x5cb0a9dcbd41fbd4), (23, 0x76f988da831153b5),
   (24, 0x983e5152ee66dfab), (25, 0xa831c66d2db43210), (26, 0xb00327c898fb213f), (27, 0xbf597fc7beef0ee4),
   (28, 0xc6e00bf33da88fc2), (29, 0xd5a79147930aa725), (30, 0x06ca6351e003826f), (31, 0x142929670a0e6e70),
   (32, 0x27b70a8546d22ffc), (33, 0x2e1b21385c26c926), (34, 0x4d2c6dfc5ac42aed), (35, 0x53380d139d95b3df),
   (36, 0x650a73548baf63de), (37, 0x766a0abb3c77b2a8), (38, 0x81c2c92e47edaee6), (39, 0x92722c851482353b),
   (40, 0xa2bfe8a14cf10364), (41, 0xa81a664bbc423001), (42, 0xc24b8b70d0f89791), (43, 0xc76c51a30654be30),
   (44, 0xd192e819d6ef5218), (45, 0xd69906245565a910), (46, 0xf40e35855771202a), (47, 0x106aa07032bbd1b8),
   (48, 0x19a4c116b8d2d0c8), (49, 0x1e376c085141ab53), (50, 0x2748774cdf8eeb99), (51, 0x34b0bcb5e19b48a8),
   (52, 0x391c0cb3c5c95a63), (53, 0x4ed8aa4ae3418acb), (54, 0x5b9cca4f7763e373), (55, 0x682e6ff3d6b2b8a3),
   (56, 0x748f82ee5defb2fc), (57, 0x78a5636f43172f60), (58, 0x84c87814a1f0ab72), (59, 0x8cc702081a6439ec),
   (60, 0x90befffa23631e28), (61, 0xa4506cebde82bde9), (62, 0xbef9a3f7b2c67915), (63, 0xc67178f2e372532b),
   (64, 0xca273eceea26619c), (65, 0xd186b8c721c0c207), (66, 0xeada7dd6cde0eb1e), (67, 0xf57d4f7fee6ed178),
   (68, 0x06f067aa72176fba), (69, 0x0a637dc5a2c898a6), (70, 0x113f9804bef90dae), (71, 0x1b710b35131c471b),
   (72, 0x28db77f523047d84), (73, 0x32caab7b40c72493), (74, 0x3c9ebe0a15c9bebc), (75, 0x431d67c49c100d4c),
   (76, 0x4cc5d4becb3e42b6), (77, 0x597f299cfc657e2a), (78, 0x5fcb6fab3ad6faec), (79, 0x6c44198c4a475817)]"

definition r_sha512_update_block :: "RSha512 \<Rightarrow> ruint8 list \<Rightarrow> nat \<Rightarrow> RSha512 option" where
  "r_sha512_update_block sha512 dat p = do {
     x \<leftarrow> load_words r_load_be64 8 dat p;
     let v = md_vars sha512;
     let (a, b, c, d, e, f, g, h, x) = sha2_lines SHA512_CORE SHA512_W sha512_rows
       (v ! 0, v ! 1, v ! 2, v ! 3, v ! 4, v ! 5, v ! 6, v ! 7, x);
     Some (sha512\<lparr>md_vars := [v ! 0 + a, v ! 1 + b, v ! 2 + c, v ! 3 + d, v ! 4 + e, v ! 5 + f, v ! 6 + g, v ! 7 + h]\<rparr>)
   }"

definition r_sha512_final :: "RSha512 \<Rightarrow> (bool \<times> RSha512) option" where
  "r_sha512_final sha512 = do {
     (sha512, ptr, own) \<leftarrow> md_final_block 128 r_sha512_update_block sha512;
     let (len0, len1) = md_len sha512;
     ptr \<leftarrow> r_store_be64 ptr (128 - 1 * 8) (push_bit 3 len0);
     ptr \<leftarrow> r_store_be64 ptr (128 - 2 * 8) (push_bit 3 len1 OR drop_bit 61 len0);
     sha512 \<leftarrow> md_last_block r_sha512_update_block sha512 ptr own;
     Some (True, sha512)
   }"

definition r_sha512_update :: "RSha512 option \<Rightarrow> ruint8 list option \<Rightarrow> nat \<Rightarrow> (bool \<times> RSha512 option) option" where
  "r_sha512_update md dat sz =
     (case (md, dat) of
        (Some sha512, Some ptr) \<Rightarrow> do {
          let (len0, len1) = md_len sha512;
          let len0 = len0 + of_nat sz;
          let len1 = (if len0 < of_nat sz then len1 + 1 else len1);
          sha512 \<leftarrow> md_update True 128 r_sha512_update_block (sha512\<lparr>md_len := (len0, len1)\<rparr>) ptr sz;
          Some (True, Some sha512)
        }
      | _ \<Rightarrow> Some (False, md))"

definition r_sha384_get :: "RSha512 \<Rightarrow> ruint8 list option \<Rightarrow> nat \<Rightarrow> (bool \<times> ruint8 list option \<times> nat option) option" where
  "r_sha384_get sha384 dat sz = md_get r_store_be64 8 48 sha384 dat sz"

definition r_sha512_get :: "RSha512 \<Rightarrow> ruint8 list option \<Rightarrow> nat \<Rightarrow> (bool \<times> ruint8 list option \<times> nat option) option" where
  "r_sha512_get sha512 dat sz = md_get r_store_be64 8 64 sha512 dat sz"

end
