(* ===== verification/RSha.thy ===== *)
theory RSha
  imports RMdSha
begin

text \<open>
  The block functions of SHA-1 and SHA-2 against FIPS 180-4.  The standard computes a schedule of 80 or
  64 words and moves the working variables along by one place in every step; the code keeps the
  last sixteen words in a ring and renames the variables instead.
\<close>

section \<open>The functions of the standard\<close>

definition fips_ch :: "'w :: len word \<Rightarrow> 'w word \<Rightarrow> 'w word \<Rightarrow> 'w word" where
  "fips_ch x y z = (x AND y) XOR (NOT x AND z)"

definition fips_maj :: "'w :: len word \<Rightarrow> 'w word \<Rightarrow> 'w word \<Rightarrow> 'w word" where
  "fips_maj x y z = (x AND y) XOR (x AND z) XOR (y AND z)"

definition fips_parity :: "'w :: len word \<Rightarrow> 'w word \<Rightarrow> 'w word \<Rightarrow> 'w word" where
  "fips_parity x y z = x XOR y XOR z"

text \<open>The words of a block, the most significant byte first.\<close>

definition be_word :: "ruint8 list \<Rightarrow> 'w :: len word" where
  "be_word bytes = foldl (\<lambda>v b. push_bit 8 v OR ucast b) 0 bytes"

definition block_words :: "nat \<Rightarrow> ruint8 list \<Rightarrow> 'w :: len word list" where
  "block_words w blk = map (\<lambda>i. be_word (take w (drop (i * w) blk))) [0..<16]"

fun sha1_schedule :: "ruint32 list \<Rightarrow> nat \<Rightarrow> ruint32" where
  "sha1_schedule M t =
     (if t < 16 then M ! t
      else word_rotl 1 (sha1_schedule M (t - 3) XOR sha1_schedule M (t - 8) XOR sha1_schedule M (t - 14) XOR sha1_schedule M (t - 16)))"

definition sha1_f :: "nat \<Rightarrow> ruint32 \<Rightarrow> ruint32 \<Rightarrow> ruint32 \<Rightarrow> ruint32" where
  "sha1_f t = (if t < 20 then fips_ch else if t < 40 then fips_parity else if t < 60 then fips_maj else fips_parity)"

definition sha1_K :: "nat \<Rightarrow> ruint32" where
  "sha1_K t = (if t < 20 then 0x5a827999 else if t < 40 then 0x6ed9eba1 else if t < 60 then 0x8f1bbcdc else 0xca62c1d6)"

definition sha1_step :: "ruint32 list \<Rightarrow> ruint32 \<times> ruint32 \<times> ruint32 \<times> ruint32 \<times> ruint32 \<Rightarrow> nat
   \<Rightarrow> ruint32 \<times> ruint32 \<times> ruint32 \<times> ruint32 \<times> ruint32" where
  "sha1_step M s t = (case s of (a, b, c, d, e) \<Rightarrow>
     (word_rotl 5 a + sha1_f t b c d + e + sha1_K t + sha1_schedule M t, a, word_rotl 30 b, c, d))"

definition sha1_compress :: "ruint32 list \<Rightarrow> ruint8 list \<Rightarrow> ruint32 list" where
  "sha1_compress v blk =
     (case foldl (sha1_step (block_words 4 blk)) (v ! 0, v ! 1, v ! 2, v ! 3, v ! 4) [0..<80] of
        (a, b, c, d, e) \<Rightarrow> [v ! 0 + a, v ! 1 + b, v ! 2 + c, v ! 3 + d, v ! 4 + e])"

fun sha2_schedule :: "('w :: len word \<Rightarrow> 'w word) \<Rightarrow> ('w word \<Rightarrow> 'w word) \<Rightarrow> 'w word list \<Rightarrow> nat \<Rightarrow> 'w word" where
  "sha2_schedule s0 s1 M t =
     (if t < 16 then M ! t
      else s1 (sha2_schedule s0 s1 M (t - 2)) + sha2_schedule s0 s1 M (t - 7) + s0 (sha2_schedule s0 s1 M (t - 15)) + sha2_schedule s0 s1 M (t - 16))"

definition sha2_step ::
  "('w :: len word \<Rightarrow> 'w word) \<Rightarrow> ('w word \<Rightarrow> 'w word) \<Rightarrow> (nat \<Rightarrow> 'w word) \<Rightarrow> (nat \<Rightarrow> 'w word)
   \<Rightarrow> 'w word \<times> 'w word \<times> 'w word \<times> 'w word \<times> 'w word \<times> 'w word \<times> 'w word \<times> 'w word \<Rightarrow> nat
   \<Rightarrow> 'w word \<times> 'w word \<times> 'w word \<times> 'w word \<times> 'w word \<times> 'w word \<times> 'w word \<times> 'w word" where
  "sha2_step S0 S1 K W s t = (case s of (a, b, c, d, e, f, g, h) \<Rightarrow>
     let T1 = h + S1 e + fips_ch e f g + K t + W t; T2 = S0 a + fips_maj a b c in
     (T1 + T2, a, b, c, d + T1, e, f, g))"

definition sha2_add :: "'w :: len word list \<Rightarrow> 'w word \<times> 'w word \<times> 'w word \<times> 'w word \<times> 'w word \<times> 'w word \<times> 'w word \<times> 'w word \<Rightarrow> 'w word list" where
  "sha2_add v s = (case s of (a, b, c, d, e, f, g, h) \<Rightarrow>
     [v ! 0 + a, v ! 1 + b, v ! 2 + c, v ! 3 + d, v ! 4 + e, v ! 5 + f, v ! 6 + g, v ! 7 + h])"

abbreviation sha2_regs :: "'w list \<Rightarrow> 'w \<times> 'w \<times> 'w \<times> 'w \<times> 'w \<times> 'w \<times> 'w \<times> 'w" where
  "sha2_regs v \<equiv> (v ! 0, v ! 1, v ! 2, v ! 3, v ! 4, v ! 5, v ! 6, v ! 7)"

definition sha256_s0 :: "ruint32 \<Rightarrow> ruint32" where
  "sha256_s0 x = word_rotr 7 x XOR word_rotr 18 x XOR drop_bit 3 x"

definition sha256_s1 :: "ruint32 \<Rightarrow> ruint32" where
  "sha256_s1 x = word_rotr 17 x XOR word_rotr 19 x XOR drop_bit 10 x"

definition sha256_S0 :: "ruint32 \<Rightarrow> ruint32" where
  "sha256_S0 x = word_rotr 2 x XOR word_rotr 13 x XOR word_rotr 22 x"

definition sha256_S1 :: "ruint32 \<Rightarrow> ruint32" where
  "sha256_S1 x = word_rotr 6 x XOR word_rotr 11 x XOR word_rotr 25 x"

text \<open>The round constants, of the rows of the code; they are compared with the cube roots below.\<close>

definition sha256_K :: "ruint32 list" where
  "sha256_K = map snd sha256_rows"

definition sha512_K :: "ruint64 list" where
  "sha512_K = map snd sha512_rows"

definition sha256_compress :: "ruint32 list \<Rightarrow> ruint8 list \<Rightarrow> ruint32 list" where
  "sha256_compress v blk = sha2_add v (foldl
     (sha2_step sha256_S0 sha256_S1 (\<lambda>t. sha256_K ! t) (sha2_schedule sha256_s0 sha256_s1 (block_words 4 blk))) (sha2_regs v) [0..<64])"

definition sha512_s0 :: "ruint64 \<Rightarrow> ruint64" where
  "sha512_s0 x = word_rotr 1 x XOR word_rotr 8 x XOR drop_bit 7 x"

definition sha512_s1 :: "ruint64 \<Rightarrow> ruint64" where
  "sha512_s1 x = word_rotr 19 x XOR word_rotr 61 x XOR drop_bit 6 x"

definition sha512_S0 :: "ruint64 \<Rightarrow> ruint64" where
  "sha512_S0 x = word_rotr 28 x XOR word_rotr 34 x XOR word_rotr 39 x"

definition sha512_S1 :: "ruint64 \<Rightarrow> ruint64" where
  "sha512_S1 x = word_rotr 14 x XOR word_rotr 18 x XOR word_rotr 41 x"

definition sha512_compress :: "ruint64 list \<Rightarrow> ruint8 list \<Rightarrow> ruint64 list" where
  "sha512_compress v blk = sha2_add v (foldl
     (sha2_step sha512_S0 sha512_S1 (\<lambda>t. sha512_K ! t) (sha2_schedule sha512_s0 sha512_s1 (block_words 8 blk))) (sha2_regs v) [0..<80])"

declare sha1_schedule.simps [simp del] sha2_schedule.simps [simp del]

section \<open>Words\<close>

lemma ch_code: "g XOR (e AND (f XOR g)) = fips_ch e f g" for e :: "'w :: len word"
  unfolding fips_ch_def by (rule bit_eqI) (auto simp: bit_simps)

lemma maj_code: "(a AND b) OR (c AND (a OR b)) = fips_maj a b c" for a :: "'w :: len word"
  unfolding fips_maj_def by (rule bit_eqI) (auto simp: bit_simps)

lemma nat_and_mask:
  "n AND 15 = n mod 16" "n AND 31 = n mod 32" "n AND 63 = n mod 64" for n :: nat
proof -
  have m: "(15 :: nat) = mask 4" "(31 :: nat) = mask 5" "(63 :: nat) = mask 6" by (simp_all add: mask_eq_exp_minus_1)
  show "n AND 15 = n mod 16" "n AND 31 = n mod 32" "n AND 63 = n mod 64"
    unfolding m by (simp_all add: take_bit_eq_mask [symmetric] take_bit_eq_mod)
qed

lemma wrap_mod:
  "i < w \<Longrightarrow> n < w \<Longrightarrow> (i + n) mod w = (if i + n < w then i + n else i + n - w)" for i n w :: nat
  by (simp add: le_mod_geq)

lemma rotr_code:
  assumes "0 < n" "n < LENGTH('w)"
  shows "drop_bit n x OR push_bit (LENGTH('w) - n) x = word_rotr n (x :: 'w :: len word)"
proof (rule bit_word_eqI)
  fix i assume i: "i < LENGTH('w)"
  note w = wrap_mod [OF i assms(2)] and l = bit_imp_le_length [of x "i + n"]
  show "bit (drop_bit n x OR push_bit (LENGTH('w) - n) x) i \<longleftrightarrow> bit (word_rotr n x) i"
  proof (cases "i + n < LENGTH('w)")
    case True
    then have "\<not> LENGTH('w) - n \<le> i" by linarith
    then show ?thesis using True i w by (simp add: bit_simps bit_word_rotr_iff add.commute)
  next
    case False
    then have "LENGTH('w) - n \<le> i" "i - (LENGTH('w) - n) = i + n - LENGTH('w)" using assms by linarith+
    then show ?thesis using False i w l by (auto simp: bit_simps bit_word_rotr_iff add.commute)
  qed
qed

lemma rotl_code:
  assumes "0 < n" "n < LENGTH('w)"
  shows "push_bit n x OR drop_bit (LENGTH('w) - n) x = word_rotl n (x :: 'w :: len word)"
proof (rule bit_word_eqI)
  fix i assume i: "i < LENGTH('w)"
  let ?m = "LENGTH('w) - n"
  have "?m < LENGTH('w)" using assms by simp
  note w = wrap_mod [OF i this] and l = bit_imp_le_length [of x "i + ?m"]
  have m: "n mod LENGTH('w) = n" using assms by simp
  show "bit (push_bit n x OR drop_bit ?m x) i \<longleftrightarrow> bit (word_rotl n x) i"
  proof (cases "n \<le> i")
    case True
    then have "\<not> i + ?m < LENGTH('w)" "i + ?m - LENGTH('w) = i - n" using assms by linarith+
    then show ?thesis using True i w l m by (auto simp: bit_simps bit_word_rotl_iff add.commute)
  next
    case False
    then have "i + ?m < LENGTH('w)" using assms by linarith
    then show ?thesis using False i w m by (simp add: bit_simps bit_word_rotl_iff add.commute)
  qed
qed


lemma rot32:
  assumes "0 < n" "n < 32"
  shows "RUINT32_ROTR x n = word_rotr n x" "RUINT32_ROTL x n = word_rotl n x"
  using rotr_code [of n x] rotl_code [of n x] assms
  by (simp_all add: RUINT32_ROTR_def RUINT32_ROTL_def RUINT32_SHL_def RUINT32_SHR_def nat_and_mask)

lemma rot64:
  assumes "0 < n" "n < 64"
  shows "RUINT64_ROTR x n = word_rotr n x"
  using rotr_code [of n x] assms by (simp add: RUINT64_ROTR_def RUINT64_SHL_def RUINT64_SHR_def nat_and_mask)

lemma those_Some: "those (map (\<lambda>i. Some (f i)) xs) = Some (map f xs)"
  by (induction xs) simp_all

lemma load_words_Some:
  assumes "\<And>i. i < 16 \<Longrightarrow> load dat (p + i * w) = Some (f i)"
  shows "load_words load w dat p = Some (map f [0..<16])"
proof -
  have "map (\<lambda>i. load dat (p + i * w)) [0..<16] = map (\<lambda>i. Some (f i)) [0..<16]"
    by (rule map_cong [OF refl]) (use assms in simp)
  then show ?thesis by (simp only: load_words_def those_Some)
qed

lemma take_nths4:
  assumes "i + 3 < length xs"
  shows "take 4 (drop i xs) = [xs ! i, xs ! (i + 1), xs ! (i + 2), xs ! (i + 3)]"
  by (rule nth_equalityI) (use assms in \<open>auto simp: nth_Cons numeral_eq_Suc less_Suc_eq split: nat.splits\<close>)

lemma take_nths8:
  assumes "i + 7 < length xs"
  shows "take 8 (drop i xs) = [xs ! i, xs ! (i + 1), xs ! (i + 2), xs ! (i + 3), xs ! (i + 4), xs ! (i + 5), xs ! (i + 6), xs ! (i + 7)]"
  by (rule nth_equalityI) (use assms in \<open>auto simp: nth_Cons numeral_eq_Suc less_Suc_eq split: nat.splits\<close>)

lemma r_load_be32_word:
  assumes "i + 3 < length p"
  shows "r_load_be32 p i = Some (be_word (take 4 (drop i p)))"
  unfolding take_nths4 [OF assms] using assms
  by (simp add: r_load_be32_def be_word_def push_bit_or push_bit_push_bit or.assoc)

lemma r_load_be64_word:
  assumes "i + 7 < length p"
  shows "r_load_be64 p i = Some (be_word (take 8 (drop i p)))"
  unfolding take_nths8 [OF assms] using assms
  by (simp add: r_load_be64_def be_word_def push_bit_or push_bit_push_bit or.assoc)

lemma load_be_blocks:
  "p + 64 \<le> length mem \<Longrightarrow> load_words r_load_be32 4 mem p = Some (block_words 4 (take 64 (drop p mem)))"
  "p + 128 \<le> length mem \<Longrightarrow> load_words r_load_be64 8 mem p = Some (block_words 8 (take 128 (drop p mem)))"
proof -
  show "load_words r_load_be32 4 mem p = Some (block_words 4 (take 64 (drop p mem)))" if l: "p + 64 \<le> length mem"
    unfolding block_words_def
  proof (rule load_words_Some)
    fix i :: nat assume i: "i < 16"
    then have "take 4 (drop (i * 4) (take 64 (drop p mem))) = take 4 (drop (p + i * 4) mem)"
      by (simp add: drop_take add.commute)
    then show "r_load_be32 mem (p + i * 4) = Some (be_word (take 4 (drop (i * 4) (take 64 (drop p mem)))))"
      using r_load_be32_word [of "p + i * 4" mem] i l by simp
  qed
  show "load_words r_load_be64 8 mem p = Some (block_words 8 (take 128 (drop p mem)))" if l: "p + 128 \<le> length mem"
    unfolding block_words_def
  proof (rule load_words_Some)
    fix i :: nat assume i: "i < 16"
    then have "take 8 (drop (i * 8) (take 128 (drop p mem))) = take 8 (drop (p + i * 8) mem)"
      by (simp add: drop_take add.commute)
    then show "r_load_be64 mem (p + i * 8) = Some (be_word (take 8 (drop (i * 8) (take 128 (drop p mem)))))"
      using r_load_be64_word [of "p + i * 8" mem] i l by simp
  qed
qed

lemma length_block_words [simp]: "length (block_words w blk) = 16"
  by (simp add: block_words_def)

section \<open>The ring of schedule words\<close>

text \<open>After \<open>t\<close> lines the ring holds the last sixteen words of the schedule \<open>s\<close>.\<close>

definition ring_holds :: "(nat \<Rightarrow> 'w) \<Rightarrow> nat \<Rightarrow> 'w list \<Rightarrow> bool" where
  "ring_holds s t x \<longleftrightarrow> length x = 16 \<and> (\<forall>i. i < max t 16 \<and> max t 16 \<le> i + 16 \<longrightarrow> x ! (i mod 16) = s i)"

lemma mod16_neq: "i < t \<Longrightarrow> t < i + 16 \<Longrightarrow> i mod 16 \<noteq> t mod 16" for i t :: nat
proof
  assume "i < t" "t < i + 16" "i mod 16 = t mod 16"
  then have "16 dvd t - i" using mod_eq_dvd_iff_nat [of i t 16] by simp
  then have "16 \<le> t - i" using \<open>i < t\<close> by (intro dvd_imp_le) simp_all
  with \<open>t < i + 16\<close> show False by linarith
qed

text \<open>What a schedule macro promises: in line \<open>t\<close> it replaces the oldest word by the next one.\<close>

locale schedule_ring =
  fixes W :: "'w list \<Rightarrow> nat \<Rightarrow> 'w \<times> 'w list"
    and s :: "nat \<Rightarrow> 'w"
  assumes W_next: "16 \<le> t \<Longrightarrow> length x = 16 \<Longrightarrow> (\<And>i. i < t \<Longrightarrow> t \<le> i + 16 \<Longrightarrow> x ! (i mod 16) = s i) \<Longrightarrow>
      W x t = (s t, x[t mod 16 := s t])"
begin

lemma ring_line:
  assumes "ring_holds s t x"
  obtains x' where "line_word W x t = (s t, x')" "ring_holds s (Suc t) x'"
proof (cases "t < 16")
  case True
  then have m: "max t 16 = 16" "max (Suc t) 16 = 16" by simp_all
  have "x ! t = s t" using assms True unfolding ring_holds_def m by (metis mod_less le_add2)
  then show ?thesis using that [of x] True assms by (simp add: line_word_def ring_holds_def m)
next
  case False
  then have m: "max t 16 = t" "max (Suc t) 16 = Suc t" by simp_all
  have x: "length x = 16" "\<And>i. i < t \<Longrightarrow> t \<le> i + 16 \<Longrightarrow> x ! (i mod 16) = s i"
    using assms unfolding ring_holds_def m by auto
  have "W x t = (s t, x[t mod 16 := s t])" by (rule W_next) (use False x in auto)
  moreover have "ring_holds s (Suc t) (x[t mod 16 := s t])"
    unfolding ring_holds_def m
  proof (intro conjI allI impI)
    fix i assume i: "i < Suc t \<and> Suc t \<le> i + 16"
    show "x[t mod 16 := s t] ! (i mod 16) = s i"
    proof (cases "i = t")
      case True
      then show ?thesis using x(1) by simp
    next
      case False
      then have "i < t" "t < i + 16" using i by linarith+
      then show ?thesis using mod16_neq [of i t] x(2) [of i] by simp
    qed
  qed (use x in simp)
  ultimately show ?thesis using that [of "x[t mod 16 := s t]"] False by (simp add: line_word_def)
qed

end

lemma ring_start: "length M = 16 \<Longrightarrow> (\<And>t. t < 16 \<Longrightarrow> s t = M ! t) \<Longrightarrow> ring_holds s 0 M"
  by (simp add: ring_holds_def)

section \<open>The lines of SHA-2\<close>

text \<open>A macro that updates two variables in place is a step of the standard, up to the names.\<close>

locale sha2_macro = schedule_ring W s
  for W :: "'w :: len word list \<Rightarrow> nat \<Rightarrow> 'w word \<times> 'w word list" and s :: "nat \<Rightarrow> 'w word" +
  fixes core :: "'w word \<Rightarrow> 'w word \<Rightarrow> 'w word \<Rightarrow> 'w word \<Rightarrow> 'w word \<Rightarrow> 'w word \<Rightarrow> 'w word \<Rightarrow> 'w word \<Rightarrow> 'w word \<Rightarrow> 'w word \<Rightarrow> 'w word \<times> 'w word"
    and S0 S1 :: "'w word \<Rightarrow> 'w word"
  assumes core_step: "core a b c d e f g h w k =
      (d + (h + S1 e + fips_ch e f g + k + w), (h + S1 e + fips_ch e f g + k + w) + (S0 a + fips_maj a b c))"
begin

lemma line_step:
  assumes "core a b c d e f g h (s t) (K t) = (d', h')"
  shows "sha2_step S0 S1 K s (a, b, c, d, e, f, g, h) t = (h', a, b, c, d', e, f, g)"
  using assms by (simp add: sha2_step_def core_step Let_def)

lemma octet:
  assumes r: "ring_holds s t x"
  obtains a' b' c' d' e' f' g' h' x' where
    "foldl (sha2_step S0 S1 K s) (a, b, c, d, e, f, g, h) [t..<t + 8] = (a', b', c', d', e', f', g', h')"
    "\<And>rows. sha2_lines core W (map (\<lambda>t. (t, K t)) [t..<t + 8] @ rows) (a, b, c, d, e, f, g, h, x)
      = sha2_lines core W rows (a', b', c', d', e', f', g', h', x')"
    "ring_holds s (t + 8) x'"
proof -
  obtain x1 where x1: "line_word W x t = (s t, x1)" "ring_holds s (Suc t) x1" using ring_line [OF r] .
  obtain x2 where x2: "line_word W x1 (Suc t) = (s (Suc t), x2)" "ring_holds s (Suc (Suc t)) x2" using ring_line [OF x1(2)] .
  obtain x3 where x3: "line_word W x2 (Suc (Suc t)) = (s (Suc (Suc t)), x3)" "ring_holds s (t + 3) x3" using ring_line [OF x2(2)] by (auto simp: numeral_eq_Suc)
  obtain x4 where x4: "line_word W x3 (t + 3) = (s (t + 3), x4)" "ring_holds s (t + 4) x4" using ring_line [OF x3(2)] by (auto simp: numeral_eq_Suc)
  obtain x5 where x5: "line_word W x4 (t + 4) = (s (t + 4), x5)" "ring_holds s (t + 5) x5" using ring_line [OF x4(2)] by (auto simp: numeral_eq_Suc)
  obtain x6 where x6: "line_word W x5 (t + 5) = (s (t + 5), x6)" "ring_holds s (t + 6) x6" using ring_line [OF x5(2)] by (auto simp: numeral_eq_Suc)
  obtain x7 where x7: "line_word W x6 (t + 6) = (s (t + 6), x7)" "ring_holds s (t + 7) x7" using ring_line [OF x6(2)] by (auto simp: numeral_eq_Suc)
  obtain x8 where x8: "line_word W x7 (t + 7) = (s (t + 7), x8)" "ring_holds s (t + 8) x8" using ring_line [OF x7(2)] by (auto simp: numeral_eq_Suc)
  obtain d1 h1 where 1: "core a b c d e f g h (s t) (K t) = (d1, h1)" by (metis surj_pair)
  obtain c1 g1 where 2: "core h1 a b c d1 e f g (s (Suc t)) (K (Suc t)) = (c1, g1)" by (metis surj_pair)
  obtain b1 f1 where 3: "core g1 h1 a b c1 d1 e f (s (Suc (Suc t))) (K (Suc (Suc t))) = (b1, f1)" by (metis surj_pair)
  obtain a1 e1 where 4: "core f1 g1 h1 a b1 c1 d1 e (s (t + 3)) (K (t + 3)) = (a1, e1)" by (metis surj_pair)
  obtain h2 d2 where 5: "core e1 f1 g1 h1 a1 b1 c1 d1 (s (t + 4)) (K (t + 4)) = (h2, d2)" by (metis surj_pair)
  obtain g2 c2 where 6: "core d2 e1 f1 g1 h2 a1 b1 c1 (s (t + 5)) (K (t + 5)) = (g2, c2)" by (metis surj_pair)
  obtain f2 b2 where 7: "core c2 d2 e1 f1 g2 h2 a1 b1 (s (t + 6)) (K (t + 6)) = (f2, b2)" by (metis surj_pair)
  obtain e2 a2 where 8: "core b2 c2 d2 e1 f2 g2 h2 a1 (s (t + 7)) (K (t + 7)) = (e2, a2)" by (metis surj_pair)
  have u: "[t..<t + 8] = [t, Suc t, Suc (Suc t), t + 3, t + 4, t + 5, t + 6, t + 7]" by (simp add: upt_conv_Cons numeral_eq_Suc)
  show ?thesis
  proof (rule that [of a2 b2 c2 d2 e2 f2 g2 h2 x8])
    show "foldl (sha2_step S0 S1 K s) (a, b, c, d, e, f, g, h) [t..<t + 8] = (a2, b2, c2, d2, e2, f2, g2, h2)"
      unfolding u by (simp add: line_step [where K = K, OF 1] line_step [where K = K, OF 2] line_step [where K = K, OF 3]
          line_step [where K = K, OF 4] line_step [where K = K, OF 5] line_step [where K = K, OF 6]
          line_step [where K = K, OF 7] line_step [where K = K, OF 8])
    show "sha2_lines core W (map (\<lambda>t. (t, K t)) [t..<t + 8] @ rows) (a, b, c, d, e, f, g, h, x)
      = sha2_lines core W rows (a2, b2, c2, d2, e2, f2, g2, h2, x8)" for rows
      unfolding u by (simp add: x1 x2 x3 x4 x5 x6 x7 x8 1 2 3 4 5 6 7 8)
    show "ring_holds s (t + 8) x8" by (rule x8(2))
  qed
qed

lemma lines_steps:
  assumes "ring_holds s t x" "foldl (sha2_step S0 S1 K s) (a, b, c, d, e, f, g, h) [t..<t + 8 * n] = (a', b', c', d', e', f', g', h')"
  shows "\<exists>x'. sha2_lines core W (map (\<lambda>t. (t, K t)) [t..<t + 8 * n]) (a, b, c, d, e, f, g, h, x) = (a', b', c', d', e', f', g', h', x')"
  using assms
proof (induction n arbitrary: t x a b c d e f g h)
  case 0
  then show ?case by simp
next
  case (Suc n)
  obtain a1 b1 c1 d1 e1 f1 g1 h1 x1 where o:
    "foldl (sha2_step S0 S1 K s) (a, b, c, d, e, f, g, h) [t..<t + 8] = (a1, b1, c1, d1, e1, f1, g1, h1)"
    "\<And>rows. sha2_lines core W (map (\<lambda>t. (t, K t)) [t..<t + 8] @ rows) (a, b, c, d, e, f, g, h, x)
      = sha2_lines core W rows (a1, b1, c1, d1, e1, f1, g1, h1, x1)"
    "ring_holds s (t + 8) x1"
    using octet [OF Suc.prems(1), of K a b c d e f g h] by blast
  have u: "[t..<t + 8 * Suc n] = [t..<t + 8] @ [t + 8..<t + 8 + 8 * n]"
    using upt_add_eq_append [of t "t + 8" "8 * n"] by (simp add: add.assoc)
  have "foldl (sha2_step S0 S1 K s) (a1, b1, c1, d1, e1, f1, g1, h1) [t + 8..<t + 8 + 8 * n] = (a', b', c', d', e', f', g', h')"
    using Suc.prems(2) unfolding u foldl_append o(1) .
  from Suc.IH [OF o(3) this] show ?case unfolding u map_append o(2) .
qed

end

lemma zip_upt: "length K = n \<Longrightarrow> zip [0..<n] K = map (\<lambda>t. (t, K ! t)) [0..<n]"
  by (rule nth_equalityI) simp_all

lemma length_sha2_K: "length sha256_K = 64" "length sha512_K = 80"
  by (simp_all add: sha256_K_def sha512_K_def sha256_rows_def sha512_rows_def)

lemma sha2_rows: "sha256_rows = zip [0..<64] sha256_K" "sha512_rows = zip [0..<80] sha512_K"
proof -
  have "map fst sha256_rows = [0..<64]" "map fst sha512_rows = [0..<80]" by code_simp+
  then show "sha256_rows = zip [0..<64] sha256_K" "sha512_rows = zip [0..<80] sha512_K"
    unfolding sha256_K_def sha512_K_def using zip_map_fst_snd [of sha256_rows] zip_map_fst_snd [of sha512_rows] by simp_all
qed

lemma sha2_schedule_start: "t < 16 \<Longrightarrow> sha2_schedule s0 s1 M t = M ! t"
  by (simp add: sha2_schedule.simps)

lemma sha256_sigmas: "SHA256_SIG0 x = sha256_s0 x" "SHA256_SIG1 x = sha256_s1 x"
  by (simp_all add: SHA256_SIG0_def SHA256_SIG1_def sha256_s0_def sha256_s1_def rot32 RUINT32_SHR_def nat_and_mask)

lemma sha512_sigmas: "SHA512_SIG0 x = sha512_s0 x" "SHA512_SIG1 x = sha512_s1 x"
  by (simp_all add: SHA512_SIG0_def SHA512_SIG1_def sha512_s0_def sha512_s1_def rot64 RUINT64_SHR_def nat_and_mask)

lemma ring_words:
  assumes "16 \<le> t" "\<And>i. i < t \<Longrightarrow> t \<le> i + 16 \<Longrightarrow> x ! (i mod 16) = s i" "0 < k" "k \<le> 16"
  shows "x ! ((t - k) mod 16) = s (t - k)" and "x ! (t mod 16) = s (t - 16)"
  using assms(2) [of "t - k"] assms(2) [of "t - 16"] assms(1,3,4) by (simp_all add: le_mod_geq)

interpretation sha256: sha2_macro SHA256_W "sha2_schedule sha256_s0 sha256_s1 M" SHA256_CORE sha256_S0 sha256_S1
  for M
proof
  fix t :: nat and x :: "ruint32 list"
  assume t: "16 \<le> t" and x: "\<And>i. i < t \<Longrightarrow> t \<le> i + 16 \<Longrightarrow> x ! (i mod 16) = sha2_schedule sha256_s0 sha256_s1 M i"
  note w = ring_words [where s = "sha2_schedule sha256_s0 sha256_s1 M", OF t x]
  show "SHA256_W x t = (sha2_schedule sha256_s0 sha256_s1 M t, x[t mod 16 := sha2_schedule sha256_s0 sha256_s1 M t])"
    using t w(1) [of 2] w(1) [of 7] w(1) [of 15] w(2) [of 1]
    by (simp add: SHA256_W_def Let_def nat_and_mask sha256_sigmas sha2_schedule.simps [of _ _ _ t])
next
  show "SHA256_CORE a b c d e f g h w k = (d + (h + sha256_S1 e + fips_ch e f g + k + w),
      (h + sha256_S1 e + fips_ch e f g + k + w) + (sha256_S0 a + fips_maj a b c))" for a b c d e f g h w k
    by (simp add: SHA256_CORE_def Let_def ch_code maj_code sha256_S0_def sha256_S1_def rot32 add_ac)
qed

interpretation sha512: sha2_macro SHA512_W "sha2_schedule sha512_s0 sha512_s1 M" SHA512_CORE sha512_S0 sha512_S1
  for M
proof
  fix t :: nat and x :: "ruint64 list"
  assume t: "16 \<le> t" and x: "\<And>i. i < t \<Longrightarrow> t \<le> i + 16 \<Longrightarrow> x ! (i mod 16) = sha2_schedule sha512_s0 sha512_s1 M i"
  note w = ring_words [where s = "sha2_schedule sha512_s0 sha512_s1 M", OF t x]
  show "SHA512_W x t = (sha2_schedule sha512_s0 sha512_s1 M t, x[t mod 16 := sha2_schedule sha512_s0 sha512_s1 M t])"
    using t w(1) [of 2] w(1) [of 7] w(1) [of 15] w(2) [of 1]
    by (simp add: SHA512_W_def Let_def nat_and_mask sha512_sigmas sha2_schedule.simps [of _ _ _ t])
next
  show "SHA512_CORE a b c d e f g h w k = (d + (h + sha512_S1 e + fips_ch e f g + k + w),
      (h + sha512_S1 e + fips_ch e f g + k + w) + (sha512_S0 a + fips_maj a b c))" for a b c d e f g h w k
    by (simp add: SHA512_CORE_def Let_def ch_code maj_code sha512_S0_def sha512_S1_def rot64 add_ac)
qed

lemma r_sha256_update_block_compress:
  assumes "p + 64 \<le> length mem"
  shows "r_sha256_update_block md mem p = Some (md\<lparr>md_vars := sha256_compress (md_vars md) (take 64 (drop p mem))\<rparr>)"
proof -
  let ?M = "block_words 4 (take 64 (drop p mem)) :: ruint32 list" and ?v = "md_vars md"
  let ?s = "sha2_schedule sha256_s0 sha256_s1 ?M"
  obtain a b c d e f g h where r: "foldl (sha2_step sha256_S0 sha256_S1 (\<lambda>t. sha256_K ! t) ?s) (sha2_regs ?v) [0..<0 + 8 * 8] = (a, b, c, d, e, f, g, h)"
    by (metis surj_pair)
  have "ring_holds ?s 0 ?M" by (rule ring_start) (simp_all add: sha2_schedule_start)
  from sha256.lines_steps [OF this r] obtain x where
    "sha2_lines SHA256_CORE SHA256_W sha256_rows (?v ! 0, ?v ! 1, ?v ! 2, ?v ! 3, ?v ! 4, ?v ! 5, ?v ! 6, ?v ! 7, ?M) = (a, b, c, d, e, f, g, h, x)"
    unfolding sha2_rows(1) zip_upt [OF length_sha2_K(1)] by auto
  then show ?thesis using r load_be_blocks(1) [OF assms]
    by (simp add: r_sha256_update_block_def Let_def sha256_compress_def sha2_add_def)
qed

lemma r_sha512_update_block_compress:
  assumes "p + 128 \<le> length mem"
  shows "r_sha512_update_block md mem p = Some (md\<lparr>md_vars := sha512_compress (md_vars md) (take 128 (drop p mem))\<rparr>)"
proof -
  let ?M = "block_words 8 (take 128 (drop p mem)) :: ruint64 list" and ?v = "md_vars md"
  let ?s = "sha2_schedule sha512_s0 sha512_s1 ?M"
  obtain a b c d e f g h where r: "foldl (sha2_step sha512_S0 sha512_S1 (\<lambda>t. sha512_K ! t) ?s) (sha2_regs ?v) [0..<0 + 8 * 10] = (a, b, c, d, e, f, g, h)"
    by (metis surj_pair)
  have "ring_holds ?s 0 ?M" by (rule ring_start) (simp_all add: sha2_schedule_start)
  from sha512.lines_steps [OF this r] obtain x where
    "sha2_lines SHA512_CORE SHA512_W sha512_rows (?v ! 0, ?v ! 1, ?v ! 2, ?v ! 3, ?v ! 4, ?v ! 5, ?v ! 6, ?v ! 7, ?M) = (a, b, c, d, e, f, g, h, x)"
    unfolding sha2_rows(2) zip_upt [OF length_sha2_K(2)] by auto
  then show ?thesis using r load_be_blocks(2) [OF assms]
    by (simp add: r_sha512_update_block_def Let_def sha512_compress_def sha2_add_def)
qed

section \<open>The lines of SHA-1\<close>

interpretation sha1: schedule_ring SHA1_W "sha1_schedule M"
  for M
proof
  fix t :: nat and x :: "ruint32 list"
  assume t: "16 \<le> t" and x: "\<And>i. i < t \<Longrightarrow> t \<le> i + 16 \<Longrightarrow> x ! (i mod 16) = sha1_schedule M i"
  note w = ring_words [where s = "sha1_schedule M", OF t x]
  show "SHA1_W x t = (sha1_schedule M t, x[t mod 16 := sha1_schedule M t])"
    using t w(1) [of 3] w(1) [of 8] w(1) [of 14] w(2) [of 1]
    by (simp add: SHA1_W_def Let_def nat_and_mask rot32 sha1_schedule.simps [of _ t])
qed

lemma sha1_line:
  assumes "SHA1_CORE f K a b c d e (sha1_schedule M t) = (e', b')" "sha1_f t = f" "sha1_K t = K"
  shows "sha1_step M (a, b, c, d, e) t = (e', a, b', c, d)"
  using assms by (simp add: SHA1_CORE_def sha1_step_def rot32 add_ac)

lemma sha1_quint:
  assumes r: "ring_holds (sha1_schedule M) t x" and f: "\<And>i. t \<le> i \<Longrightarrow> i < t + 5 \<Longrightarrow> sha1_f i = f \<and> sha1_K i = K"
  obtains a' b' c' d' e' x' where
    "foldl (sha1_step M) (a, b, c, d, e) [t..<t + 5] = (a', b', c', d', e')"
    "\<And>rows. sha1_lines (SHA1_CORE f K) ([t..<t + 5] @ rows) (a, b, c, d, e, x) = sha1_lines (SHA1_CORE f K) rows (a', b', c', d', e', x')"
    "ring_holds (sha1_schedule M) (t + 5) x'"
proof -
  let ?s = "sha1_schedule M" and ?core = "SHA1_CORE f K"
  obtain x1 where x1: "line_word SHA1_W x t = (?s t, x1)" "ring_holds ?s (Suc t) x1" using sha1.ring_line [OF r] .
  obtain x2 where x2: "line_word SHA1_W x1 (Suc t) = (?s (Suc t), x2)" "ring_holds ?s (Suc (Suc t)) x2" using sha1.ring_line [OF x1(2)] .
  obtain x3 where x3: "line_word SHA1_W x2 (Suc (Suc t)) = (?s (Suc (Suc t)), x3)" "ring_holds ?s (t + 3) x3" using sha1.ring_line [OF x2(2)] by (auto simp: numeral_eq_Suc)
  obtain x4 where x4: "line_word SHA1_W x3 (t + 3) = (?s (t + 3), x4)" "ring_holds ?s (t + 4) x4" using sha1.ring_line [OF x3(2)] by (auto simp: numeral_eq_Suc)
  obtain x5 where x5: "line_word SHA1_W x4 (t + 4) = (?s (t + 4), x5)" "ring_holds ?s (t + 5) x5" using sha1.ring_line [OF x4(2)] by (auto simp: numeral_eq_Suc)
  obtain e1 b1 where 1: "?core a b c d e (?s t) = (e1, b1)" by (metis surj_pair)
  obtain d1 a1 where 2: "?core e1 a b1 c d (?s (Suc t)) = (d1, a1)" by (metis surj_pair)
  obtain c1 e2 where 3: "?core d1 e1 a1 b1 c (?s (Suc (Suc t))) = (c1, e2)" by (metis surj_pair)
  obtain b2 d2 where 4: "?core c1 d1 e2 a1 b1 (?s (t + 3)) = (b2, d2)" by (metis surj_pair)
  obtain a2 c2 where 5: "?core b2 c1 d2 e2 a1 (?s (t + 4)) = (a2, c2)" by (metis surj_pair)
  have u: "[t..<t + 5] = [t, Suc t, Suc (Suc t), t + 3, t + 4]" by (simp add: upt_conv_Cons numeral_eq_Suc)
  have f': "sha1_f t = f" "sha1_f (Suc t) = f" "sha1_f (Suc (Suc t)) = f" "sha1_f (t + 3) = f" "sha1_f (t + 4) = f"
    "sha1_K t = K" "sha1_K (Suc t) = K" "sha1_K (Suc (Suc t)) = K" "sha1_K (t + 3) = K" "sha1_K (t + 4) = K"
    using f by auto
  show ?thesis
  proof (rule that [of a2 b2 c2 d2 e2 x5])
    show "foldl (sha1_step M) (a, b, c, d, e) [t..<t + 5] = (a2, b2, c2, d2, e2)"
      unfolding u by (simp add: sha1_line [OF 1 f'(1,6)] sha1_line [OF 2 f'(2,7)] sha1_line [OF 3 f'(3,8)]
          sha1_line [OF 4 f'(4,9)] sha1_line [OF 5 f'(5,10)])
    show "sha1_lines ?core ([t..<t + 5] @ rows) (a, b, c, d, e, x) = sha1_lines ?core rows (a2, b2, c2, d2, e2, x5)" for rows
      unfolding u by (simp add: x1 x2 x3 x4 x5 1 2 3 4 5)
    show "ring_holds ?s (t + 5) x5" by (rule x5(2))
  qed
qed

lemma sha1_lines_steps:
  assumes "ring_holds (sha1_schedule M) t x" "\<And>i. t \<le> i \<Longrightarrow> i < t + 5 * n \<Longrightarrow> sha1_f i = f \<and> sha1_K i = K"
  shows "\<exists>a' b' c' d' e' x'. sha1_lines (SHA1_CORE f K) [t..<t + 5 * n] (a, b, c, d, e, x) = (a', b', c', d', e', x') \<and>
    foldl (sha1_step M) (a, b, c, d, e) [t..<t + 5 * n] = (a', b', c', d', e') \<and> ring_holds (sha1_schedule M) (t + 5 * n) x'"
  using assms
proof (induction n arbitrary: t x a b c d e)
  case 0
  then show ?case by simp
next
  case (Suc n)
  have f5: "\<And>i. t \<le> i \<Longrightarrow> i < t + 5 \<Longrightarrow> sha1_f i = f \<and> sha1_K i = K" using Suc.prems(2) by simp
  obtain a1 b1 c1 d1 e1 x1 where q:
    "foldl (sha1_step M) (a, b, c, d, e) [t..<t + 5] = (a1, b1, c1, d1, e1)"
    "\<And>rows. sha1_lines (SHA1_CORE f K) ([t..<t + 5] @ rows) (a, b, c, d, e, x) = sha1_lines (SHA1_CORE f K) rows (a1, b1, c1, d1, e1, x1)"
    "ring_holds (sha1_schedule M) (t + 5) x1"
    using sha1_quint [OF Suc.prems(1) f5, of a b c d e] by blast
  have u: "[t..<t + 5 * Suc n] = [t..<t + 5] @ [t + 5..<t + 5 + 5 * n]"
    using upt_add_eq_append [of t "t + 5" "5 * n"] by (simp add: add.assoc)
  have fn: "\<And>i. t + 5 \<le> i \<Longrightarrow> i < t + 5 + 5 * n \<Longrightarrow> sha1_f i = f \<and> sha1_K i = K" using Suc.prems(2) by simp
  have n: "t + 5 * Suc n = t + 5 + 5 * n" by simp
  show ?case using Suc.IH [OF q(3) fn, of a1 b1 c1 d1 e1] unfolding n [symmetric] u foldl_append q by (simp add: n)
qed

lemma sha1_round:
  assumes "ring_holds (sha1_schedule M) t x" "hi = t + 20" "\<And>i. t \<le> i \<Longrightarrow> i < hi \<Longrightarrow> sha1_f i = f \<and> sha1_K i = K"
  obtains a' b' c' d' e' x' where "sha1_lines (SHA1_CORE f K) [t..<hi] (a, b, c, d, e, x) = (a', b', c', d', e', x')"
    "foldl (sha1_step M) (a, b, c, d, e) [t..<hi] = (a', b', c', d', e')" "ring_holds (sha1_schedule M) hi x'"
  using sha1_lines_steps [of M t x 4 f K a b c d e] assms by auto

lemma sha1_code_functions:
  "(\<lambda>b c d. d XOR (b AND (c XOR d))) = (fips_ch :: ruint32 \<Rightarrow> _)" "(\<lambda>b c d. b XOR c XOR d) = (fips_parity :: ruint32 \<Rightarrow> _)"
  "(\<lambda>b c d. (b AND c) OR (d AND (b OR c))) = (fips_maj :: ruint32 \<Rightarrow> _)"
  by (simp_all add: fun_eq_iff ch_code maj_code fips_parity_def)

lemma r_sha1_update_block_compress:
  assumes "p + 64 \<le> length mem"
  shows "r_sha1_update_block md mem p = Some (md\<lparr>md_vars := sha1_compress (md_vars md) (take 64 (drop p mem))\<rparr>)"
proof -
  let ?M = "block_words 4 (take 64 (drop p mem)) :: ruint32 list" and ?v = "md_vars md"
  have r0: "ring_holds (sha1_schedule ?M) 0 ?M" by (rule ring_start) (simp_all add: sha1_schedule.simps)
  obtain a1 b1 c1 d1 e1 x1 where 1: "sha1_lines (SHA1_CORE fips_ch 0x5a827999) [0..<20] (?v ! 0, ?v ! 1, ?v ! 2, ?v ! 3, ?v ! 4, ?M) = (a1, b1, c1, d1, e1, x1)"
    "foldl (sha1_step ?M) (?v ! 0, ?v ! 1, ?v ! 2, ?v ! 3, ?v ! 4) [0..<20] = (a1, b1, c1, d1, e1)" "ring_holds (sha1_schedule ?M) 20 x1"
    by (rule sha1_round [OF r0, of 20 fips_ch "0x5a827999"]) (simp_all add: sha1_f_def sha1_K_def)
  obtain a2 b2 c2 d2 e2 x2 where 2: "sha1_lines (SHA1_CORE fips_parity 0x6ed9eba1) [20..<40] (a1, b1, c1, d1, e1, x1) = (a2, b2, c2, d2, e2, x2)"
    "foldl (sha1_step ?M) (a1, b1, c1, d1, e1) [20..<40] = (a2, b2, c2, d2, e2)" "ring_holds (sha1_schedule ?M) 40 x2"
    by (rule sha1_round [OF 1(3), of 40 fips_parity "0x6ed9eba1"]) (simp_all add: sha1_f_def sha1_K_def)
  obtain a3 b3 c3 d3 e3 x3 where 3: "sha1_lines (SHA1_CORE fips_maj 0x8f1bbcdc) [40..<60] (a2, b2, c2, d2, e2, x2) = (a3, b3, c3, d3, e3, x3)"
    "foldl (sha1_step ?M) (a2, b2, c2, d2, e2) [40..<60] = (a3, b3, c3, d3, e3)" "ring_holds (sha1_schedule ?M) 60 x3"
    by (rule sha1_round [OF 2(3), of 60 fips_maj "0x8f1bbcdc"]) (simp_all add: sha1_f_def sha1_K_def)
  obtain a4 b4 c4 d4 e4 x4 where 4: "sha1_lines (SHA1_CORE fips_parity 0xca62c1d6) [60..<80] (a3, b3, c3, d3, e3, x3) = (a4, b4, c4, d4, e4, x4)"
    "foldl (sha1_step ?M) (a3, b3, c3, d3, e3) [60..<80] = (a4, b4, c4, d4, e4)" "ring_holds (sha1_schedule ?M) 80 x4"
    by (rule sha1_round [OF 3(3), of 80 fips_parity "0xca62c1d6"]) (simp_all add: sha1_f_def sha1_K_def)
  have u: "[0..<80] = [0..<20] @ [20..<40] @ [40..<60] @ [60..<80]"
    using upt_add_eq_append [of 0 20 60] upt_add_eq_append [of 20 40 40] upt_add_eq_append [of 40 60 20] by simp
  have "foldl (sha1_step ?M) (?v ! 0, ?v ! 1, ?v ! 2, ?v ! 3, ?v ! 4) [0..<80] = (a4, b4, c4, d4, e4)"
    unfolding u foldl_append 1(2) 2(2) 3(2) 4(2) ..
  then show ?thesis using 1(1) 2(1) 3(1) 4(1) load_be_blocks(1) [OF assms]
    by (simp add: r_sha1_update_block_def Let_def sha1_compress_def sha1_code_functions)
qed


section \<open>The constants\<close>

text \<open>\<open>k\<close> is the fraction of the \<open>r\<close>-th root of \<open>p\<close>, to \<open>w\<close> bits.\<close>

definition root_fraction :: "nat \<Rightarrow> nat \<Rightarrow> int \<Rightarrow> int \<Rightarrow> bool" where
  "root_fraction r w p k \<longleftrightarrow> list_ex (\<lambda>i. if i ^ r \<le> p \<and> p < (i + 1) ^ r
     then (i * 2 ^ w + k) ^ r \<le> p * 2 ^ (w * r) \<and> p * 2 ^ (w * r) < (i * 2 ^ w + k + 1) ^ r else False) [0..7]"

definition primes80 :: "int list" where
  "primes80 = [
   2, 3, 5, 7, 11, 13, 17, 19, 23, 29, 31, 37, 41, 43, 47, 53, 59, 61, 67, 71,
   73, 79, 83, 89, 97, 101, 103, 107, 109, 113, 127, 131, 137, 139, 149, 151, 157, 163, 167, 173,
   179, 181, 191, 193, 197, 199, 211, 223, 227, 229, 233, 239, 241, 251, 257, 263, 269, 271, 277, 281,
   283, 293, 307, 311, 313, 317, 331, 337, 347, 349, 353, 359, 367, 373, 379, 383, 389, 397, 401, 409]"

lemma sha256_K_roots: "list_all2 (\<lambda>p k. root_fraction 3 32 p (uint k)) (take 64 primes80) sha256_K"
  by code_simp

lemma sha512_K_roots: "list_all2 (\<lambda>p k. root_fraction 3 64 p (uint k)) primes80 sha512_K"
  by code_simp

lemma sha_init_roots:
  "list_all2 (\<lambda>p k. root_fraction 2 32 p (uint k)) (take 8 primes80) [0x6a09e667, 0xbb67ae85, 0x3c6ef372, 0xa54ff53a, 0x510e527f, 0x9b05688c, 0x1f83d9ab, 0x5be0cd19 :: ruint32]"
  "list_all2 (\<lambda>p k. root_fraction 2 64 p (uint k)) (take 8 primes80) [0x6a09e667f3bcc908, 0xbb67ae8584caa73b, 0x3c6ef372fe94f82b, 0xa54ff53a5f1d36f1,
       0x510e527fade682d1, 0x9b05688c2b3e6c1f, 0x1f83d9abfb41bd6b, 0x5be0cd19137e2179 :: ruint64]"
  "list_all2 (\<lambda>p k. root_fraction 2 64 p (uint k)) (take 8 (drop 8 primes80)) [0xcbbb9d5dc1059ed8, 0x629a292a367cd507, 0x9159015a3070dd17, 0x152fecd8f70e5939,
       0x67332667ffc00b31, 0x8eb44a8768581511, 0xdb0c2e0d64f98fa7, 0x47b5481dbefa4fa4 :: ruint64]"
  "map ucast [0xcbbb9d5dc1059ed8, 0x629a292a367cd507, 0x9159015a3070dd17, 0x152fecd8f70e5939,
       0x67332667ffc00b31, 0x8eb44a8768581511, 0xdb0c2e0d64f98fa7, 0x47b5481dbefa4fa4 :: ruint64]
     = [0xc1059ed8, 0x367cd507, 0x3070dd17, 0xf70e5939, 0xffc00b31, 0x68581511, 0x64f98fa7, 0xbefa4fa4 :: ruint32]"
  by code_simp+

text \<open>
  C33. The block functions of SHA-1, SHA-256 and SHA-512 are the ones of FIPS 180-4: on any state and any
  64 (128) bytes of memory they return, leave everything but the variables alone and set these to
  the compression the standard defines, with its schedule of 80 (64) words in place of the ring of
  sixteen.  The tables of constants are the fractions of the cube roots of the first primes, and the
  initial values those of square roots; the ones of SHA-224 are the second halves of the ones of SHA-384.
\<close>

theorem r_sha_blocks_standard:
  assumes "p + 64 \<le> length mem" "q + 128 \<le> length mem2"
  shows "r_sha1_update_block md1 mem p = Some (md1\<lparr>md_vars := sha1_compress (md_vars md1) (take 64 (drop p mem))\<rparr>) \<and>
    r_sha256_update_block md2 mem p = Some (md2\<lparr>md_vars := sha256_compress (md_vars md2) (take 64 (drop p mem))\<rparr>) \<and>
    r_sha512_update_block md5 mem2 q = Some (md5\<lparr>md_vars := sha512_compress (md_vars md5) (take 128 (drop q mem2))\<rparr>) \<and>
    list_all2 (\<lambda>p k. root_fraction 3 32 p (uint k)) (take 64 primes80) sha256_K \<and>
    list_all2 (\<lambda>p k. root_fraction 3 64 p (uint k)) primes80 sha512_K \<and>
    list_all2 (\<lambda>p k. root_fraction 2 32 p (uint k)) (take 8 primes80) (md_vars (r_sha256_init md2)) \<and>
    list_all2 (\<lambda>p k. root_fraction 2 64 p (uint k)) (take 8 primes80) (md_vars (r_sha512_init md5)) \<and>
    list_all2 (\<lambda>p k. root_fraction 2 64 p (uint k)) (take 8 (drop 8 primes80)) (md_vars (r_sha384_init md5)) \<and>
    md_vars (r_sha224_init md2) = map ucast (md_vars (r_sha384_init md5))"
  unfolding r_sha256_init_def r_sha512_init_def r_sha384_init_def r_sha224_init_def
  using r_sha1_update_block_compress [OF assms(1)] r_sha256_update_block_compress [OF assms(1)] r_sha512_update_block_compress [OF assms(2)]
    sha256_K_roots sha512_K_roots sha_init_roots by simp

theorem r_sha_blocks_standard_witness:
  "r_sha256_update_block \<lparr>md_vars = replicate 8 0, md_len = 0, md_buffer = [], md_bufsize = 0\<rparr> (replicate 64 0) 0
    = Some \<lparr>md_vars = sha256_compress (replicate 8 0) (replicate 64 0), md_len = 0, md_buffer = [], md_bufsize = 0\<rparr>"
  using r_sha_blocks_standard [of 0 "replicate 64 0" 0 "replicate 128 0"
      "\<lparr>md_vars = replicate 5 0, md_len = 0, md_buffer = [], md_bufsize = 0\<rparr>"
      "\<lparr>md_vars = replicate 8 0, md_len = 0, md_buffer = [], md_bufsize = 0\<rparr>"
      "\<lparr>md_vars = replicate 8 0, md_len = (0, 0), md_buffer = [], md_bufsize = 0\<rparr>"]
  by simp

end
