(* ===== verification/RMdHash.thy ===== *)
theory RMdHash
  imports RSha
begin

text \<open>
  The digests as functions of the whole message: the block functions of \<^verbatim>\<open>RMdSha\<close> satisfy the contract
  of \<^verbatim>\<open>RDigest\<close>, so init, any updates and final compute the compression of the padded message.
  For MD2, MD4 and MD5 the compression of one block is built from the rows of the code itself; the
  reference is independent of the code in padding, buffering, chaining and output.
\<close>

section \<open>Compression functions\<close>

definition block_words_le :: "ruint8 list \<Rightarrow> ruint32 list" where
  "block_words_le blk = map (\<lambda>i. be_word (rev (take 4 (drop (i * 4) blk)))) [0..<16]"

definition md2_compress :: "md2_vars \<Rightarrow> ruint8 list \<Rightarrow> md2_vars" where
  "md2_compress v blk =
     \<lparr>md2_state = take 16 (md2_rounds [0..<18] 0 (md2_state v @ blk @ map2 (XOR) (md2_state v) blk)),
      md2_checksum = md2_fold (md2_checksum v ! 15) (md2_checksum v) blk\<rparr>"

definition md_add4 :: "ruint32 list \<Rightarrow> ruint32 \<times> ruint32 \<times> ruint32 \<times> ruint32 \<Rightarrow> ruint32 list" where
  "md_add4 v s = (case s of (a, b, c, d) \<Rightarrow> [v ! 0 + a, v ! 1 + b, v ! 2 + c, v ! 3 + d])"

definition md4_compress :: "ruint32 list \<Rightarrow> ruint8 list \<Rightarrow> ruint32 list" where
  "md4_compress v blk = md_add4 v
     (md_lines MD4_CORE3 (block_words_le blk) md4_rows3
     (md_lines MD4_CORE2 (block_words_le blk) md4_rows2
     (md_lines MD4_CORE1 (block_words_le blk) md4_rows1 (v ! 0, v ! 1, v ! 2, v ! 3))))"

definition md5_compress :: "ruint32 list \<Rightarrow> ruint8 list \<Rightarrow> ruint32 list" where
  "md5_compress v blk = md_add4 v
     (md_lines MD5_CORE4 (block_words_le blk) md5_rows4
     (md_lines MD5_CORE3 (block_words_le blk) md5_rows3
     (md_lines MD5_CORE2 (block_words_le blk) md5_rows2
     (md_lines MD5_CORE1 (block_words_le blk) md5_rows1 (v ! 0, v ! 1, v ! 2, v ! 3)))))"

text \<open>The hash of a message: the compression of its blocks once it is padded with its length.\<close>

definition md_hash :: "nat \<Rightarrow> ('d \<Rightarrow> ruint8 list \<Rightarrow> 'd) \<Rightarrow> 'd \<Rightarrow> (nat \<Rightarrow> ruint8 list) \<Rightarrow> ruint8 list \<Rightarrow> 'd" where
  "md_hash bs compress iv lenbytes msg =
     foldl compress iv (blocks_of bs (msg @ md_padding bs (length msg) (lenbytes (length msg))))"

definition bits_le64 :: "nat \<Rightarrow> ruint8 list" where
  "bits_le64 n = le_bytes 8 (of_nat (8 * n) :: ruint64)"

definition bits_be64 :: "nat \<Rightarrow> ruint8 list" where
  "bits_be64 n = rev (le_bytes 8 (of_nat (8 * n) :: ruint64))"

definition bits_be128 :: "nat \<Rightarrow> ruint8 list" where
  "bits_be128 n = rev (le_bytes 16 (of_nat (8 * n) :: 128 word))"

text \<open>MD2 pads with the number of the bytes it pads with, and then absorbs its checksum.\<close>

definition md2_hash :: "md2_vars \<Rightarrow> ruint8 list \<Rightarrow> md2_vars" where
  "md2_hash iv msg =
     (let k = 16 - length msg mod 16; v = foldl md2_compress iv (blocks_of 16 (msg @ replicate k (of_nat k)))
      in md2_compress v (md2_checksum v))"

lemma length_le_bytes [simp]: "length (le_bytes n v) = n"
  by (simp add: le_bytes_def)

section \<open>The block functions\<close>

lemma r_load_le32_word:
  assumes "i + 3 < length p"
  shows "r_load_le32 p i = Some (be_word (rev (take 4 (drop i p))))"
  unfolding take_nths4 [OF assms] using assms
  by (simp add: r_load_le32_def be_word_def push_bit_or push_bit_push_bit or.assoc or.commute or.left_commute)

lemma load_le_block:
  assumes l: "p + 64 \<le> length mem"
  shows "load_words r_load_le32 4 mem p = Some (block_words_le (take 64 (drop p mem)))"
  unfolding block_words_le_def
proof (rule load_words_Some)
  fix i :: nat assume i: "i < 16"
  then have "take 4 (drop (i * 4) (take 64 (drop p mem))) = take 4 (drop (p + i * 4) mem)"
    by (simp add: drop_take add.commute)
  then show "r_load_le32 mem (p + i * 4) = Some (be_word (rev (take 4 (drop (i * 4) (take 64 (drop p mem))))))"
    using r_load_le32_word [of "p + i * 4" mem] i l by simp
qed

lemma md_add4_simp [simp]: "length (md_add4 v s) = 4"
  by (simp add: md_add4_def split: prod.splits)

lemma sha2_add_length [simp]: "length (sha2_add v s) = 8"
  by (simp add: sha2_add_def split: prod.splits)

text \<open>Digests with a block of 64 bytes and a length field of eight bytes.\<close>

locale md64 = block_hash 64 block compress ok
  for block :: "('d, ruint64) md_state \<Rightarrow> ruint8 list \<Rightarrow> nat \<Rightarrow> ('d, ruint64) md_state option"
    and compress :: "'d \<Rightarrow> ruint8 list \<Rightarrow> 'd" and ok :: "'d \<Rightarrow> bool" +
  fixes lb :: "ruint64 \<Rightarrow> ruint8 list"
  assumes length_lb: "length (lb l) = 8"
begin

lemma update64:
  assumes "absorbed 64 compress ok iv md msg" "md_len md = of_nat (length msg)" "sz \<le> length ptr"
  shows "\<exists>md'. md_update True 64 block (md\<lparr>md_len := md_len md + of_nat sz\<rparr>) ptr sz = Some md' \<and>
    absorbed 64 compress ok iv md' (msg @ take sz ptr) \<and> md_len md' = of_nat (length (msg @ take sz ptr))"
proof -
  have "absorbed 64 compress ok iv (md\<lparr>md_len := md_len md + of_nat sz\<rparr>) msg" using assms(1) by (simp add: absorbed_def)
  from update_absorbs [OF this assms(3), of True] show ?thesis using assms(2,3) by auto
qed

lemma final64:
  assumes "absorbed 64 compress ok iv md msg" "md_len md = of_nat (length msg)"
  shows "\<exists>md'. (do {
      (md, ptr, own) \<leftarrow> md_final_block 64 block md;
      ptr \<leftarrow> memcpy ptr (64 - 8) (lb (push_bit 3 (md_len md))) 0 8;
      md_last_block block md ptr own
    }) = Some md' \<and> md_vars md' = md_hash 64 compress iv (\<lambda>n. lb (of_nat (8 * n))) msg \<and>
    length (md_buffer md') = 64 \<and> ok (md_vars md')"
proof -
  have "push_bit 3 (md_len md) = of_nat (8 * length msg)" using assms(2) by (simp add: push_bit_eq_mult mult.commute)
  then show ?thesis
    using final_padded [OF assms(1), of "\<lambda>l. lb (push_bit 3 l)", OF length_lb] by (auto simp: md_hash_def)
qed

end

interpretation md4: md64 r_md4_update_block md4_compress "\<lambda>v. length v = 4" "le_bytes 8"
proof
  fix md :: RMd4 and p :: nat and mem :: "ruint8 list"
  assume "p + 64 \<le> length mem"
  then show "r_md4_update_block md mem p = Some (md\<lparr>md_vars := md4_compress (md_vars md) (take 64 (drop p mem))\<rparr>)"
    using load_le_block [of p mem] by (simp add: r_md4_update_block_def md4_compress_def md_add4_def Let_def split: prod.splits)
qed (simp_all add: md4_compress_def)

interpretation md5: md64 r_md5_update_block md5_compress "\<lambda>v. length v = 4" "le_bytes 8"
proof
  fix md :: RMd5 and p :: nat and mem :: "ruint8 list"
  assume "p + 64 \<le> length mem"
  then show "r_md5_update_block md mem p = Some (md\<lparr>md_vars := md5_compress (md_vars md) (take 64 (drop p mem))\<rparr>)"
    using load_le_block [of p mem] by (simp add: r_md5_update_block_def md5_compress_def md_add4_def Let_def split: prod.splits)
qed (simp_all add: md5_compress_def)

interpretation sha1h: md64 r_sha1_update_block sha1_compress "\<lambda>v. length v = 5" "\<lambda>l. rev (le_bytes 8 l)"
  by unfold_locales (simp_all add: r_sha1_update_block_compress sha1_compress_def split: prod.splits)

interpretation sha256h: md64 r_sha256_update_block sha256_compress "\<lambda>v. length v = 8" "\<lambda>l. rev (le_bytes 8 l)"
  by unfold_locales (simp_all add: r_sha256_update_block_compress sha256_compress_def)

interpretation sha512h: block_hash 128 r_sha512_update_block sha512_compress "\<lambda>v. length v = 8"
  by unfold_locales (simp_all add: r_sha512_update_block_compress sha512_compress_def)


section \<open>MD2\<close>

definition md2_ok :: "md2_vars \<Rightarrow> bool" where
  "md2_ok v \<longleftrightarrow> length (md2_state v) = 16 \<and> length (md2_checksum v) = 16"

lemma md2_pass_length: "length (snd (md2_pass t xs)) = length xs"
  by (induction xs arbitrary: t) (simp_all add: Let_def case_prod_beta)

lemma md2_rounds_length: "length (md2_rounds is t xs) = length xs"
  by (induction "is" arbitrary: t xs) (simp_all add: Let_def case_prod_beta md2_pass_length)

lemma md2_fold_length: "length (md2_fold t cs bs) = min (length cs) (length bs)"
  by (induction t cs bs rule: md2_fold.induct) (simp_all add: Let_def)

lemma fetch_block: "p + n \<le> length mem \<Longrightarrow> those (map (\<lambda>i. fetch mem (p + i)) [0..<n]) = Some (take n (drop p mem))"
proof -
  assume l: "p + n \<le> length mem"
  have "map (\<lambda>i. fetch mem (p + i)) [0..<n] = map (\<lambda>i. Some (mem ! (p + i))) [0..<n]"
    by (rule map_cong [OF refl]) (use l in simp)
  moreover have "map (\<lambda>i. mem ! (p + i)) [0..<n] = take n (drop p mem)"
    by (rule nth_equalityI) (use l in simp_all)
  ultimately show ?thesis by (simp only: those_Some)
qed

interpretation md2: block_hash 16 r_md2_update_block md2_compress md2_ok
proof
  fix md :: RMd2 and p :: nat and mem :: "ruint8 list"
  assume "p + 16 \<le> length mem"
  then show "r_md2_update_block md mem p = Some (md\<lparr>md_vars := md2_compress (md_vars md) (take 16 (drop p mem))\<rparr>)"
    by (simp add: r_md2_update_block_def md2_compress_def Let_def fetch_block)
next
  fix d :: md2_vars and blk :: "ruint8 list"
  assume "md2_ok d" "length blk = 16"
  then show "md2_ok (md2_compress d blk)"
    by (simp add: md2_ok_def md2_compress_def md2_rounds_length md2_fold_length)
qed simp

lemma r_md2_final_hash:
  assumes "absorbed 16 md2_compress md2_ok iv md msg"
  shows "\<exists>md'. r_md2_final md = Some (True, md') \<and> md_vars md' = md2_hash iv msg \<and> md2_ok (md_vars md') \<and> length (md_buffer md') = 16"
proof -
  obtain full rest where buf: "length (md_buffer md) = 16" and ok: "md2_ok (md_vars md)"
    and msg: "msg = full @ rest" "16 dvd length full" "length rest < 16"
    and vars: "md_vars md = foldl md2_compress iv (blocks_of 16 full)"
    and bsz: "md_bufsize md = length rest" "take (length rest) (md_buffer md) = rest"
    using assms unfolding absorbed_def by blast
  let ?k = "16 - length rest"
  let ?b = "rest @ replicate ?k (of_nat ?k)"
  have m: "length msg mod 16 = length rest" using msg by (auto elim!: dvdE)
  have fl: "memfill (md_buffer md) (md_bufsize md) ?k (of_nat ?k) = Some ?b" using buf bsz msg(3) by simp
  have l: "length ?b = 16" using msg(3) by simp
  define v where "v = md2_compress (md_vars md) ?b"
  let ?md = "md\<lparr>md_buffer := ?b, md_vars := v\<rparr>"
  have b1: "r_md2_update_block (md\<lparr>md_buffer := ?b\<rparr>) ?b 0 = Some ?md"
    using md2.block_whole [of "md\<lparr>md_buffer := ?b\<rparr>", OF _ l] ok by (simp add: v_def)
  have okv: "md2_ok v" unfolding v_def by (rule md2.ok_compress [OF ok l])
  then have lc: "length (md2_checksum v) = 16" by (simp add: md2_ok_def)
  have b2: "r_md2_update_block ?md (md2_checksum v) 0 = Some (?md\<lparr>md_vars := md2_compress v (md2_checksum v)\<rparr>)"
    using md2.block_whole [of ?md, OF _ lc] okv by simp
  have "v = foldl md2_compress iv (blocks_of 16 (msg @ replicate ?k (of_nat ?k)))"
    unfolding v_def vars using blocks_of_append [OF msg(2), of ?b] blocks_of_one [OF l] msg(1) by simp
  then have "md2_hash iv msg = md2_compress v (md2_checksum v)" unfolding md2_hash_def m by (simp add: Let_def)
  then show ?thesis using fl b1 b2 bsz(1) md2.ok_compress [OF okv lc] l by (simp add: r_md2_final_def Let_def)
qed

section \<open>SHA-384 and SHA-512\<close>

text \<open>The two words of the length, and of the length in bits.\<close>

definition len128 :: "nat \<Rightarrow> ruint64 \<times> ruint64" where
  "len128 n = (of_nat n, of_nat (n div 2 ^ 64))"

lemma len128_carry:
  assumes "sz < 2 ^ 64"
  shows "len128 (n + sz) = (of_nat n + of_nat sz,
    if (of_nat n + of_nat sz :: ruint64) < of_nat sz then of_nat (n div 2 ^ 64) + 1 else of_nat (n div 2 ^ 64))"
proof -
  let ?a = "n mod 2 ^ 64"
  have u: "unat (of_nat sz :: ruint64) = sz" using assms by (simp add: unat_of_nat take_bit_eq_mod)
  have s: "unat (of_nat n + of_nat sz :: ruint64) = (?a + sz) mod 2 ^ 64"
    by (simp add: unat_of_nat take_bit_eq_mod mod_add_left_eq flip: of_nat_add)
  have a: "?a < 2 ^ 64" by simp
  have d: "(n + sz) div 2 ^ 64 = n div 2 ^ 64 + (?a + sz) div 2 ^ 64"
    using div_add1_eq [of n sz "2 ^ 64"] assms by simp
  show ?thesis
  proof (cases "?a + sz < 2 ^ 64")
    case True
    then have "(?a + sz) mod 2 ^ 64 = ?a + sz" "(?a + sz) div 2 ^ 64 = 0" by simp_all
    then show ?thesis using u s d by (simp add: len128_def word_less_nat_alt)
  next
    case False
    then have "(?a + sz) mod 2 ^ 64 = ?a + sz - 2 ^ 64" "(?a + sz) div 2 ^ 64 = 1"
      using a assms by (simp_all add: le_mod_geq le_div_geq)
    moreover have "?a + sz - 2 ^ 64 < sz" using a False by linarith
    ultimately show ?thesis using u s d by (simp add: len128_def word_less_nat_alt)
  qed
qed

lemma bits_be128_words:
  "bits_be128 n = rev (le_bytes 8 (push_bit 3 (snd (len128 n)) OR drop_bit 61 (fst (len128 n)))) @ rev (le_bytes 8 (push_bit 3 (fst (len128 n))))"
proof -
  define m where "m = 8 * n"
  define q where "q = m div 2 ^ 64"
  let ?w = "of_nat m :: 128 word"
  have bq: "bit q i = bit m (64 + i)" for i
    unfolding q_def drop_bit_eq_div [symmetric] bit_drop_bit_eq by (simp add: add.commute)
  have lo: "push_bit 3 (of_nat n :: ruint64) = of_nat m" by (simp add: m_def push_bit_eq_mult mult.commute)
  have sh: "bit m (64 + i) = bit n (61 + i)" for i
  proof -
    have "m = push_bit 3 n" by (simp add: m_def push_bit_eq_mult mult.commute)
    then show ?thesis by (simp add: bit_push_bit_iff)
  qed
  have hi: "push_bit 3 (of_nat (n div 2 ^ 64) :: ruint64) OR drop_bit 61 (of_nat n) = of_nat q"
  proof (rule bit_word_eqI)
    fix i assume i: "i < LENGTH(64)"
    have "bit (n div 2 ^ 64) (i - 3) = bit n (61 + i)" if "3 \<le> i"
      unfolding drop_bit_eq_div [symmetric] bit_drop_bit_eq using that by (simp add: add.commute)
    moreover have "bit q i = bit n (61 + i)" using bq sh by simp
    ultimately show "bit (push_bit 3 (of_nat (n div 2 ^ 64) :: ruint64) OR drop_bit 61 (of_nat n)) i
        \<longleftrightarrow> bit (of_nat q :: ruint64) i"
      using i by (auto simp: bit_simps)
  qed
  have byte: "(ucast (drop_bit (8 * i) ?w) :: ruint8) = ucast (drop_bit (8 * i) (of_nat m :: ruint64))" if "i < 8" for i
    by (rule bit_word_eqI) (use that in \<open>auto simp: bit_simps\<close>)
  have byte2: "(ucast (drop_bit (8 * (8 + i)) ?w) :: ruint8) = ucast (drop_bit (8 * i) (of_nat q :: ruint64))" if "i < 8" for i
    by (rule bit_word_eqI) (use that in \<open>auto simp: bit_simps bq ac_simps\<close>)
  have "le_bytes 16 ?w = le_bytes 8 (of_nat m :: ruint64) @ le_bytes 8 (of_nat q :: ruint64)"
  proof (rule nth_equalityI)
    fix i assume "i < length (le_bytes 16 ?w)"
    then have i: "i < 16" by simp
    show "le_bytes 16 ?w ! i = (le_bytes 8 (of_nat m :: ruint64) @ le_bytes 8 (of_nat q :: ruint64)) ! i"
    proof (cases "i < 8")
      case True
      then show ?thesis using i byte [OF True] by (simp add: nth_append le_bytes_def)
    next
      case False
      then have "i - 8 < 8" "8 + (i - 8) = i" using i by linarith+
      then show ?thesis using False i byte2 [of "i - 8"] by (simp add: nth_append le_bytes_def)
    qed
  qed simp
  then show ?thesis unfolding bits_be128_def len128_def fst_conv snd_conv lo hi m_def [symmetric] by simp
qed

text \<open>
  The last block of a message whose length leaves \<open>r\<close> bytes over.  The test for the room of the length is
  for eight bytes, but sixteen are stored.
\<close>

abbreviation sha512_absorbed :: "ruint64 list \<Rightarrow> RSha512 \<Rightarrow> ruint8 list \<Rightarrow> bool" where
  "sha512_absorbed iv md msg \<equiv> absorbed 128 sha512_compress (\<lambda>v. length v = 8) iv md msg \<and> md_len md = len128 (length msg)"

definition sha512_last :: "ruint64 list \<Rightarrow> ruint8 list \<Rightarrow> ruint64 list" where
  "sha512_last iv msg =
     (let r = length msg mod 128 in
      if 112 \<le> r \<and> r < 120 then foldl sha512_compress iv (blocks_of 128 (take (length msg - r + 112) msg @ bits_be128 (length msg)))
      else md_hash 128 sha512_compress iv bits_be128 msg)"

lemma store_len128:
  assumes "length ptr = 128"
  shows "r_store_be64 ptr (128 - 1 * 8) lo = Some (take 120 ptr @ rev (le_bytes 8 lo))"
    and "r_store_be64 (take 120 ptr @ rev (le_bytes 8 lo)) (128 - 2 * 8) hi = Some (take 112 ptr @ rev (le_bytes 8 hi) @ rev (le_bytes 8 lo))"
  using assms by (simp_all add: r_store_be64_def)

lemma length_bits_be128 [simp]: "length (bits_be128 n) = 16"
  by (simp add: bits_be128_def)

lemma r_sha512_final_last:
  assumes "sha512_absorbed iv md msg"
  shows "\<exists>md'. r_sha512_final md = Some (True, md') \<and> md_vars md' = sha512_last iv msg \<and> length (md_vars md') = 8 \<and> length (md_buffer md') = 128"
proof -
  obtain full rest where buf: "length (md_buffer md) = 128" and ok: "length (md_vars md) = 8"
    and msg: "msg = full @ rest" "128 dvd length full" "length rest < 128"
    and vars: "md_vars md = foldl sha512_compress iv (blocks_of 128 full)"
    and bsz: "md_bufsize md = length rest" "take (length rest) (md_buffer md) = rest"
    using assms unfolding absorbed_def by blast
  have len: "md_len md = len128 (length msg)" using assms by blast
  let ?r = "length rest" and ?bits = "bits_be128 (length msg)"
  have m: "length msg mod 128 = ?r" using msg by (auto elim!: dvdE)
  have n: "(length msg + 1 + 16) mod 128 = (?r + 17) mod 128" using m by (metis add.assoc mod_add_left_eq numeral_plus_one one_plus_numeral semiring_norm(3))
  have fin: "r_sha512_final md = map_option (Pair True) (md_last_block r_sha512_update_block md1 (take 112 ptr @ ?bits) own)"
    if "md_final_block 128 r_sha512_update_block md = Some (md1, ptr, own)" "length ptr = 128" "md_len md1 = md_len md" for md1 ptr own
    using that store_len128 [OF that(2)] len bits_be128_words [of "length msg"]
    by (simp add: r_sha512_final_def Let_def case_prod_beta map_conv_bind_option comp_def)
  have last: "md_last_block r_sha512_update_block md1 blk own
      = Some ((if own then md1\<lparr>md_buffer := blk\<rparr> else md1)\<lparr>md_vars := sha512_compress (md_vars md1) blk\<rparr>)"
    if "length (md_vars md1) = 8" "length blk = 128" for md1 :: RSha512 and blk own
    using sha512h.block_whole [of "if own then md1\<lparr>md_buffer := blk\<rparr> else md1" blk] that by (auto simp: md_last_block_def)
  have one: "foldl sha512_compress iv (blocks_of 128 (full @ blk)) = sha512_compress (md_vars md) blk" if "length blk = 128" for blk
    using vars blocks_of_append [OF msg(2), of blk] blocks_of_one [OF that] by simp
  show ?thesis
  proof (cases "?r + 1 \<le> 128 - 8")
    case True
    obtain junk where f: "md_final_block 128 r_sha512_update_block md
        = Some (md\<lparr>md_buffer := rest @ 0x80 # replicate (128 - 8 - (?r + 1)) 0 @ junk\<rparr>, rest @ 0x80 # replicate (128 - 8 - (?r + 1)) 0 @ junk, True)"
        "length junk = 8"
      using sha512h.final_block_fits [OF buf bsz True] by auto
    let ?ptr = "rest @ 0x80 # replicate (128 - 8 - (?r + 1)) 0 @ junk"
    let ?blk = "take 112 ?ptr @ ?bits"
    have l: "length ?ptr = 128" using True f(2) by simp
    have lb: "length ?blk = 128" using l by simp
    have "sha512_last iv msg = sha512_compress (md_vars md) ?blk"
    proof (cases "112 \<le> ?r")
      case True
      then have "take (length msg - ?r + 112) msg = full @ take 112 rest" using msg(1) by simp
      then show ?thesis using True one [OF lb] \<open>?r + 1 \<le> 128 - 8\<close> by (simp add: sha512_last_def m Let_def)
    next
      case False
      have "?r + 17 \<le> 128" using False by simp
      then have k: "(128 - (?r + 17) mod 128) mod 128 = 111 - ?r" by (cases "?r = 111") simp_all
      have "take 112 (rest @ 0x80 # replicate (111 - ?r) 0 @ replicate 8 0 @ junk) = rest @ 0x80 # replicate (111 - ?r) 0"
        using take_front [of "rest @ 0x80 # replicate (111 - ?r) 0" 112 "replicate 8 0 @ junk"] False by simp
      moreover have "rest @ 0x80 # replicate (128 - 8 - (?r + 1)) 0 @ junk = rest @ 0x80 # replicate (111 - ?r) 0 @ replicate 8 0 @ junk"
        using False replicate_add [of "111 - ?r" 8 "0 :: ruint8"] by (simp add: add.commute)
      ultimately have "full @ ?blk = msg @ md_padding 128 (length msg) ?bits"
        unfolding md_padding_def length_bits_be128 n k using msg(1) by simp
      then show ?thesis using False one [OF lb] by (simp add: sha512_last_def m Let_def md_hash_def)
    qed
    then show ?thesis using fin [OF f(1) l] last [OF _ lb, of "md\<lparr>md_buffer := ?ptr\<rparr>" True] ok sha512h.ok_compress [OF ok lb] lb by simp
  next
    case False
    let ?b = "rest @ 0x80 # replicate (128 - (?r + 1)) 0"
    let ?md = "md\<lparr>md_vars := sha512_compress (md_vars md) ?b, md_buffer := replicate 128 0\<rparr>"
    let ?blk = "replicate 112 0 @ ?bits"
    note f = sha512h.final_block_spills [OF buf bsz ok False msg(3)]
    have l: "length ?b = 128" using msg(3) by simp
    have lb: "length ?blk = 128" by simp
    have k: "(128 - (?r + 17) mod 128) mod 128 = (128 - (?r + 1)) + 112" using False msg(3) by (simp add: le_mod_geq)
    have "(full @ ?b) @ ?blk = msg @ md_padding 128 (length msg) ?bits"
      unfolding md_padding_def length_bits_be128 n k using msg(1) by (simp add: replicate_add)
    moreover have "foldl sha512_compress iv (blocks_of 128 ((full @ ?b) @ ?blk)) = sha512_compress (sha512_compress (md_vars md) ?b) ?blk"
      using blocks_of_append [of 128 "full @ ?b" ?blk] blocks_of_one [OF lb] one [OF l] msg(2) l by simp
    ultimately have "sha512_last iv msg = sha512_compress (sha512_compress (md_vars md) ?b) ?blk"
      using False by (simp add: sha512_last_def m Let_def md_hash_def)
    moreover have "length (md_vars ?md) = 8" using sha512h.ok_compress [OF ok l] by simp
    ultimately show ?thesis using fin [OF f] last [OF _ lb, of ?md False] sha512h.ok_compress [OF _ lb, of "md_vars ?md"] by simp
  qed
qed

end
