(* ===== verification/RShake.thy ===== *)
theory RShake
  imports RSha
begin

text \<open>
  SHAKE256 of \<^verbatim>\<open>rlib/crypto/rmsgdigest.c\<close>: the permutation, absorbing, finishing and squeezing, against
  FIPS 202.  The code reads and writes the lanes as bytes, the least significant first on the target.
\<close>

section \<open>The code\<close>

record RShake256 =
  sk_lanes :: "ruint64 list"
  sk_absorb_pos :: nat
  sk_squeeze_pos :: nat

definition r_keccakf_rc :: "ruint64 list" where
  "r_keccakf_rc = [
   0x0000000000000001, 0x0000000000008082, 0x800000000000808a, 0x8000000080008000,
   0x000000000000808b, 0x0000000080000001, 0x8000000080008081, 0x8000000000008009,
   0x000000000000008a, 0x0000000000000088, 0x0000000080008009, 0x000000008000000a,
   0x000000008000808b, 0x800000000000008b, 0x8000000000008089, 0x8000000000008003,
   0x8000000000008002, 0x8000000000000080, 0x000000000000800a, 0x800000008000000a,
   0x8000000080008081, 0x8000000000008080, 0x0000000080000001, 0x8000000080008008]"

definition r_keccakf_rho :: "nat list" where
  "r_keccakf_rho = [
   1, 3, 6, 10, 15, 21, 28, 36, 45, 55, 2, 14,
   27, 41, 56, 8, 25, 43, 62, 18, 39, 61, 20, 44]"

definition r_keccakf_pi :: "nat list" where
  "r_keccakf_pi = [
   10, 7, 11, 17, 18, 3, 5, 16, 8, 21, 24, 4,
   15, 23, 19, 13, 12, 2, 20, 14, 22, 9, 6, 1]"

definition R_KECCAK_ROTL64 :: "ruint64 \<Rightarrow> nat \<Rightarrow> ruint64" where
  "R_KECCAK_ROTL64 x n = push_bit n x OR drop_bit (64 - n) x"

definition keccak_theta :: "ruint64 list \<Rightarrow> ruint64 list" where
  "keccak_theta a =
     (let b = map (\<lambda>i. a ! i XOR a ! (i + 5) XOR a ! (i + 10) XOR a ! (i + 15) XOR a ! (i + 20)) [0..<5] in
      foldl (\<lambda>a i. let t = b ! ((i + 4) mod 5) XOR R_KECCAK_ROTL64 (b ! ((i + 1) mod 5)) 1 in
                   foldl (\<lambda>a j. a[i + j := a ! (i + j) XOR t]) a [0, 5, 10, 15, 20]) a [0..<5])"

definition keccak_rho_pi :: "ruint64 list \<Rightarrow> ruint64 list" where
  "keccak_rho_pi a =
     fst (foldl (\<lambda>(a, t) i. let nxt = a ! (r_keccakf_pi ! i) in
                   (a[r_keccakf_pi ! i := R_KECCAK_ROTL64 t (r_keccakf_rho ! i)], nxt)) (a, a ! 1) [0..<24])"

definition keccak_chi :: "ruint64 list \<Rightarrow> ruint64 list" where
  "keccak_chi a =
     foldl (\<lambda>a j. let b = map (\<lambda>i. a ! (i + j)) [0..<5] in
       foldl (\<lambda>a i. a[i + j := b ! i XOR (NOT (b ! ((i + 1) mod 5)) AND b ! ((i + 2) mod 5))]) a [0..<5]) a [0, 5, 10, 15, 20]"

definition r_keccakf1600 :: "ruint64 list \<Rightarrow> ruint64 list" where
  "r_keccakf1600 a =
     foldl (\<lambda>a round. let a = keccak_chi (keccak_rho_pi (keccak_theta a)) in a[0 := a ! 0 XOR r_keccakf_rc ! round]) a [0..<24]"

text \<open>
  The bytes of the lanes, the lowest first.  A read of the state goes through a checked copy of its
  200 bytes; a write to a byte outside the lanes is \<^const>\<open>None\<close>.
\<close>

definition state_byte :: "ruint64 list \<Rightarrow> nat \<Rightarrow> ruint8" where
  "state_byte lanes j = ucast (drop_bit (8 * (j mod 8)) (lanes ! (j div 8)))"

definition xor_state_byte :: "ruint64 list \<Rightarrow> nat \<Rightarrow> ruint8 \<Rightarrow> ruint64 list option" where
  "xor_state_byte lanes j v = do {
     l \<leftarrow> fetch lanes (j div 8);
     store lanes (j div 8) (l XOR push_bit (8 * (j mod 8)) (ucast v))
   }"

fun shake256_absorb :: "RShake256 \<Rightarrow> ruint8 list \<Rightarrow> RShake256 option" where
  "shake256_absorb s [] = Some s"
| "shake256_absorb s (v # vs) = do {
     lanes \<leftarrow> xor_state_byte (sk_lanes s) (sk_absorb_pos s) v;
     let s = s\<lparr>sk_lanes := lanes, sk_absorb_pos := sk_absorb_pos s + 1\<rparr>;
     let s = (if sk_absorb_pos s = 136 then s\<lparr>sk_lanes := r_keccakf1600 (sk_lanes s), sk_absorb_pos := 0\<rparr> else s);
     shake256_absorb s vs
   }"

definition r_shake256_update :: "RShake256 \<Rightarrow> ruint8 list option \<Rightarrow> nat \<Rightarrow> (bool \<times> RShake256) option" where
  "r_shake256_update s dat sz =
     (case dat of
        None \<Rightarrow> Some (False, s)
      | Some p \<Rightarrow> do {
          vs \<leftarrow> those (map (fetch p) [0..<sz]);
          s \<leftarrow> shake256_absorb s vs;
          Some (True, s)
        })"

definition r_shake256_final :: "RShake256 \<Rightarrow> (bool \<times> RShake256) option" where
  "r_shake256_final s = do {
     l \<leftarrow> xor_state_byte (sk_lanes s) (sk_absorb_pos s) 0x1f;
     l \<leftarrow> xor_state_byte l (136 - 1) 0x80;
     Some (True, s\<lparr>sk_lanes := r_keccakf1600 l, sk_absorb_pos := 0, sk_squeeze_pos := 0\<rparr>)
   }"

partial_function (option) r_shake256_squeeze_loop ::
  "RShake256 \<Rightarrow> ruint8 list \<Rightarrow> nat \<Rightarrow> nat \<Rightarrow> (RShake256 \<times> ruint8 list) option" where
  "r_shake256_squeeze_loop s dat sz copied =
     (if copied < sz then do {
        let avail = 136 - sk_squeeze_pos s;
        let n = sz - copied;
        let n = (if n > avail then avail else n);
        dat \<leftarrow> memcpy dat copied (map (state_byte (sk_lanes s)) [0..<200]) (sk_squeeze_pos s) n;
        let s = s\<lparr>sk_squeeze_pos := sk_squeeze_pos s + n\<rparr>;
        let copied = copied + n;
        let s = (if sk_squeeze_pos s = 136 then s\<lparr>sk_lanes := r_keccakf1600 (sk_lanes s), sk_squeeze_pos := 0\<rparr> else s);
        r_shake256_squeeze_loop s dat sz copied
      }
      else Some (s, dat))"

declare r_shake256_squeeze_loop.simps [code]

definition r_shake256_squeeze :: "RShake256 \<Rightarrow> ruint8 list \<Rightarrow> nat \<Rightarrow> (bool \<times> RShake256 \<times> ruint8 list) option" where
  "r_shake256_squeeze s dat sz = do {
     (s, dat) \<leftarrow> r_shake256_squeeze_loop s dat sz 0;
     Some (True, s, dat)
   }"

definition r_shake256_init :: "RShake256 \<Rightarrow> RShake256" where
  "r_shake256_init s = s\<lparr>sk_lanes := replicate 25 0, sk_absorb_pos := 0, sk_squeeze_pos := 0\<rparr>"

section \<open>FIPS 202\<close>

text \<open>A state gives the lane at column \<open>x\<close> and row \<open>y\<close>.\<close>

type_synonym keccak_state = "nat \<Rightarrow> nat \<Rightarrow> ruint64"

definition fips_theta :: "keccak_state \<Rightarrow> keccak_state" where
  "fips_theta A x y =
     (let C = \<lambda>x. A x 0 XOR A x 1 XOR A x 2 XOR A x 3 XOR A x 4
      in A x y XOR (C ((x + 4) mod 5) XOR word_rotl 1 (C ((x + 1) mod 5))))"

text \<open>The offsets of \<open>rho\<close>: along the path that starts at (1, 0) and goes on from (x, y) to (y, 2x + 3y).\<close>

fun rho_path :: "nat \<Rightarrow> nat \<times> nat" where
  "rho_path 0 = (1, 0)"
| "rho_path (Suc t) = (case rho_path t of (x, y) \<Rightarrow> (y, (2 * x + 3 * y) mod 5))"

definition rho_offset :: "nat \<Rightarrow> nat \<Rightarrow> nat" where
  "rho_offset x y = (case find (\<lambda>t. rho_path t = (x, y)) [0..<24] of None \<Rightarrow> 0 | Some t \<Rightarrow> ((t + 1) * (t + 2) div 2) mod 64)"

definition fips_rho :: "keccak_state \<Rightarrow> keccak_state" where
  "fips_rho A x y = word_rotl (rho_offset x y) (A x y)"

definition fips_pi :: "keccak_state \<Rightarrow> keccak_state" where
  "fips_pi A x y = A ((x + 3 * y) mod 5) x"

definition fips_chi :: "keccak_state \<Rightarrow> keccak_state" where
  "fips_chi A x y = A x y XOR (NOT (A ((x + 1) mod 5) y) AND A ((x + 2) mod 5) y)"

text \<open>The bits of the round constants come from a linear feedback shift register.\<close>

definition lfsr_next :: "ruint8 \<Rightarrow> ruint8" where
  "lfsr_next r = (if bit r 7 then push_bit 1 r XOR 0x71 else push_bit 1 r)"

definition lfsr_bit :: "nat \<Rightarrow> bool" where
  "lfsr_bit t = bit ((lfsr_next ^^ t) 1) 0"

definition fips_rc :: "nat \<Rightarrow> ruint64" where
  "fips_rc i = foldl (\<lambda>w j. if lfsr_bit (j + 7 * i) then set_bit (2 ^ j - 1) w else w) 0 [0..<7]"

definition fips_iota :: "nat \<Rightarrow> keccak_state \<Rightarrow> keccak_state" where
  "fips_iota i A x y = (if x = 0 \<and> y = 0 then A x y XOR fips_rc i else A x y)"

definition fips_round :: "keccak_state \<Rightarrow> nat \<Rightarrow> keccak_state" where
  "fips_round A i = fips_iota i (fips_chi (fips_pi (fips_rho (fips_theta A))))"

text \<open>A list of lanes as a state: row after row.\<close>

definition lanes_state :: "ruint64 list \<Rightarrow> keccak_state" where
  "lanes_state a x y = a ! (x mod 5 + 5 * (y mod 5))"

definition state_lanes :: "keccak_state \<Rightarrow> ruint64 list" where
  "state_lanes A = map (\<lambda>k. A (k mod 5) (k div 5)) [0..<25]"

definition fips_keccakf :: "ruint64 list \<Rightarrow> ruint64 list" where
  "fips_keccakf a = foldl (\<lambda>a i. state_lanes (fips_round (lanes_state a) i)) a [0..<24]"


section \<open>The permutation\<close>

lemma upt_lists:
  "[0..<5] = [0, 1, 2, 3, 4]"
  "[0..<24] = [0, 1, 2, 3, 4, 5, 6, 7, 8, 9, 10, 11, 12, 13, 14, 15, 16, 17, 18, 19, 20, 21, 22, 23]"
  "[0..<25] = [0, 1, 2, 3, 4, 5, 6, 7, 8, 9, 10, 11, 12, 13, 14, 15, 16, 17, 18, 19, 20, 21, 22, 23, 24]"
  by (simp_all add: upt_rec)

lemma keccak_rotl: "0 < n \<Longrightarrow> n < 64 \<Longrightarrow> R_KECCAK_ROTL64 x n = word_rotl n x"
  using rotl_code [of n x] by (simp add: R_KECCAK_ROTL64_def)

lemma word_rotl_0: "word_rotl 0 x = x"
  by (rule bit_word_eqI) (simp add: bit_simps)

lemma lanes_cases:
  assumes "length a = 25"
  obtains a0 a1 a2 a3 a4 a5 a6 a7 a8 a9 a10 a11 a12 a13 a14 a15 a16 a17 a18 a19 a20 a21 a22 a23 a24 where
    "a = [a0, a1, a2, a3, a4, a5, a6, a7, a8, a9, a10, a11, a12, a13, a14, a15, a16, a17, a18, a19, a20, a21, a22, a23, a24]"
proof (rule that)
  have "a = map (\<lambda>i. a ! i) [0..<25]" using assms map_nth [of a] by simp
  then show "a = [a ! 0, a ! 1, a ! 2, a ! 3, a ! 4, a ! 5, a ! 6, a ! 7, a ! 8, a ! 9, a ! 10, a ! 11, a ! 12,
      a ! 13, a ! 14, a ! 15, a ! 16, a ! 17, a ! 18, a ! 19, a ! 20, a ! 21, a ! 22, a ! 23, a ! 24]"
    unfolding upt_lists(3) by simp
qed

lemma theta_code:
  assumes "length a = 25"
  shows "keccak_theta a = state_lanes (fips_theta (lanes_state a))"
  using assms
proof (cases rule: lanes_cases)
  case (1 a0 a1 a2 a3 a4 a5 a6 a7 a8 a9 a10 a11 a12 a13 a14 a15 a16 a17 a18 a19 a20 a21 a22 a23 a24)
  show ?thesis unfolding 1
    by (simp add: keccak_theta_def state_lanes_def fips_theta_def lanes_state_def upt_lists Let_def keccak_rotl xor.assoc)
qed

lemma rho_offsets:
  "rho_offset 0 0 = 0" "rho_offset (Suc 0) 0 = 1" "rho_offset 2 0 = 62" "rho_offset 3 0 = 28" "rho_offset 4 0 = 27"
  "rho_offset 0 (Suc 0) = 36" "rho_offset (Suc 0) (Suc 0) = 44" "rho_offset 2 (Suc 0) = 6" "rho_offset 3 (Suc 0) = 55" "rho_offset 4 (Suc 0) = 20"
  "rho_offset 0 2 = 3" "rho_offset (Suc 0) 2 = 10" "rho_offset 2 2 = 43" "rho_offset 3 2 = 25" "rho_offset 4 2 = 39"
  "rho_offset 0 3 = 41" "rho_offset (Suc 0) 3 = 45" "rho_offset 2 3 = 15" "rho_offset 3 3 = 21" "rho_offset 4 3 = 8"
  "rho_offset 0 4 = 18" "rho_offset (Suc 0) 4 = 2" "rho_offset 2 4 = 61" "rho_offset 3 4 = 56" "rho_offset 4 4 = 14"
  by code_simp+

lemma rho_pi_code:
  assumes "length a = 25"
  shows "keccak_rho_pi a = state_lanes (fips_pi (fips_rho (lanes_state a)))"
  using assms
proof (cases rule: lanes_cases)
  case (1 a0 a1 a2 a3 a4 a5 a6 a7 a8 a9 a10 a11 a12 a13 a14 a15 a16 a17 a18 a19 a20 a21 a22 a23 a24)
  show ?thesis unfolding 1
    by (simp add: keccak_rho_pi_def state_lanes_def fips_pi_def fips_rho_def lanes_state_def upt_lists Let_def
        r_keccakf_pi_def r_keccakf_rho_def keccak_rotl rho_offsets word_rotl_0)
qed

lemma chi_code:
  assumes "length a = 25"
  shows "keccak_chi a = state_lanes (fips_chi (lanes_state a))"
  using assms
proof (cases rule: lanes_cases)
  case (1 a0 a1 a2 a3 a4 a5 a6 a7 a8 a9 a10 a11 a12 a13 a14 a15 a16 a17 a18 a19 a20 a21 a22 a23 a24)
  show ?thesis unfolding 1
    by (simp add: keccak_chi_def state_lanes_def fips_chi_def lanes_state_def upt_lists Let_def)
qed


fun lfsr_run :: "nat \<Rightarrow> ruint8 \<Rightarrow> bool list" where
  "lfsr_run 0 r = []"
| "lfsr_run (Suc n) r = bit r 0 # lfsr_run n (lfsr_next r)"

lemma lfsr_run_nth: "t < n \<Longrightarrow> lfsr_run n r ! t = bit ((lfsr_next ^^ t) r) 0"
proof (induction n arbitrary: t r)
  case (Suc n)
  then show ?case by (cases t) (simp_all add: funpow_swap1)
qed simp

definition lfsr_table :: "nat list" where
  "lfsr_table = [
   1, 0, 0, 0, 0, 0, 0, 0, 1, 0, 1, 1, 0, 0, 0, 1, 1, 1, 1, 0, 1, 0, 0, 0, 0, 1, 1, 1,
   1, 1, 1, 1, 1, 0, 0, 1, 0, 0, 0, 0, 1, 0, 1, 0, 0, 1, 1, 1, 1, 1, 0, 1, 0, 1, 0, 1,
   0, 1, 1, 1, 0, 0, 0, 0, 0, 1, 1, 0, 0, 0, 1, 0, 1, 0, 1, 1, 0, 0, 1, 1, 0, 0, 1, 0,
   1, 1, 1, 1, 1, 1, 0, 1, 1, 1, 1, 0, 0, 1, 1, 0, 1, 1, 1, 0, 1, 1, 1, 0, 0, 1, 0, 1,
   0, 1, 0, 0, 1, 0, 1, 0, 0, 0, 1, 0, 0, 1, 0, 1, 1, 0, 1, 0, 0, 0, 1, 1, 0, 0, 1, 1,
   1, 0, 0, 1, 1, 1, 1, 0, 0, 0, 1, 1, 0, 1, 1, 0, 0, 0, 0, 1, 0, 0, 0, 1, 0, 1, 1, 1]"

lemma lfsr_values: "map of_bool (lfsr_run 168 1) = lfsr_table"
  by code_simp

lemma length_lfsr_run: "length (lfsr_run n r) = n"
  by (induction n arbitrary: r) simp_all

lemma lfsr_bit_table: "t < 168 \<Longrightarrow> lfsr_bit t \<longleftrightarrow> lfsr_table ! t = 1"
  unfolding lfsr_values [symmetric] by (simp add: length_lfsr_run lfsr_run_nth lfsr_bit_def)

lemma fips_rc_table:
  assumes "i < 24"
  shows "fips_rc i = foldl (\<lambda>w j. if lfsr_table ! (j + 7 * i) = 1 then set_bit (2 ^ j - 1) w else w) 0 [0..<7]"
  unfolding fips_rc_def by (rule foldl_cong) (use assms in \<open>simp_all add: lfsr_bit_table\<close>)

lemma rc_table: "map (\<lambda>i. foldl (\<lambda>w j. if lfsr_table ! (j + 7 * i) = 1 then set_bit (2 ^ j - 1) w else w) 0 [0..<7]) [0..<24] = r_keccakf_rc"
  by code_simp

lemma rc_code: "map fips_rc [0..<24] = r_keccakf_rc"
  unfolding rc_table [symmetric] by (rule map_cong) (simp_all add: fips_rc_table)

lemma length_state_lanes [simp]: "length (state_lanes A) = 25"
  by (simp add: state_lanes_def)

lemma lanes_state_lanes: "x < 5 \<Longrightarrow> y < 5 \<Longrightarrow> lanes_state (state_lanes A) x y = A x y"
  by (simp add: lanes_state_def state_lanes_def)

lemma state_lanes_cong: "(\<And>x y. x < 5 \<Longrightarrow> y < 5 \<Longrightarrow> A x y = B x y) \<Longrightarrow> state_lanes A = state_lanes B"
  by (simp add: state_lanes_def)

lemma keccak_round_code:
  assumes "length a = 25" "i < 24"
  shows "(let a = keccak_chi (keccak_rho_pi (keccak_theta a)) in a[0 := a ! 0 XOR r_keccakf_rc ! i]) = state_lanes (fips_round (lanes_state a) i)"
proof -
  let ?A = "lanes_state a"
  have 1: "fips_pi (fips_rho (lanes_state (state_lanes (fips_theta ?A)))) x y = fips_pi (fips_rho (fips_theta ?A)) x y"
    if "x < 5" for x y using that by (simp add: fips_pi_def fips_rho_def lanes_state_lanes)
  have "keccak_chi (keccak_rho_pi (keccak_theta a)) = state_lanes (fips_chi (lanes_state (state_lanes (fips_pi (fips_rho (lanes_state (state_lanes (fips_theta ?A))))))))"
    using assms by (simp add: theta_code rho_pi_code chi_code)
  also have "\<dots> = state_lanes (fips_chi (fips_pi (fips_rho (fips_theta ?A))))"
  proof (rule state_lanes_cong)
    fix x y :: nat assume xy: "x < 5" "y < 5"
    then show "fips_chi (lanes_state (state_lanes (fips_pi (fips_rho (lanes_state (state_lanes (fips_theta ?A))))))) x y
        = fips_chi (fips_pi (fips_rho (fips_theta ?A))) x y"
      by (simp add: fips_chi_def lanes_state_lanes 1)
  qed
  finally have c: "keccak_chi (keccak_rho_pi (keccak_theta a)) = state_lanes (fips_chi (fips_pi (fips_rho (fips_theta ?A))))" .
  have rc: "r_keccakf_rc ! i = fips_rc i" unfolding rc_code [symmetric] using assms(2) by simp
  show ?thesis unfolding Let_def c rc fips_round_def
    by (rule nth_equalityI) (auto simp: state_lanes_def fips_iota_def nth_list_update)
qed

lemma r_keccakf1600_standard:
  assumes "length a = 25"
  shows "r_keccakf1600 a = fips_keccakf a"
proof -
  have "foldl (\<lambda>a round. let a = keccak_chi (keccak_rho_pi (keccak_theta a)) in a[0 := a ! 0 XOR r_keccakf_rc ! round]) a is
      = foldl (\<lambda>a i. state_lanes (fips_round (lanes_state a) i)) a is" if "\<forall>i \<in> set is. i < 24" "length a = 25" for "is" a
    using that
  proof (induction "is" arbitrary: a)
    case (Cons i "is")
    then show ?case using keccak_round_code [of a i] by (simp add: Let_def)
  qed simp
  from this [of "[0..<24]" a] show ?thesis using assms unfolding r_keccakf1600_def fips_keccakf_def by auto
qed

section \<open>The sponge\<close>

definition lane_xor :: "ruint64 list \<Rightarrow> nat \<Rightarrow> ruint8 \<Rightarrow> ruint64 list" where
  "lane_xor lanes j v = lanes[j div 8 := lanes ! (j div 8) XOR push_bit (8 * (j mod 8)) (ucast v)]"

lemma xor_state_byte_lanes: "j < 200 \<Longrightarrow> length l = 25 \<Longrightarrow> xor_state_byte l j v = Some (lane_xor l j v)"
  by (simp add: xor_state_byte_def lane_xor_def less_mult_imp_div_less)

definition xor_block :: "ruint64 list \<Rightarrow> ruint8 list \<Rightarrow> ruint64 list" where
  "xor_block lanes blk = foldl (\<lambda>l (j, v). lane_xor l j v) lanes (enumerate 0 blk)"

text \<open>The domain bits 1111 and the padding 10*1, bytes filled from the low end.\<close>

definition shake_pad :: "nat \<Rightarrow> ruint8 list" where
  "shake_pad n = (let q = 136 - n mod 136 in if q = 1 then [0x9f] else 0x1f # replicate (q - 2) 0 @ [0x80])"

definition shake_absorb :: "ruint64 list \<Rightarrow> ruint8 list \<Rightarrow> ruint64 list" where
  "shake_absorb l blk = fips_keccakf (xor_block l blk)"

definition shake256_lanes :: "ruint8 list \<Rightarrow> ruint64 list" where
  "shake256_lanes msg = foldl shake_absorb (replicate 25 0) (blocks_of 136 (msg @ shake_pad (length msg)))"

text \<open>The output stream, from position \<open>p\<close> of the rate part on, and the state after it.\<close>

fun shake_stream :: "ruint64 list \<Rightarrow> nat \<Rightarrow> nat \<Rightarrow> ruint8 list" where
  "shake_stream l p 0 = []"
| "shake_stream l p (Suc n) = state_byte l p # (if Suc p = 136 then shake_stream (fips_keccakf l) 0 n else shake_stream l (Suc p) n)"

fun shake_after :: "ruint64 list \<Rightarrow> nat \<Rightarrow> nat \<Rightarrow> ruint64 list \<times> nat" where
  "shake_after l p 0 = (l, p)"
| "shake_after l p (Suc n) = (if Suc p = 136 then shake_after (fips_keccakf l) 0 n else shake_after l (Suc p) n)"

definition shake256 :: "ruint8 list \<Rightarrow> nat \<Rightarrow> ruint8 list" where
  "shake256 msg n = shake_stream (shake256_lanes msg) 0 n"

lemma lane_xor_length [simp]: "length (lane_xor l j v) = length l"
  by (simp add: lane_xor_def)

lemma xor_block_length [simp]: "length (xor_block l blk) = length l"
proof -
  have "length (foldl (\<lambda>l (j, v). lane_xor l j v) l ps) = length l" for ps :: "(nat \<times> ruint8) list"
    by (induction ps arbitrary: l) auto
  then show ?thesis by (simp add: xor_block_def)
qed

lemma fips_keccakf_length [simp]: "length a = 25 \<Longrightarrow> length (fips_keccakf a) = 25"
proof -
  have "length (foldl (\<lambda>a i. state_lanes (fips_round (lanes_state a) i)) a is) = 25" if "length a = 25" for "is" a
    using that by (induction "is" arbitrary: a) simp_all
  then show "length a = 25 \<Longrightarrow> length (fips_keccakf a) = 25" by (simp add: fips_keccakf_def)
qed

lemma shake_fold_length: "length l = 25 \<Longrightarrow> length (foldl shake_absorb l bs) = 25"
  by (induction bs arbitrary: l) (simp_all add: shake_absorb_def)

lemma xor_block_append: "xor_block l (a @ b) = foldl (\<lambda>l (j, v). lane_xor l j v) (xor_block l a) (enumerate (length a) b)"
  by (simp add: xor_block_def enumerate_append_eq)

lemma lane_xor_0 [simp]: "lane_xor l j 0 = l"
  by (simp add: lane_xor_def)

lemma lane_xor_twice: "lane_xor (lane_xor l j u) j v = lane_xor l j (u XOR v)"
  by (cases "j div 8 < length l") (simp_all add: lane_xor_def unsigned_xor_eq push_bit_xor xor.assoc list_update_beyond)

definition shake_holds :: "RShake256 \<Rightarrow> ruint8 list \<Rightarrow> bool" where
  "shake_holds s msg \<longleftrightarrow> (\<exists>full rest. msg = full @ rest \<and> 136 dvd length full \<and> length rest < 136 \<and>
     sk_absorb_pos s = length rest \<and> sk_lanes s = xor_block (foldl shake_absorb (replicate 25 0) (blocks_of 136 full)) rest)"

lemma shake_holds_lanes: "shake_holds s msg \<Longrightarrow> length (sk_lanes s) = 25"
  by (auto simp: shake_holds_def shake_fold_length)

lemma shake_absorb_byte:
  assumes "shake_holds s msg"
  shows "\<exists>s'. shake256_absorb s (v # vs) = shake256_absorb s' vs \<and> shake_holds s' (msg @ [v])"
proof -
  obtain full rest where msg: "msg = full @ rest" "136 dvd length full" "length rest < 136"
    and s: "sk_absorb_pos s = length rest" "sk_lanes s = xor_block (foldl shake_absorb (replicate 25 0) (blocks_of 136 full)) rest"
    using assms unfolding shake_holds_def by blast
  let ?s = "let s = s\<lparr>sk_lanes := lane_xor (sk_lanes s) (sk_absorb_pos s) v, sk_absorb_pos := sk_absorb_pos s + 1\<rparr>
    in if sk_absorb_pos s = 136 then s\<lparr>sk_lanes := r_keccakf1600 (sk_lanes s), sk_absorb_pos := 0\<rparr> else s"
  have run: "shake256_absorb s (v # vs) = shake256_absorb ?s vs"
    using xor_state_byte_lanes [of "sk_absorb_pos s" "sk_lanes s" v] shake_holds_lanes [OF assms] s(1) msg(3)
    by (simp add: Let_def)
  let ?l = "foldl shake_absorb (replicate 25 0) (blocks_of 136 full)"
  have x: "lane_xor (sk_lanes s) (sk_absorb_pos s) v = xor_block ?l (rest @ [v])"
    using s by (simp add: xor_block_append)
  have "shake_holds ?s (msg @ [v])"
  proof (cases "length rest + 1 = 136")
    case True
    then have len: "length (rest @ [v]) = 136" by simp
    have "r_keccakf1600 (xor_block ?l (rest @ [v])) = foldl shake_absorb (replicate 25 0) (blocks_of 136 (full @ rest @ [v]))"
      using blocks_of_append [OF msg(2), of "rest @ [v]"] blocks_of_one [OF len]
      by (simp add: r_keccakf1600_standard shake_fold_length shake_absorb_def)
    moreover have "136 dvd length (full @ rest @ [v])" using msg(2) len by simp
    ultimately show ?thesis
      unfolding shake_holds_def using True s(1) x msg
      by (intro exI [of _ "full @ rest @ [v]"] exI [of _ "[]"]) (simp add: Let_def xor_block_def)
  next
    case False
    then have "length (rest @ [v]) < 136" using msg(3) by simp
    then show ?thesis
      unfolding shake_holds_def using False s(1) x msg by (intro exI [of _ full] exI [of _ "rest @ [v]"]) (simp add: Let_def)
  qed
  with run show ?thesis by blast
qed

lemma shake_absorb_holds: "shake_holds s msg \<Longrightarrow> \<exists>s'. shake256_absorb s vs = Some s' \<and> shake_holds s' (msg @ vs)"
proof (induction vs arbitrary: s msg)
  case (Cons v vs)
  obtain s1 where "shake256_absorb s (v # vs) = shake256_absorb s1 vs" "shake_holds s1 (msg @ [v])"
    using shake_absorb_byte [OF Cons.prems] by blast
  with Cons.IH [of s1 "msg @ [v]"] show ?case by auto
qed simp

lemma r_shake256_update_holds:
  assumes "shake_holds s msg" "sz \<le> length p"
  shows "\<exists>s'. r_shake256_update s (Some p) sz = Some (True, s') \<and> shake_holds s' (msg @ take sz p)"
proof -
  have "those (map (fetch p) [0..<sz]) = Some (take sz p)" using assms(2)
  proof -
    have "map (fetch p) [0..<sz] = map (\<lambda>i. Some (p ! i)) [0..<sz]" by (rule map_cong [OF refl]) (use assms(2) in simp)
    moreover have "map (\<lambda>i. p ! i) [0..<sz] = take sz p" by (rule nth_equalityI) (use assms(2) in simp_all)
    ultimately show ?thesis by (simp only: those_Some)
  qed
  then show ?thesis using shake_absorb_holds [OF assms(1), of "take sz p"] by (auto simp: r_shake256_update_def)
qed

lemma r_shake256_final_lanes:
  assumes "shake_holds s msg"
  shows "\<exists>s'. r_shake256_final s = Some (True, s') \<and> sk_lanes s' = shake256_lanes msg \<and> sk_squeeze_pos s' = 0"
proof -
  obtain full rest where msg: "msg = full @ rest" "136 dvd length full" "length rest < 136"
    and s: "sk_absorb_pos s = length rest" "sk_lanes s = xor_block (foldl shake_absorb (replicate 25 0) (blocks_of 136 full)) rest"
    using assms unfolding shake_holds_def by blast
  let ?l = "foldl shake_absorb (replicate 25 0) (blocks_of 136 full)" and ?r = "length rest"
  have m: "length msg mod 136 = ?r" using msg by (auto elim!: dvdE)
  have zeros: "foldl (\<lambda>l (j, v). lane_xor l j v) l (enumerate k (replicate n 0)) = l" for l k n
    by (induction n arbitrary: k) simp_all
  have pad: "length (rest @ shake_pad (length msg)) = 136"
    "xor_block ?l (rest @ shake_pad (length msg)) = lane_xor (lane_xor (sk_lanes s) ?r 0x1f) 135 0x80"
  proof -
    have "length (rest @ shake_pad (length msg)) = 136 \<and>
        xor_block ?l (rest @ shake_pad (length msg)) = lane_xor (lane_xor (sk_lanes s) ?r 0x1f) 135 0x80"
    proof (cases "?r = 135")
      case True
      then show ?thesis using s(2) by (simp add: shake_pad_def m xor_block_append lane_xor_twice)
    next
      case False
      then have "?r + 2 \<le> 136" "Suc (?r + (134 - ?r)) = 135" using msg(3) by linarith+
      then show ?thesis using s(2) by (simp add: shake_pad_def m Let_def xor_block_append enumerate_append_eq zeros)
    qed
    then show "length (rest @ shake_pad (length msg)) = 136"
      "xor_block ?l (rest @ shake_pad (length msg)) = lane_xor (lane_xor (sk_lanes s) ?r 0x1f) 135 0x80" by simp_all
  qed
  have "shake256_lanes msg = fips_keccakf (xor_block ?l (rest @ shake_pad (length msg)))"
    unfolding shake256_lanes_def using blocks_of_append [OF msg(2), of "rest @ shake_pad (length msg)"] blocks_of_one [OF pad(1)] msg(1)
    by (simp add: shake_absorb_def)
  then show ?thesis
    using pad(2) s(1) msg(3) shake_holds_lanes [OF assms]
    by (simp add: r_shake256_final_def xor_state_byte_lanes r_keccakf1600_standard)
qed

lemma shake_stream_add:
  "shake_stream l p (m + n) = shake_stream l p m @ (case shake_after l p m of (l', p') \<Rightarrow> shake_stream l' p' n)"
  by (induction m arbitrary: l p) simp_all

lemma shake_after_add: "shake_after l p (m + n) = (case shake_after l p m of (l', p') \<Rightarrow> shake_after l' p' n)"
  by (induction m arbitrary: l p) simp_all

lemma shake_stream_length [simp]: "length (shake_stream l p n) = n"
  by (induction n arbitrary: l p) simp_all

lemma shake_after_ok: "p < 136 \<Longrightarrow> length l = 25 \<Longrightarrow> shake_after l p n = (l', p') \<Longrightarrow> p' < 136 \<and> length l' = 25"
proof (induction n arbitrary: l p)
  case (Suc n)
  then show ?case using Suc.IH [of 0 "fips_keccakf l"] Suc.IH [of "Suc p" l] by (simp split: if_splits)
qed simp

text \<open>Within a block, the stream is a slice of the bytes of the lanes.\<close>

lemma shake_within:
  assumes "p + n \<le> 136" "0 < n"
  shows "shake_stream l p n = take n (drop p (map (state_byte l) [0..<200]))"
    and "shake_after l p n = (if p + n = 136 then (fips_keccakf l, 0) else (l, p + n))"
proof -
  have "shake_stream l p n = map (state_byte l) [p..<p + n] \<and> shake_after l p n = (if p + n = 136 then (fips_keccakf l, 0) else (l, p + n))"
    using assms
  proof (induction n arbitrary: p)
    case (Suc n)
    show ?case
    proof (cases "n = 0")
      case True
      then show ?thesis using Suc.prems by simp
    next
      case False
      then have "Suc p \<noteq> 136" using Suc.prems by linarith
      then show ?thesis using Suc.IH [of "Suc p"] Suc.prems False by (simp add: upt_conv_Cons)
    qed
  qed simp
  moreover have "map (state_byte l) [p..<p + n] = take n (drop p (map (state_byte l) [0..<200]))"
    by (rule nth_equalityI) (use assms in simp_all)
  ultimately show "shake_stream l p n = take n (drop p (map (state_byte l) [0..<200]))"
    "shake_after l p n = (if p + n = 136 then (fips_keccakf l, 0) else (l, p + n))" by simp_all
qed

lemma squeeze_loop:
  assumes "copied \<le> sz" "sz \<le> length dat" "sk_squeeze_pos s < 136" "length (sk_lanes s) = 25"
  shows "\<exists>s'. r_shake256_squeeze_loop s dat sz copied
      = Some (s', take copied dat @ shake_stream (sk_lanes s) (sk_squeeze_pos s) (sz - copied) @ drop sz dat) \<and>
    (sk_lanes s', sk_squeeze_pos s') = shake_after (sk_lanes s) (sk_squeeze_pos s) (sz - copied)"
  using assms
proof (induction "sz - copied" arbitrary: s dat copied rule: less_induct)
  case less
  show ?case
  proof (cases "copied < sz")
    case False
    then show ?thesis using less.prems by (subst r_shake256_squeeze_loop.simps) simp
  next
    case True
    let ?p = "sk_squeeze_pos s" and ?l = "sk_lanes s"
    define n where "n = min (136 - ?p) (sz - copied)"
    have n: "0 < n" "?p + n \<le> 136" "copied + n \<le> sz" using True less.prems by (auto simp: n_def)
    have nn: "(if 136 - ?p < sz - copied then 136 - ?p else sz - copied) = n" by (simp add: n_def min_def)
    let ?dat = "take copied dat @ shake_stream ?l ?p n @ drop (copied + n) dat"
    have cp: "memcpy dat copied (map (state_byte ?l) [0..<200]) ?p n = Some ?dat"
      using n less.prems shake_within(1) [OF n(2,1)] by simp
    define s1 where "s1 = (let s = s\<lparr>sk_squeeze_pos := ?p + n\<rparr> in
      if sk_squeeze_pos s = 136 then s\<lparr>sk_lanes := r_keccakf1600 (sk_lanes s), sk_squeeze_pos := 0\<rparr> else s)"
    have s1: "(sk_lanes s1, sk_squeeze_pos s1) = shake_after ?l ?p n"
      unfolding shake_within(2) [OF n(2,1)] using less.prems by (simp add: s1_def Let_def r_keccakf1600_standard)
    have ok1: "sk_squeeze_pos s1 < 136" "length (sk_lanes s1) = 25"
      using shake_after_ok [OF less.prems(3,4) s1 [symmetric]] by simp_all
    have ld: "length ?dat = length dat" using n less.prems by simp
    have "sz - (copied + n) < sz - copied" using n by linarith
    from less.hyps [OF this n(3), of ?dat s1] obtain s' where
      s': "r_shake256_squeeze_loop s1 ?dat sz (copied + n)
          = Some (s', take (copied + n) ?dat @ shake_stream (sk_lanes s1) (sk_squeeze_pos s1) (sz - (copied + n)) @ drop sz ?dat)"
        "(sk_lanes s', sk_squeeze_pos s') = shake_after (sk_lanes s1) (sk_squeeze_pos s1) (sz - (copied + n))"
      using ok1 ld less.prems(2) by auto
    have eq: "sz - copied = n + (sz - (copied + n))" using n by linarith
    have st: "shake_stream ?l ?p (sz - copied) = shake_stream ?l ?p n @ shake_stream (sk_lanes s1) (sk_squeeze_pos s1) (sz - (copied + n))"
      "shake_after ?l ?p (sz - copied) = shake_after (sk_lanes s1) (sk_squeeze_pos s1) (sz - (copied + n))"
      unfolding eq shake_stream_add shake_after_add s1 [symmetric] by simp_all
    have d: "take (copied + n) ?dat = take copied dat @ shake_stream ?l ?p n" "drop sz ?dat = drop sz dat"
      using n less.prems by simp_all
    have "r_shake256_squeeze_loop s dat sz copied = r_shake256_squeeze_loop s1 ?dat sz (copied + n)"
      using True cp nn by (subst r_shake256_squeeze_loop.simps) (simp add: Let_def s1_def)
    then show ?thesis using s' st unfolding d by simp
  qed
qed

lemma r_shake256_squeeze_stream:
  assumes "sz \<le> length dat" "sk_squeeze_pos s < 136" "length (sk_lanes s) = 25"
  shows "\<exists>s'. r_shake256_squeeze s dat sz = Some (True, s', shake_stream (sk_lanes s) (sk_squeeze_pos s) sz @ drop sz dat) \<and>
    (sk_lanes s', sk_squeeze_pos s') = shake_after (sk_lanes s) (sk_squeeze_pos s) sz"
  using squeeze_loop [of 0 sz dat s] assms by (auto simp: r_shake256_squeeze_def)

end
