(* ===== verification/RMsgDigest.thy ===== *)
theory RMsgDigest
  imports RMdHash RShake
begin

text \<open>
  The digest objects of \<^verbatim>\<open>rlib/crypto/rmsgdigest.c\<close>: the table of functions every constructor fills in,
  the dispatch through it, and what a digest computes from the data it is given in any number of
  pieces.  The memory a constructor allocates holds arbitrary contents; a function that gets the
  state of another algorithm does not return.
\<close>

section \<open>Types and sizes\<close>

datatype RMsgDigestType =
    R_MSG_DIGEST_TYPE_NONE
  | R_MSG_DIGEST_TYPE_MD2
  | R_MSG_DIGEST_TYPE_MD4
  | R_MSG_DIGEST_TYPE_MD5
  | R_MSG_DIGEST_TYPE_SHA1
  | R_MSG_DIGEST_TYPE_SHA224
  | R_MSG_DIGEST_TYPE_SHA256
  | R_MSG_DIGEST_TYPE_SHA384
  | R_MSG_DIGEST_TYPE_SHA512
  | R_MSG_DIGEST_TYPE_SHAKE256

fun r_msg_digest_type_size :: "RMsgDigestType \<Rightarrow> nat" where
  "r_msg_digest_type_size R_MSG_DIGEST_TYPE_MD2 = 16"
| "r_msg_digest_type_size R_MSG_DIGEST_TYPE_MD4 = 16"
| "r_msg_digest_type_size R_MSG_DIGEST_TYPE_MD5 = 16"
| "r_msg_digest_type_size R_MSG_DIGEST_TYPE_SHA1 = 20"
| "r_msg_digest_type_size R_MSG_DIGEST_TYPE_SHA224 = 28"
| "r_msg_digest_type_size R_MSG_DIGEST_TYPE_SHA256 = 32"
| "r_msg_digest_type_size R_MSG_DIGEST_TYPE_SHA384 = 48"
| "r_msg_digest_type_size R_MSG_DIGEST_TYPE_SHA512 = 64"
| "r_msg_digest_type_size R_MSG_DIGEST_TYPE_SHAKE256 = 0"
| "r_msg_digest_type_size R_MSG_DIGEST_TYPE_NONE = 0"

fun r_msg_digest_type_blocksize :: "RMsgDigestType \<Rightarrow> nat" where
  "r_msg_digest_type_blocksize R_MSG_DIGEST_TYPE_MD2 = 16"
| "r_msg_digest_type_blocksize R_MSG_DIGEST_TYPE_MD4 = 64"
| "r_msg_digest_type_blocksize R_MSG_DIGEST_TYPE_MD5 = 64"
| "r_msg_digest_type_blocksize R_MSG_DIGEST_TYPE_SHA1 = 64"
| "r_msg_digest_type_blocksize R_MSG_DIGEST_TYPE_SHA224 = 64"
| "r_msg_digest_type_blocksize R_MSG_DIGEST_TYPE_SHA256 = 64"
| "r_msg_digest_type_blocksize R_MSG_DIGEST_TYPE_SHA384 = 128"
| "r_msg_digest_type_blocksize R_MSG_DIGEST_TYPE_SHA512 = 128"
| "r_msg_digest_type_blocksize R_MSG_DIGEST_TYPE_SHAKE256 = 136"
| "r_msg_digest_type_blocksize R_MSG_DIGEST_TYPE_NONE = 0"

fun r_msg_digest_type_string :: "RMsgDigestType \<Rightarrow> string option" where
  "r_msg_digest_type_string R_MSG_DIGEST_TYPE_MD2 = Some ''md2''"
| "r_msg_digest_type_string R_MSG_DIGEST_TYPE_MD4 = Some ''md4''"
| "r_msg_digest_type_string R_MSG_DIGEST_TYPE_MD5 = Some ''md5''"
| "r_msg_digest_type_string R_MSG_DIGEST_TYPE_SHA1 = Some ''sha-1''"
| "r_msg_digest_type_string R_MSG_DIGEST_TYPE_SHA224 = Some ''sha-224''"
| "r_msg_digest_type_string R_MSG_DIGEST_TYPE_SHA256 = Some ''sha-256''"
| "r_msg_digest_type_string R_MSG_DIGEST_TYPE_SHA384 = Some ''sha-384''"
| "r_msg_digest_type_string R_MSG_DIGEST_TYPE_SHA512 = Some ''sha-512''"
| "r_msg_digest_type_string R_MSG_DIGEST_TYPE_SHAKE256 = Some ''shake256''"
| "r_msg_digest_type_string R_MSG_DIGEST_TYPE_NONE = None"

section \<open>Digest objects\<close>

text \<open>The state behind the header, by algorithm.\<close>

datatype md_ctx =
    Ctx_md2 RMd2
  | Ctx_md4 RMd4
  | Ctx_md5 RMd5
  | Ctx_sha1 RSha1
  | Ctx_sha256 RSha256
  | Ctx_sha512 RSha512
  | Ctx_shake256 RShake256

type_synonym md_get_result = "(bool \<times> ruint8 list option \<times> nat option) option"

record RMsgDigest =
  dg_type :: RMsgDigestType
  dg_is_final :: bool
  dg_blocksize :: nat
  dg_init :: "md_ctx \<Rightarrow> md_ctx option"
  dg_final :: "md_ctx \<Rightarrow> (bool \<times> md_ctx) option"
  dg_update :: "md_ctx \<Rightarrow> ruint8 list option \<Rightarrow> nat \<Rightarrow> (bool \<times> md_ctx) option"
  dg_get :: "(md_ctx \<Rightarrow> ruint8 list option \<Rightarrow> nat \<Rightarrow> md_get_result) option"
  dg_squeeze :: "(md_ctx \<Rightarrow> ruint8 list \<Rightarrow> nat \<Rightarrow> (bool \<times> md_ctx \<times> ruint8 list) option) option"
  dg_ctx :: md_ctx

text \<open>The casts from the header to the state.\<close>

definition md2_of :: "md_ctx \<Rightarrow> RMd2 option" where
  "md2_of ctx = (case ctx of Ctx_md2 s \<Rightarrow> Some s | _ \<Rightarrow> None)"

definition md4_of :: "md_ctx \<Rightarrow> RMd4 option" where
  "md4_of ctx = (case ctx of Ctx_md4 s \<Rightarrow> Some s | _ \<Rightarrow> None)"

definition md5_of :: "md_ctx \<Rightarrow> RMd5 option" where
  "md5_of ctx = (case ctx of Ctx_md5 s \<Rightarrow> Some s | _ \<Rightarrow> None)"

definition sha1_of :: "md_ctx \<Rightarrow> RSha1 option" where
  "sha1_of ctx = (case ctx of Ctx_sha1 s \<Rightarrow> Some s | _ \<Rightarrow> None)"

definition sha256_of :: "md_ctx \<Rightarrow> RSha256 option" where
  "sha256_of ctx = (case ctx of Ctx_sha256 s \<Rightarrow> Some s | _ \<Rightarrow> None)"

definition sha512_of :: "md_ctx \<Rightarrow> RSha512 option" where
  "sha512_of ctx = (case ctx of Ctx_sha512 s \<Rightarrow> Some s | _ \<Rightarrow> None)"

definition shake256_of :: "md_ctx \<Rightarrow> RShake256 option" where
  "shake256_of ctx = (case ctx of Ctx_shake256 s \<Rightarrow> Some s | _ \<Rightarrow> None)"

text \<open>What every constructor of a digest of fixed size sets, with its own functions.\<close>

definition digest_record ::
  "RMsgDigestType \<Rightarrow> nat \<Rightarrow> ('s \<Rightarrow> md_ctx) \<Rightarrow> (md_ctx \<Rightarrow> 's option) \<Rightarrow> ('s \<Rightarrow> 's) \<Rightarrow> ('s \<Rightarrow> (bool \<times> 's) option)
   \<Rightarrow> ('s option \<Rightarrow> ruint8 list option \<Rightarrow> nat \<Rightarrow> (bool \<times> 's option) option)
   \<Rightarrow> ('s \<Rightarrow> ruint8 list option \<Rightarrow> nat \<Rightarrow> md_get_result) \<Rightarrow> md_ctx \<Rightarrow> RMsgDigest" where
  "digest_record ty bs con of_ctx ini fin upd get ctx =
     \<lparr>dg_type = ty, dg_is_final = False, dg_blocksize = bs,
      dg_init = (\<lambda>ctx. do { s \<leftarrow> of_ctx ctx; Some (con (ini s)) }),
      dg_final = (\<lambda>ctx. do { s \<leftarrow> of_ctx ctx; (r, s) \<leftarrow> fin s; Some (r, con s) }),
      dg_update = (\<lambda>ctx dat sz. do { s \<leftarrow> of_ctx ctx; (r, s) \<leftarrow> upd (Some s) dat sz; s \<leftarrow> s; Some (r, con s) }),
      dg_get = Some (\<lambda>ctx dat sz. do { s \<leftarrow> of_ctx ctx; get s dat sz }),
      dg_squeeze = None, dg_ctx = ctx\<rparr>"

text \<open>Allocation and the call of the init function.  \<open>mem\<close> is the allocated memory, if there is any.\<close>

definition digest_alloc :: "(md_ctx \<Rightarrow> RMsgDigest) \<Rightarrow> md_ctx option \<Rightarrow> RMsgDigest option option" where
  "digest_alloc rec mem =
     (case mem of
        None \<Rightarrow> Some None
      | Some ctx \<Rightarrow> do {
          let md = rec ctx;
          ctx \<leftarrow> dg_init md (dg_ctx md);
          Some (Some (md\<lparr>dg_ctx := ctx\<rparr>))
        })"

definition md2_digest :: "md_ctx \<Rightarrow> RMsgDigest" where
  "md2_digest = digest_record R_MSG_DIGEST_TYPE_MD2 16 Ctx_md2 md2_of r_md2_init r_md2_final r_md2_update r_md2_get"

definition md4_digest :: "md_ctx \<Rightarrow> RMsgDigest" where
  "md4_digest = digest_record R_MSG_DIGEST_TYPE_MD4 64 Ctx_md4 md4_of r_md4_init r_md4_final r_md4_update r_md4_get"

definition md5_digest :: "md_ctx \<Rightarrow> RMsgDigest" where
  "md5_digest = digest_record R_MSG_DIGEST_TYPE_MD5 64 Ctx_md5 md5_of r_md5_init r_md5_final r_md5_update r_md5_get"

definition sha1_digest :: "md_ctx \<Rightarrow> RMsgDigest" where
  "sha1_digest = digest_record R_MSG_DIGEST_TYPE_SHA1 64 Ctx_sha1 sha1_of r_sha1_init r_sha1_final r_sha1_update r_sha1_get"

definition sha224_digest :: "md_ctx \<Rightarrow> RMsgDigest" where
  "sha224_digest = digest_record R_MSG_DIGEST_TYPE_SHA224 64 Ctx_sha256 sha256_of r_sha224_init r_sha256_final r_sha256_update r_sha224_get"

definition sha256_digest :: "md_ctx \<Rightarrow> RMsgDigest" where
  "sha256_digest = digest_record R_MSG_DIGEST_TYPE_SHA256 64 Ctx_sha256 sha256_of r_sha256_init r_sha256_final r_sha256_update r_sha256_get"

definition sha384_digest :: "md_ctx \<Rightarrow> RMsgDigest" where
  "sha384_digest = digest_record R_MSG_DIGEST_TYPE_SHA384 128 Ctx_sha512 sha512_of r_sha384_init r_sha512_final r_sha512_update r_sha384_get"

definition sha512_digest :: "md_ctx \<Rightarrow> RMsgDigest" where
  "sha512_digest = digest_record R_MSG_DIGEST_TYPE_SHA512 128 Ctx_sha512 sha512_of r_sha512_init r_sha512_final r_sha512_update r_sha512_get"

definition shake256_digest :: "md_ctx \<Rightarrow> RMsgDigest" where
  "shake256_digest ctx =
     \<lparr>dg_type = R_MSG_DIGEST_TYPE_SHAKE256, dg_is_final = False, dg_blocksize = 136,
      dg_init = (\<lambda>ctx. do { s \<leftarrow> shake256_of ctx; Some (Ctx_shake256 (r_shake256_init s)) }),
      dg_final = (\<lambda>ctx. do { s \<leftarrow> shake256_of ctx; (r, s) \<leftarrow> r_shake256_final s; Some (r, Ctx_shake256 s) }),
      dg_update = (\<lambda>ctx dat sz. do { s \<leftarrow> shake256_of ctx; (r, s) \<leftarrow> r_shake256_update s dat sz; Some (r, Ctx_shake256 s) }),
      dg_get = None,
      dg_squeeze = Some (\<lambda>ctx dat sz. do { s \<leftarrow> shake256_of ctx; (r, s, dat) \<leftarrow> r_shake256_squeeze s dat sz; Some (r, Ctx_shake256 s, dat) }),
      dg_ctx = ctx\<rparr>"

definition r_msg_digest_new_md2 :: "md_ctx option \<Rightarrow> RMsgDigest option option" where
  "r_msg_digest_new_md2 mem = digest_alloc md2_digest mem"

definition r_msg_digest_new_md4 :: "md_ctx option \<Rightarrow> RMsgDigest option option" where
  "r_msg_digest_new_md4 mem = digest_alloc md4_digest mem"

definition r_msg_digest_new_md5 :: "md_ctx option \<Rightarrow> RMsgDigest option option" where
  "r_msg_digest_new_md5 mem = digest_alloc md5_digest mem"

definition r_msg_digest_new_sha1 :: "md_ctx option \<Rightarrow> RMsgDigest option option" where
  "r_msg_digest_new_sha1 mem = digest_alloc sha1_digest mem"

definition r_msg_digest_new_sha224 :: "md_ctx option \<Rightarrow> RMsgDigest option option" where
  "r_msg_digest_new_sha224 mem = digest_alloc sha224_digest mem"

definition r_msg_digest_new_sha256 :: "md_ctx option \<Rightarrow> RMsgDigest option option" where
  "r_msg_digest_new_sha256 mem = digest_alloc sha256_digest mem"

definition r_msg_digest_new_sha384 :: "md_ctx option \<Rightarrow> RMsgDigest option option" where
  "r_msg_digest_new_sha384 mem = digest_alloc sha384_digest mem"

definition r_msg_digest_new_sha512 :: "md_ctx option \<Rightarrow> RMsgDigest option option" where
  "r_msg_digest_new_sha512 mem = digest_alloc sha512_digest mem"

definition r_msg_digest_new_shake256 :: "md_ctx option \<Rightarrow> RMsgDigest option option" where
  "r_msg_digest_new_shake256 mem = digest_alloc shake256_digest mem"

fun r_msg_digest_new :: "md_ctx option \<Rightarrow> RMsgDigestType \<Rightarrow> RMsgDigest option option" where
  "r_msg_digest_new mem R_MSG_DIGEST_TYPE_MD2 = r_msg_digest_new_md2 mem"
| "r_msg_digest_new mem R_MSG_DIGEST_TYPE_MD4 = r_msg_digest_new_md4 mem"
| "r_msg_digest_new mem R_MSG_DIGEST_TYPE_MD5 = r_msg_digest_new_md5 mem"
| "r_msg_digest_new mem R_MSG_DIGEST_TYPE_SHA1 = r_msg_digest_new_sha1 mem"
| "r_msg_digest_new mem R_MSG_DIGEST_TYPE_SHA224 = r_msg_digest_new_sha224 mem"
| "r_msg_digest_new mem R_MSG_DIGEST_TYPE_SHA256 = r_msg_digest_new_sha256 mem"
| "r_msg_digest_new mem R_MSG_DIGEST_TYPE_SHA384 = r_msg_digest_new_sha384 mem"
| "r_msg_digest_new mem R_MSG_DIGEST_TYPE_SHA512 = r_msg_digest_new_sha512 mem"
| "r_msg_digest_new mem R_MSG_DIGEST_TYPE_SHAKE256 = r_msg_digest_new_shake256 mem"
| "r_msg_digest_new mem R_MSG_DIGEST_TYPE_NONE = Some None"

section \<open>The operations\<close>

definition r_msg_digest_size :: "RMsgDigest \<Rightarrow> nat" where
  "r_msg_digest_size md = r_msg_digest_type_size (dg_type md)"

definition r_msg_digest_blocksize :: "RMsgDigest \<Rightarrow> nat" where
  "r_msg_digest_blocksize md = dg_blocksize md"

definition r_msg_digest_reset :: "RMsgDigest \<Rightarrow> RMsgDigest option" where
  "r_msg_digest_reset md = do {
     ctx \<leftarrow> dg_init md (dg_ctx md);
     Some (md\<lparr>dg_is_final := False, dg_ctx := ctx\<rparr>)
   }"

definition r_msg_digest_update :: "RMsgDigest \<Rightarrow> ruint8 list option \<Rightarrow> nat \<Rightarrow> (bool \<times> RMsgDigest) option" where
  "r_msg_digest_update md dat sz =
     (if \<not> dg_is_final md then do {
        (r, ctx) \<leftarrow> dg_update md (dg_ctx md) dat sz;
        Some (r, md\<lparr>dg_ctx := ctx\<rparr>)
      }
      else Some (False, md))"

definition r_msg_digest_finish :: "RMsgDigest \<Rightarrow> (bool \<times> RMsgDigest) option" where
  "r_msg_digest_finish md =
     (if \<not> dg_is_final md then do {
        (r, ctx) \<leftarrow> dg_final md (dg_ctx md);
        Some (r, md\<lparr>dg_is_final := r, dg_ctx := ctx\<rparr>)
      }
      else Some (True, md))"

definition r_msg_digest_squeeze ::
  "RMsgDigest option \<Rightarrow> ruint8 list option \<Rightarrow> nat \<Rightarrow> (bool \<times> RMsgDigest option \<times> ruint8 list option) option" where
  "r_msg_digest_squeeze pmd dat sz =
     (case (pmd, dat) of
        (Some md, Some buf) \<Rightarrow>
          (case dg_squeeze md of
             None \<Rightarrow> Some (False, pmd, dat)
           | Some squeeze \<Rightarrow> do {
               (_, md) \<leftarrow> r_msg_digest_finish md;
               if dg_is_final md then do {
                 (r, ctx, buf) \<leftarrow> squeeze (dg_ctx md) buf sz;
                 Some (r, Some (md\<lparr>dg_ctx := ctx\<rparr>), Some buf)
               }
               else Some (False, Some md, dat)
             })
      | _ \<Rightarrow> Some (False, pmd, dat))"

text \<open>A digest that is not final is finished in a copy.\<close>

definition r_msg_digest_get_data :: "RMsgDigest \<Rightarrow> ruint8 list option \<Rightarrow> nat \<Rightarrow> md_get_result" where
  "r_msg_digest_get_data md dat sz =
     (if dg_squeeze md \<noteq> None then Some (False, dat, None)
      else if \<not> dg_is_final md then do {
        (_, h) \<leftarrow> r_msg_digest_finish md;
        get \<leftarrow> dg_get md;
        get (dg_ctx h) dat sz
      }
      else do {
        get \<leftarrow> dg_get md;
        get (dg_ctx md) dat sz
      })"

section \<open>The standard hashes\<close>

definition md_iv :: "ruint32 list" where
  "md_iv = [0x67452301, 0xefcdab89, 0x98badcfe, 0x10325476]"

definition sha1_iv :: "ruint32 list" where
  "sha1_iv = [0x67452301, 0xefcdab89, 0x98badcfe, 0x10325476, 0xc3d2e1f0]"

definition sha224_iv :: "ruint32 list" where
  "sha224_iv = [0xc1059ed8, 0x367cd507, 0x3070dd17, 0xf70e5939, 0xffc00b31, 0x68581511, 0x64f98fa7, 0xbefa4fa4]"

definition sha256_iv :: "ruint32 list" where
  "sha256_iv = [0x6a09e667, 0xbb67ae85, 0x3c6ef372, 0xa54ff53a, 0x510e527f, 0x9b05688c, 0x1f83d9ab, 0x5be0cd19]"

definition sha384_iv :: "ruint64 list" where
  "sha384_iv = [0xcbbb9d5dc1059ed8, 0x629a292a367cd507, 0x9159015a3070dd17, 0x152fecd8f70e5939,
     0x67332667ffc00b31, 0x8eb44a8768581511, 0xdb0c2e0d64f98fa7, 0x47b5481dbefa4fa4]"

definition sha512_iv :: "ruint64 list" where
  "sha512_iv = [0x6a09e667f3bcc908, 0xbb67ae8584caa73b, 0x3c6ef372fe94f82b, 0xa54ff53a5f1d36f1,
     0x510e527fade682d1, 0x9b05688c2b3e6c1f, 0x1f83d9abfb41bd6b, 0x5be0cd19137e2179]"

text \<open>The words of a hash as bytes, and the first \<open>n\<close> words of it.\<close>

definition le32_bytes :: "nat \<Rightarrow> ruint32 list \<Rightarrow> ruint8 list" where
  "le32_bytes n ws = concat (map (le_bytes 4) (take n ws))"

definition be32_bytes :: "nat \<Rightarrow> ruint32 list \<Rightarrow> ruint8 list" where
  "be32_bytes n ws = concat (map (\<lambda>w. rev (le_bytes 4 w)) (take n ws))"

definition be64_bytes :: "nat \<Rightarrow> ruint64 list \<Rightarrow> ruint8 list" where
  "be64_bytes n ws = concat (map (\<lambda>w. rev (le_bytes 8 w)) (take n ws))"

fun digest :: "RMsgDigestType \<Rightarrow> ruint8 list \<Rightarrow> ruint8 list" where
  "digest R_MSG_DIGEST_TYPE_MD2 msg = md2_state (md2_hash \<lparr>md2_state = replicate 16 0, md2_checksum = replicate 16 0\<rparr> msg)"
| "digest R_MSG_DIGEST_TYPE_MD4 msg = le32_bytes 4 (md_hash 64 md4_compress md_iv bits_le64 msg)"
| "digest R_MSG_DIGEST_TYPE_MD5 msg = le32_bytes 4 (md_hash 64 md5_compress md_iv bits_le64 msg)"
| "digest R_MSG_DIGEST_TYPE_SHA1 msg = be32_bytes 5 (md_hash 64 sha1_compress sha1_iv bits_be64 msg)"
| "digest R_MSG_DIGEST_TYPE_SHA224 msg = be32_bytes 7 (md_hash 64 sha256_compress sha224_iv bits_be64 msg)"
| "digest R_MSG_DIGEST_TYPE_SHA256 msg = be32_bytes 8 (md_hash 64 sha256_compress sha256_iv bits_be64 msg)"
| "digest R_MSG_DIGEST_TYPE_SHA384 msg = be64_bytes 6 (md_hash 128 sha512_compress sha384_iv bits_be128 msg)"
| "digest R_MSG_DIGEST_TYPE_SHA512 msg = be64_bytes 8 (md_hash 128 sha512_compress sha512_iv bits_be128 msg)"
| "digest R_MSG_DIGEST_TYPE_SHAKE256 msg = []"
| "digest R_MSG_DIGEST_TYPE_NONE msg = []"

text \<open>
  The lengths at which the final block of SHA-384 and SHA-512 is not the one of the standard, and what
  is computed there.
\<close>

definition sha512_gap :: "RMsgDigestType \<Rightarrow> nat \<Rightarrow> bool" where
  "sha512_gap ty n \<longleftrightarrow> ty \<in> {R_MSG_DIGEST_TYPE_SHA384, R_MSG_DIGEST_TYPE_SHA512} \<and> 112 \<le> n mod 128 \<and> n mod 128 < 120"

fun digest_of :: "RMsgDigestType \<Rightarrow> ruint8 list \<Rightarrow> ruint8 list" where
  "digest_of R_MSG_DIGEST_TYPE_SHA384 msg = be64_bytes 6 (sha512_last sha384_iv msg)"
| "digest_of R_MSG_DIGEST_TYPE_SHA512 msg = be64_bytes 8 (sha512_last sha512_iv msg)"
| "digest_of ty msg = digest ty msg"

lemma digest_of_standard: "\<not> sha512_gap ty (length msg) \<Longrightarrow> digest_of ty msg = digest ty msg"
  by (cases ty) (auto simp: sha512_gap_def sha512_last_def Let_def)

section \<open>Writing a digest out\<close>

lemma concat_words_length: "(\<And>v. length (f v) = w) \<Longrightarrow> length (concat (map f vs)) = length vs * w"
  by (induction vs) simp_all

lemma store_words_bytes:
  assumes put: "\<And>d i v. i + w \<le> length d \<Longrightarrow> put d i v = Some (take i d @ f v @ drop (i + w) d)" and f: "\<And>v. length (f v) = w"
  shows "n \<le> k \<Longrightarrow> k * w \<le> length dat \<Longrightarrow> k \<le> length vars \<Longrightarrow>
    store_words put w vars [n..<k] dat = Some (take (n * w) dat @ concat (map f (drop n (take k vars))) @ drop (k * w) dat)"
proof (induction "k - n" arbitrary: n dat)
  case (Suc x)
  have n: "n < k" "n < length vars" using Suc.hyps(2) Suc.prems(3) by linarith+
  have le: "n * w + w \<le> k * w" using mult_le_mono1 [of "Suc n" k w] n(1) by simp
  let ?d = "take (n * w) dat @ f (vars ! n) @ drop (n * w + w) dat"
  have l: "length ?d = length dat" using le Suc.prems(2) f by simp
  have "put dat (n * w) (vars ! n) = Some ?d" using put [of "n * w" dat] le Suc.prems(2) by simp
  moreover have "store_words put w vars [Suc n..<k] ?d
      = Some (take (Suc n * w) ?d @ concat (map f (drop (Suc n) (take k vars))) @ drop (k * w) ?d)"
    using Suc.hyps(1) [of "Suc n" ?d] Suc.hyps(2) n(1) Suc.prems l by simp
  moreover have "take (Suc n * w) ?d = take (n * w) dat @ f (vars ! n)"
  proof -
    have "length (take (n * w) dat @ f (vars ! n)) = Suc n * w" using le Suc.prems(2) f by simp
    then show ?thesis using take_front [of "take (n * w) dat @ f (vars ! n)" "Suc n * w" "drop (n * w + w) dat"] by simp
  qed
  moreover have "drop (k * w) ?d = drop (k * w) dat" using le Suc.prems(2) f n(1) by simp
  moreover have "drop n (take k vars) = vars ! n # drop (Suc n) (take k vars)" using n Cons_nth_drop_Suc [of n "take k vars"] by simp
  ultimately show ?case using n(1) by (simp add: upt_conv_Cons)
qed simp


lemma md_get_bytes:
  assumes put: "\<And>d i v. i + w \<le> length d \<Longrightarrow> put d i v = Some (take i d @ f v @ drop (i + w) d)" and f: "\<And>v. length (f v) = w"
    and w: "0 < w" and "k \<le> length (md_vars s)" "k * w \<le> sz" "sz \<le> length buf"
  shows "md_get put w (k * w) s (Some buf) sz = Some (True, Some (concat (map f (take k (md_vars s))) @ drop (k * w) buf), Some (k * w))"
proof -
  have "store_words put w (md_vars s) [0..<k] buf = Some (take (0 * w) buf @ concat (map f (drop 0 (take k (md_vars s)))) @ drop (k * w) buf)"
    by (rule store_words_bytes [OF put f]) (use assms in simp_all)
  then show ?thesis using assms(5) w by (simp add: md_get_def)
qed

lemma md_get_short: "sz < n \<Longrightarrow> md_get put w n s dat sz = Some (False, dat, None)"
  by (cases dat) (simp_all add: md_get_def)

lemma md_get_le32:
  "k \<le> length (md_vars s) \<Longrightarrow> k * 4 \<le> sz \<Longrightarrow> sz \<le> length buf \<Longrightarrow>
   md_get r_store_le32 4 (k * 4) s (Some buf) sz = Some (True, Some (le32_bytes k (md_vars s) @ drop (k * 4) buf), Some (k * 4))"
  unfolding le32_bytes_def by (rule md_get_bytes) (simp_all add: r_store_le32_def)

lemma md_get_be32:
  "k \<le> length (md_vars s) \<Longrightarrow> k * 4 \<le> sz \<Longrightarrow> sz \<le> length buf \<Longrightarrow>
   md_get r_store_be32 4 (k * 4) s (Some buf) sz = Some (True, Some (be32_bytes k (md_vars s) @ drop (k * 4) buf), Some (k * 4))"
  unfolding be32_bytes_def by (rule md_get_bytes) (simp_all add: r_store_be32_def)

lemma md_get_be64:
  "k \<le> length (md_vars s) \<Longrightarrow> k * 8 \<le> sz \<Longrightarrow> sz \<le> length buf \<Longrightarrow>
   md_get r_store_be64 8 (k * 8) s (Some buf) sz = Some (True, Some (be64_bytes k (md_vars s) @ drop (k * 8) buf), Some (k * 8))"
  unfolding be64_bytes_def by (rule md_get_bytes) (simp_all add: r_store_be64_def)

lemma bytes_length:
  "k \<le> length v \<Longrightarrow> length (le32_bytes k v) = k * 4"
  "k \<le> length v \<Longrightarrow> length (be32_bytes k v) = k * 4"
  "k \<le> length u \<Longrightarrow> length (be64_bytes k u) = k * 8"
  by (simp_all add: le32_bytes_def be32_bytes_def be64_bytes_def concat_words_length)

section \<open>Digest objects as abstract machines\<close>

text \<open>
  The calls a client makes on a digest, with the bytes passed to an update and the buffer passed to
  \<^verbatim>\<open>r_msg_digest_get_data\<close>.  The result of a call is its return value and the buffer after it.
\<close>

datatype digest_op = Op_update "ruint8 list" | Op_finish | Op_reset | Op_get "ruint8 list"

type_synonym digest_result = "bool \<times> ruint8 list"

fun digest_call :: "RMsgDigest \<Rightarrow> digest_op \<Rightarrow> (digest_result \<times> RMsgDigest) option" where
  "digest_call md (Op_update d) = do { (r, md) \<leftarrow> r_msg_digest_update md (Some d) (length d); Some ((r, []), md) }"
| "digest_call md Op_finish = do { (r, md) \<leftarrow> r_msg_digest_finish md; Some ((r, []), md) }"
| "digest_call md Op_reset = do { md \<leftarrow> r_msg_digest_reset md; Some ((True, []), md) }"
| "digest_call md (Op_get buf) = do { (r, dat, _) \<leftarrow> r_msg_digest_get_data md (Some buf) (length buf); dat \<leftarrow> dat; Some ((r, dat), md) }"

fun digest_calls :: "RMsgDigest \<Rightarrow> digest_op list \<Rightarrow> digest_result list option" where
  "digest_calls md [] = Some []"
| "digest_calls md (c # cs) = do { (r, md) \<leftarrow> digest_call md c; rs \<leftarrow> digest_calls md cs; Some (r # rs) }"

text \<open>The specification: the bytes given so far, whether they are closed, and a hash function.\<close>

fun hash_call :: "(ruint8 list \<Rightarrow> ruint8 list) \<Rightarrow> bool \<times> ruint8 list \<Rightarrow> digest_op \<Rightarrow> digest_result \<times> bool \<times> ruint8 list" where
  "hash_call h (closed, msg) (Op_update d) = (if closed then ((False, []), True, msg) else ((True, []), False, msg @ d))"
| "hash_call h (closed, msg) Op_finish = ((True, []), True, msg)"
| "hash_call h (closed, msg) Op_reset = ((True, []), False, [])"
| "hash_call h (closed, msg) (Op_get buf) =
     ((if length buf < length (h msg) then (False, buf) else (True, h msg @ drop (length (h msg)) buf)), closed, msg)"

fun hash_calls :: "(ruint8 list \<Rightarrow> ruint8 list) \<Rightarrow> bool \<times> ruint8 list \<Rightarrow> digest_op list \<Rightarrow> digest_result list" where
  "hash_calls h st [] = []"
| "hash_calls h st (c # cs) = (case hash_call h st c of (r, st) \<Rightarrow> r # hash_calls h st cs)"

text \<open>The sizes a call can be given.\<close>

fun op_fits :: "digest_op \<Rightarrow> bool" where
  "op_fits (Op_update d) \<longleftrightarrow> length d < 2 ^ 64"
| "op_fits _ \<longleftrightarrow> True"

text \<open>
  What the functions of one algorithm promise: \<open>raw\<close> states are those that can be initialised, \<open>holds\<close>
  relates a state to the bytes it has absorbed, and \<open>out\<close> is the hash.
\<close>

locale fixed_digest =
  fixes ty :: RMsgDigestType and bs :: nat and con :: "'s \<Rightarrow> md_ctx" and of_ctx :: "md_ctx \<Rightarrow> 's option"
    and ini :: "'s \<Rightarrow> 's" and fin :: "'s \<Rightarrow> (bool \<times> 's) option"
    and upd :: "'s option \<Rightarrow> ruint8 list option \<Rightarrow> nat \<Rightarrow> (bool \<times> 's option) option"
    and get :: "'s \<Rightarrow> ruint8 list option \<Rightarrow> nat \<Rightarrow> md_get_result"
    and raw :: "'s \<Rightarrow> bool" and holds :: "'s \<Rightarrow> ruint8 list \<Rightarrow> bool" and out :: "ruint8 list \<Rightarrow> ruint8 list"
  assumes of_con: "of_ctx (con s) = Some s"
    and ini_holds: "raw s \<Longrightarrow> holds (ini s) []"
    and holds_raw: "holds s msg \<Longrightarrow> raw s"
    and upd_holds: "holds s msg \<Longrightarrow> sz \<le> length dat \<Longrightarrow> sz < 2 ^ 64 \<Longrightarrow>
      \<exists>s'. upd (Some s) (Some dat) sz = Some (True, Some s') \<and> holds s' (msg @ take sz dat)"
    and fin_get: "holds s msg \<Longrightarrow> \<exists>s'. fin s = Some (True, s') \<and> raw s' \<and>
      (\<forall>buf sz. length (out msg) \<le> sz \<and> sz \<le> length buf \<longrightarrow>
        get s' (Some buf) sz = Some (True, Some (out msg @ drop (length (out msg)) buf), Some (length (out msg)))) \<and>
      (\<forall>buf sz. sz < length (out msg) \<longrightarrow> get s' (Some buf) sz = Some (False, Some buf, None))"
begin

definition obj :: "'s \<Rightarrow> RMsgDigest" where
  "obj s = digest_record ty bs con of_ctx ini fin upd get (con s)"

definition gets :: "'s \<Rightarrow> ruint8 list \<Rightarrow> bool" where
  "gets s msg \<longleftrightarrow>
     (\<forall>buf sz. length (out msg) \<le> sz \<and> sz \<le> length buf \<longrightarrow>
        get s (Some buf) sz = Some (True, Some (out msg @ drop (length (out msg)) buf), Some (length (out msg)))) \<and>
     (\<forall>buf sz. sz < length (out msg) \<longrightarrow> get s (Some buf) sz = Some (False, Some buf, None))"

definition sim :: "RMsgDigest \<Rightarrow> bool \<times> ruint8 list \<Rightarrow> bool" where
  "sim md st \<longleftrightarrow> (if fst st then \<exists>s. md = obj s\<lparr>dg_is_final := True\<rparr> \<and> raw s \<and> gets s (snd st)
     else \<exists>s. md = obj s \<and> holds s (snd st))"

lemma new_sim: "raw s \<Longrightarrow> \<exists>md. digest_alloc (digest_record ty bs con of_ctx ini fin upd get) (Some (con s)) = Some (Some md) \<and> sim md (False, [])"
  using ini_holds [of s] by (auto simp: digest_alloc_def digest_record_def of_con sim_def obj_def)

lemma sim_header: "sim md st \<Longrightarrow> dg_type md = ty \<and> dg_blocksize md = bs"
  by (auto simp: sim_def obj_def digest_record_def split: if_splits)

lemma obj_final:
  assumes "holds s msg"
  obtains s' where "fin s = Some (True, s')" "raw s'" "gets s' msg"
  using fin_get [OF assms] unfolding gets_def by blast

lemma sim_update:
  assumes "sim md (False, msg)" "sz \<le> length dat" "sz < 2 ^ 64"
  shows "\<exists>md'. r_msg_digest_update md (Some dat) sz = Some (True, md') \<and> sim md' (False, msg @ take sz dat)"
proof -
  obtain s where s: "md = obj s" "holds s msg" using assms(1) by (auto simp: sim_def)
  then show ?thesis using upd_holds [OF s(2) assms(2,3)]
    by (auto simp: r_msg_digest_update_def obj_def digest_record_def of_con sim_def)
qed

lemma sim_update_final: "sim md (True, msg) \<Longrightarrow> r_msg_digest_update md dat sz = Some (False, md)"
  by (auto simp: sim_def r_msg_digest_update_def)

lemma sim_finish:
  assumes "sim md (closed, msg)"
  shows "\<exists>md'. r_msg_digest_finish md = Some (True, md') \<and> sim md' (True, msg)"
proof (cases closed)
  case True
  then show ?thesis using assms by (auto simp: sim_def r_msg_digest_finish_def)
next
  case False
  then obtain s where s: "md = obj s" "holds s msg" using assms by (auto simp: sim_def)
  obtain s' where "fin s = Some (True, s')" "raw s'" "gets s' msg" by (rule obj_final [OF s(2)])
  then show ?thesis using s(1) by (auto simp: r_msg_digest_finish_def obj_def digest_record_def of_con sim_def)
qed

lemma sim_reset:
  assumes "sim md st"
  shows "\<exists>md'. r_msg_digest_reset md = Some md' \<and> sim md' (False, [])"
proof -
  obtain s where s: "md = obj s \<or> md = obj s\<lparr>dg_is_final := True\<rparr>" "raw s"
    using assms holds_raw by (auto simp: sim_def split: if_splits)
  then show ?thesis using ini_holds [OF s(2)] by (auto simp: r_msg_digest_reset_def obj_def digest_record_def of_con sim_def)
qed

lemma sim_get:
  assumes "sim md (closed, msg)"
  shows "length (out msg) \<le> sz \<Longrightarrow> sz \<le> length buf \<Longrightarrow> r_msg_digest_get_data md (Some buf) sz
      = Some (True, Some (out msg @ drop (length (out msg)) buf), Some (length (out msg)))"
    and "sz < length (out msg) \<Longrightarrow> r_msg_digest_get_data md (Some buf) sz = Some (False, Some buf, None)"
proof -
  have "\<exists>s. gets s msg \<and> r_msg_digest_get_data md (Some buf) sz = get s (Some buf) sz"
  proof (cases closed)
    case True
    then show ?thesis using assms by (auto simp: sim_def r_msg_digest_get_data_def obj_def digest_record_def of_con)
  next
    case False
    then obtain s where s: "md = obj s" "holds s msg" using assms by (auto simp: sim_def)
    obtain s' where "fin s = Some (True, s')" "raw s'" "gets s' msg" by (rule obj_final [OF s(2)])
    then show ?thesis using s(1) by (auto simp: r_msg_digest_get_data_def r_msg_digest_finish_def obj_def digest_record_def of_con)
  qed
  then show "length (out msg) \<le> sz \<Longrightarrow> sz \<le> length buf \<Longrightarrow> r_msg_digest_get_data md (Some buf) sz
      = Some (True, Some (out msg @ drop (length (out msg)) buf), Some (length (out msg)))"
    and "sz < length (out msg) \<Longrightarrow> r_msg_digest_get_data md (Some buf) sz = Some (False, Some buf, None)"
    unfolding gets_def by auto
qed

lemma sim_call:
  assumes "sim md st" "op_fits c"
  shows "\<exists>md'. digest_call md c = Some (fst (hash_call out st c), md') \<and> sim md' (snd (hash_call out st c))"
proof (cases st)
  case (Pair closed msg)
  show ?thesis
  proof (cases c)
    case (Op_update d)
    then show ?thesis using assms Pair sim_update [of md msg "length d" d] sim_update_final [of md msg "Some d" "length d"]
      by (cases closed) auto
  next
    case Op_finish
    then show ?thesis using assms(1) Pair sim_finish [of md closed msg] by auto
  next
    case Op_reset
    then show ?thesis using assms(1) Pair sim_reset [of md st] by auto
  next
    case (Op_get buf)
    then show ?thesis using assms(1) Pair sim_get [of md closed msg "length buf" buf] by (cases "length buf < length (out msg)") auto
  qed
qed

lemma sim_calls:
  assumes "sim md st" "list_all op_fits cs"
  shows "digest_calls md cs = Some (hash_calls out st cs)"
  using assms
proof (induction cs arbitrary: md st)
  case (Cons c cs)
  obtain md' where "digest_call md c = Some (fst (hash_call out st c), md')" "sim md' (snd (hash_call out st c))"
    using sim_call [OF Cons.prems(1), of c] Cons.prems(2) by auto
  then show ?case using Cons.IH [of md' "snd (hash_call out st c)"] Cons.prems(2) by (auto simp: case_prod_beta)
qed simp

lemma new_calls:
  assumes "raw s" "list_all op_fits cs"
  shows "\<exists>md. digest_alloc (digest_record ty bs con of_ctx ini fin upd get) (Some (con s)) = Some (Some md) \<and>
    digest_calls md cs = Some (hash_calls out (False, []) cs)"
  using new_sim [OF assms(1)] sim_calls [OF _ assms(2)] by blast

end

section \<open>The algorithms\<close>

lemma absorbed_Nil: "length (md_buffer s) = bs \<Longrightarrow> md_vars s = iv \<Longrightarrow> ok iv \<Longrightarrow> md_bufsize s = 0 \<Longrightarrow> 0 < bs \<Longrightarrow> absorbed bs compress ok iv s []"
  by (simp add: absorbed_def)

definition md64_holds ::
  "('d \<Rightarrow> ruint8 list \<Rightarrow> 'd) \<Rightarrow> ('d \<Rightarrow> bool) \<Rightarrow> 'd \<Rightarrow> ('d, ruint64) md_state \<Rightarrow> ruint8 list \<Rightarrow> bool" where
  "md64_holds compress ok iv s msg \<longleftrightarrow> absorbed 64 compress ok iv s msg \<and> md_len s = of_nat (length msg)"

lemma md64_holds_buffer: "md64_holds compress ok iv s msg \<Longrightarrow> length (md_buffer s) = 64"
  by (simp add: md64_holds_def absorbed_def)

lemma md64_bits: "(\<lambda>n. le_bytes 8 (of_nat (8 * n) :: ruint64)) = bits_le64" "(\<lambda>n. rev (le_bytes 8 (of_nat (8 * n) :: ruint64))) = bits_be64"
  by (simp_all add: bits_le64_def bits_be64_def fun_eq_iff)

interpretation md2d: fixed_digest R_MSG_DIGEST_TYPE_MD2 16 Ctx_md2 md2_of r_md2_init r_md2_final r_md2_update r_md2_get
  "\<lambda>s. length (md_buffer s) = 16" "absorbed 16 md2_compress md2_ok \<lparr>md2_state = replicate 16 0, md2_checksum = replicate 16 0\<rparr>"
  "digest_of R_MSG_DIGEST_TYPE_MD2"
proof
  fix s :: RMd2 and msg dat :: "ruint8 list" and sz :: nat
  show "md2_of (Ctx_md2 s) = Some s" by (simp add: md2_of_def)
  show "absorbed 16 md2_compress md2_ok \<lparr>md2_state = replicate 16 0, md2_checksum = replicate 16 0\<rparr> (r_md2_init s) []"
    if "length (md_buffer s) = 16" by (rule absorbed_Nil) (use that in \<open>simp_all add: r_md2_init_def md2_ok_def\<close>)
  assume h: "absorbed 16 md2_compress md2_ok \<lparr>md2_state = replicate 16 0, md2_checksum = replicate 16 0\<rparr> s msg"
  show "length (md_buffer s) = 16" using h by (simp add: absorbed_def)
  show "\<exists>s'. r_md2_update (Some s) (Some dat) sz = Some (True, Some s') \<and>
      absorbed 16 md2_compress md2_ok \<lparr>md2_state = replicate 16 0, md2_checksum = replicate 16 0\<rparr> s' (msg @ take sz dat)"
    if "sz \<le> length dat" using md2.update_absorbs [OF h that, of False] by (auto simp: r_md2_update_def)
  obtain s' where s': "r_md2_final s = Some (True, s')" "length (md_buffer s') = 16" "digest_of R_MSG_DIGEST_TYPE_MD2 msg = md2_state (md_vars s')"
      "length (md2_state (md_vars s')) = 16"
    using r_md2_final_hash [OF h] by (auto simp: md2_ok_def)
  then show "\<exists>s'. r_md2_final s = Some (True, s') \<and> length (md_buffer s') = 16 \<and>
      (\<forall>buf sz. length (digest_of R_MSG_DIGEST_TYPE_MD2 msg) \<le> sz \<and> sz \<le> length buf \<longrightarrow>
        r_md2_get s' (Some buf) sz = Some (True, Some (digest_of R_MSG_DIGEST_TYPE_MD2 msg @ drop (length (digest_of R_MSG_DIGEST_TYPE_MD2 msg)) buf),
          Some (length (digest_of R_MSG_DIGEST_TYPE_MD2 msg)))) \<and>
      (\<forall>buf sz. sz < length (digest_of R_MSG_DIGEST_TYPE_MD2 msg) \<longrightarrow> r_md2_get s' (Some buf) sz = Some (False, Some buf, None))"
    by (intro exI [of _ s']) (auto simp: r_md2_get_def)
qed

text \<open>The laws of a digest with a block of 64 bytes, from what its functions do with the common ones.\<close>

lemma md64_fixed:
  assumes m: "md64 block compress ok lb"
    and con: "\<And>s. of_ctx (con s) = Some s"
    and ini: "\<And>s. ini s = s\<lparr>md_bufsize := 0, md_len := 0, md_vars := iv\<rparr>" "ok iv"
    and upd: "\<And>s dat sz. upd (Some s) (Some dat) sz
      = map_option (\<lambda>s. (True, Some s)) (md_update True 64 block (s\<lparr>md_len := md_len s + of_nat sz\<rparr>) dat sz)"
    and fin: "\<And>s. fin s = map_option (Pair True) (do {
        (s, ptr, own) \<leftarrow> md_final_block 64 block s;
        ptr \<leftarrow> memcpy ptr (64 - 8) (lb (push_bit 3 (md_len s))) 0 8;
        md_last_block block s ptr own
      })"
    and bytes: "\<And>v. ok v \<Longrightarrow> length (bytes v) = n"
    and get: "\<And>s buf sz. ok (md_vars s) \<Longrightarrow> n \<le> sz \<Longrightarrow> sz \<le> length buf \<Longrightarrow>
        get s (Some buf) sz = Some (True, Some (bytes (md_vars s) @ drop n buf), Some n)"
      "\<And>s buf sz. sz < n \<Longrightarrow> get s (Some buf) sz = Some (False, Some buf, None)"
    and out: "\<And>msg. out msg = bytes (md_hash 64 compress iv (\<lambda>n. lb (of_nat (8 * n))) msg)"
  shows "fixed_digest con of_ctx ini fin upd get (\<lambda>s. length (md_buffer s) = 64) (md64_holds compress ok iv) out"
proof
  fix s :: "('a, ruint64) md_state" and msg dat :: "ruint8 list" and sz :: nat
  show "of_ctx (con s) = Some s" by (rule con)
  show "md64_holds compress ok iv (ini s) []" if "length (md_buffer s) = 64"
    unfolding md64_holds_def using absorbed_Nil [of "ini s" 64 iv ok compress] that ini by simp
  assume h: "md64_holds compress ok iv s msg"
  then have a: "absorbed 64 compress ok iv s msg" "md_len s = of_nat (length msg)" by (simp_all add: md64_holds_def)
  show "length (md_buffer s) = 64" by (rule md64_holds_buffer [OF h])
  show "\<exists>s'. upd (Some s) (Some dat) sz = Some (True, Some s') \<and> md64_holds compress ok iv s' (msg @ take sz dat)"
    if "sz \<le> length dat" using md64.update64 [OF m a that] by (auto simp: upd md64_holds_def)
  obtain s' where s': "fin s = Some (True, s')" "length (md_buffer s') = 64" "ok (md_vars s')" "out msg = bytes (md_vars s')"
    using md64.final64 [OF m a] unfolding fin out by force
  then have "length (out msg) = n" using bytes by simp
  then show "\<exists>s'. fin s = Some (True, s') \<and> length (md_buffer s') = 64 \<and>
      (\<forall>buf sz. length (out msg) \<le> sz \<and> sz \<le> length buf \<longrightarrow>
        get s' (Some buf) sz = Some (True, Some (out msg @ drop (length (out msg)) buf), Some (length (out msg)))) \<and>
      (\<forall>buf sz. sz < length (out msg) \<longrightarrow> get s' (Some buf) sz = Some (False, Some buf, None))"
    using s' get by (intro exI [of _ s']) auto
qed

lemmas md64_calls = map_conv_bind_option comp_def Let_def case_prod_beta'

interpretation md4d: fixed_digest R_MSG_DIGEST_TYPE_MD4 64 Ctx_md4 md4_of r_md4_init r_md4_final r_md4_update r_md4_get
  "\<lambda>s. length (md_buffer s) = 64" "md64_holds md4_compress (\<lambda>v. length v = 4) md_iv" "digest_of R_MSG_DIGEST_TYPE_MD4"
  by (rule md64_fixed [OF md4.md64_axioms, where bytes = "le32_bytes 4" and n = 16])
    (simp_all add: md_get_le32 [of 4, simplified] md_get_short md4_of_def r_md4_init_def md_iv_def r_md4_update_def r_md4_final_def r_store_le64_def
      md64_calls r_md4_get_def bytes_length bits_le64_def [abs_def])

interpretation md5d: fixed_digest R_MSG_DIGEST_TYPE_MD5 64 Ctx_md5 md5_of r_md5_init r_md5_final r_md5_update r_md5_get
  "\<lambda>s. length (md_buffer s) = 64" "md64_holds md5_compress (\<lambda>v. length v = 4) md_iv" "digest_of R_MSG_DIGEST_TYPE_MD5"
  by (rule md64_fixed [OF md5.md64_axioms, where bytes = "le32_bytes 4" and n = 16])
    (simp_all add: md_get_le32 [of 4, simplified] md_get_short md5_of_def r_md5_init_def md_iv_def r_md5_update_def r_md5_final_def r_store_le64_def
      md64_calls r_md5_get_def bytes_length bits_le64_def [abs_def])

interpretation sha1d: fixed_digest R_MSG_DIGEST_TYPE_SHA1 64 Ctx_sha1 sha1_of r_sha1_init r_sha1_final r_sha1_update r_sha1_get
  "\<lambda>s. length (md_buffer s) = 64" "md64_holds sha1_compress (\<lambda>v. length v = 5) sha1_iv" "digest_of R_MSG_DIGEST_TYPE_SHA1"
  by (rule md64_fixed [OF sha1h.md64_axioms, where bytes = "be32_bytes 5" and n = 20])
    (simp_all add: md_get_be32 [of 5, simplified] md_get_short sha1_of_def r_sha1_init_def sha1_iv_def r_sha1_update_def r_sha1_final_def r_store_be64_def
      md64_calls r_sha1_get_def bytes_length bits_be64_def [abs_def])

interpretation sha224d: fixed_digest R_MSG_DIGEST_TYPE_SHA224 64 Ctx_sha256 sha256_of r_sha224_init r_sha256_final r_sha256_update r_sha224_get
  "\<lambda>s. length (md_buffer s) = 64" "md64_holds sha256_compress (\<lambda>v. length v = 8) sha224_iv" "digest_of R_MSG_DIGEST_TYPE_SHA224"
  by (rule md64_fixed [OF sha256h.md64_axioms, where bytes = "be32_bytes 7" and n = 28])
    (simp_all add: md_get_be32 [of 7, simplified] md_get_short sha256_of_def r_sha224_init_def sha224_iv_def r_sha256_update_def r_sha256_final_def r_store_be64_def
      md64_calls r_sha224_get_def bytes_length bits_be64_def [abs_def])

interpretation sha256d: fixed_digest R_MSG_DIGEST_TYPE_SHA256 64 Ctx_sha256 sha256_of r_sha256_init r_sha256_final r_sha256_update r_sha256_get
  "\<lambda>s. length (md_buffer s) = 64" "md64_holds sha256_compress (\<lambda>v. length v = 8) sha256_iv" "digest_of R_MSG_DIGEST_TYPE_SHA256"
  by (rule md64_fixed [OF sha256h.md64_axioms, where bytes = "be32_bytes 8" and n = 32])
    (simp_all add: md_get_be32 [of 8, simplified] md_get_short sha256_of_def r_sha256_init_def sha256_iv_def r_sha256_update_def r_sha256_final_def r_store_be64_def
      md64_calls r_sha256_get_def bytes_length bits_be64_def [abs_def])

lemma sha512_last_length: "length iv = 8 \<Longrightarrow> length (sha512_last iv msg) = 8"
proof -
  assume "length iv = 8"
  then have "length (foldl sha512_compress iv bs) = 8" for bs by (induction bs arbitrary: iv) (simp_all add: sha512_compress_def)
  then show ?thesis by (simp add: sha512_last_def md_hash_def Let_def)
qed

lemma r_sha512_update_absorbs:
  assumes "sha512_absorbed iv s msg" "sz \<le> length dat" "sz < 2 ^ 64"
  shows "\<exists>s'. r_sha512_update (Some s) (Some dat) sz = Some (True, Some s') \<and> sha512_absorbed iv s' (msg @ take sz dat)"
proof -
  let ?l = "len128 (length msg + sz)"
  have a: "absorbed 128 sha512_compress (\<lambda>v. length v = 8) iv (s\<lparr>md_len := ?l\<rparr>) msg" using assms(1) by (simp add: absorbed_def)
  have "r_sha512_update (Some s) (Some dat) sz
      = map_option (\<lambda>s. (True, Some s)) (md_update True 128 r_sha512_update_block (s\<lparr>md_len := ?l\<rparr>) dat sz)"
    using assms(1,3) len128_carry [OF assms(3), of "length msg"]
    by (simp add: r_sha512_update_def len128_def Let_def map_conv_bind_option comp_def)
  then show ?thesis using sha512h.update_absorbs [OF a assms(2), of True] assms(2) by auto
qed

lemma sha512_fixed:
  assumes ini: "\<And>s. ini s = s\<lparr>md_bufsize := 0, md_len := (0, 0), md_vars := iv\<rparr>" "length iv = 8" and k: "k \<le> 8"
    and get: "\<And>s dat sz. get s dat sz = md_get r_store_be64 8 (k * 8) s dat sz" and out: "\<And>msg. out msg = be64_bytes k (sha512_last iv msg)"
  shows "fixed_digest Ctx_sha512 sha512_of ini r_sha512_final r_sha512_update get
    (\<lambda>s. length (md_buffer s) = 128) (sha512_absorbed iv) out"
proof
  fix s :: RSha512 and msg dat :: "ruint8 list" and sz :: nat
  show "sha512_of (Ctx_sha512 s) = Some s" by (simp add: sha512_of_def)
  show "sha512_absorbed iv (ini s) []" if "length (md_buffer s) = 128"
    using absorbed_Nil [of "ini s" 128 iv "\<lambda>v. length v = 8" sha512_compress] that ini by (simp add: len128_def)
  assume h: "sha512_absorbed iv s msg"
  then show "length (md_buffer s) = 128" by (simp add: absorbed_def)
  show "\<exists>s'. r_sha512_update (Some s) (Some dat) sz = Some (True, Some s') \<and> sha512_absorbed iv s' (msg @ take sz dat)"
    if "sz \<le> length dat" "sz < 2 ^ 64" by (rule r_sha512_update_absorbs [OF h that])
  obtain s' where s': "r_sha512_final s = Some (True, s')" "length (md_buffer s') = 128" "md_vars s' = sha512_last iv msg"
    using r_sha512_final_last [OF h] by blast
  have l: "length (out msg) = k * 8" using k sha512_last_length [OF ini(2)] by (simp add: out bytes_length)
  show "\<exists>s'. r_sha512_final s = Some (True, s') \<and> length (md_buffer s') = 128 \<and>
      (\<forall>buf sz. length (out msg) \<le> sz \<and> sz \<le> length buf \<longrightarrow>
        get s' (Some buf) sz = Some (True, Some (out msg @ drop (length (out msg)) buf), Some (length (out msg)))) \<and>
      (\<forall>buf sz. sz < length (out msg) \<longrightarrow> get s' (Some buf) sz = Some (False, Some buf, None))"
    unfolding l get out
    by (intro exI [of _ s']) (use s' k sha512_last_length [OF ini(2)] md_get_be64 [of k s'] in \<open>auto simp: md_get_short bytes_length\<close>)
qed

interpretation sha384d: fixed_digest R_MSG_DIGEST_TYPE_SHA384 128 Ctx_sha512 sha512_of r_sha384_init r_sha512_final r_sha512_update r_sha384_get
  "\<lambda>s. length (md_buffer s) = 128" "sha512_absorbed sha384_iv" "digest_of R_MSG_DIGEST_TYPE_SHA384"
  by (rule sha512_fixed [where k = 6]) (simp_all add: r_sha384_init_def sha384_iv_def r_sha384_get_def)

interpretation sha512d: fixed_digest R_MSG_DIGEST_TYPE_SHA512 128 Ctx_sha512 sha512_of r_sha512_init r_sha512_final r_sha512_update r_sha512_get
  "\<lambda>s. length (md_buffer s) = 128" "sha512_absorbed sha512_iv" "digest_of R_MSG_DIGEST_TYPE_SHA512"
  by (rule sha512_fixed [where k = 8]) (simp_all add: r_sha512_init_def sha512_iv_def r_sha512_get_def)

section \<open>Digests of fixed size\<close>

text \<open>The memory an allocation for a type returns: a state of the algorithm, with a buffer of its size.\<close>

fun mem_fits :: "RMsgDigestType \<Rightarrow> md_ctx \<Rightarrow> bool" where
  "mem_fits R_MSG_DIGEST_TYPE_MD2 (Ctx_md2 s) \<longleftrightarrow> length (md_buffer s) = 16"
| "mem_fits R_MSG_DIGEST_TYPE_MD4 (Ctx_md4 s) \<longleftrightarrow> length (md_buffer s) = 64"
| "mem_fits R_MSG_DIGEST_TYPE_MD5 (Ctx_md5 s) \<longleftrightarrow> length (md_buffer s) = 64"
| "mem_fits R_MSG_DIGEST_TYPE_SHA1 (Ctx_sha1 s) \<longleftrightarrow> length (md_buffer s) = 64"
| "mem_fits R_MSG_DIGEST_TYPE_SHA224 (Ctx_sha256 s) \<longleftrightarrow> length (md_buffer s) = 64"
| "mem_fits R_MSG_DIGEST_TYPE_SHA256 (Ctx_sha256 s) \<longleftrightarrow> length (md_buffer s) = 64"
| "mem_fits R_MSG_DIGEST_TYPE_SHA384 (Ctx_sha512 s) \<longleftrightarrow> length (md_buffer s) = 128"
| "mem_fits R_MSG_DIGEST_TYPE_SHA512 (Ctx_sha512 s) \<longleftrightarrow> length (md_buffer s) = 128"
| "mem_fits R_MSG_DIGEST_TYPE_SHAKE256 (Ctx_shake256 s) \<longleftrightarrow> True"
| "mem_fits _ _ \<longleftrightarrow> False"

definition fixed_size :: "RMsgDigestType \<Rightarrow> bool" where
  "fixed_size ty \<longleftrightarrow> ty \<notin> {R_MSG_DIGEST_TYPE_NONE, R_MSG_DIGEST_TYPE_SHAKE256}"

text \<open>The relation between a digest of some type and the state of the specification.\<close>

fun digest_sim :: "RMsgDigestType \<Rightarrow> RMsgDigest \<Rightarrow> bool \<times> ruint8 list \<Rightarrow> bool" where
  "digest_sim R_MSG_DIGEST_TYPE_MD2 = md2d.sim"
| "digest_sim R_MSG_DIGEST_TYPE_MD4 = md4d.sim"
| "digest_sim R_MSG_DIGEST_TYPE_MD5 = md5d.sim"
| "digest_sim R_MSG_DIGEST_TYPE_SHA1 = sha1d.sim"
| "digest_sim R_MSG_DIGEST_TYPE_SHA224 = sha224d.sim"
| "digest_sim R_MSG_DIGEST_TYPE_SHA256 = sha256d.sim"
| "digest_sim R_MSG_DIGEST_TYPE_SHA384 = sha384d.sim"
| "digest_sim R_MSG_DIGEST_TYPE_SHA512 = sha512d.sim"
| "digest_sim _ = (\<lambda>_ _. False)"

lemmas fixed_records = md2_digest_def md4_digest_def md5_digest_def sha1_digest_def sha224_digest_def sha256_digest_def
  sha384_digest_def sha512_digest_def r_msg_digest_new_md2_def r_msg_digest_new_md4_def r_msg_digest_new_md5_def
  r_msg_digest_new_sha1_def r_msg_digest_new_sha224_def r_msg_digest_new_sha256_def r_msg_digest_new_sha384_def
  r_msg_digest_new_sha512_def

lemma digest_new_sim:
  assumes "mem_fits ty mem" "fixed_size ty"
  shows "\<exists>md. r_msg_digest_new (Some mem) ty = Some (Some md) \<and> digest_sim ty md (False, [])"
  by (cases "(ty, mem)" rule: mem_fits.cases)
    (use assms md2d.new_sim md4d.new_sim md5d.new_sim sha1d.new_sim sha224d.new_sim sha256d.new_sim sha384d.new_sim sha512d.new_sim
      in \<open>simp_all add: fixed_records fixed_size_def\<close>)

lemma digest_sim_fixed: "digest_sim ty md st \<Longrightarrow> fixed_size ty"
  by (cases ty) (simp_all add: fixed_size_def)

lemma digest_sim_calls:
  assumes "digest_sim ty md st" "list_all op_fits cs"
  shows "digest_calls md cs = Some (hash_calls (digest_of ty) st cs)"
  using assms md2d.sim_calls md4d.sim_calls md5d.sim_calls sha1d.sim_calls sha224d.sim_calls sha256d.sim_calls sha384d.sim_calls sha512d.sim_calls
  by (cases ty) simp_all

lemma digest_sim_update:
  assumes "digest_sim ty md (False, msg)" "sz \<le> length dat" "sz < 2 ^ 64"
  shows "\<exists>md'. r_msg_digest_update md (Some dat) sz = Some (True, md') \<and> digest_sim ty md' (False, msg @ take sz dat)"
  using assms md2d.sim_update md4d.sim_update md5d.sim_update sha1d.sim_update sha224d.sim_update sha256d.sim_update
    sha384d.sim_update sha512d.sim_update
  by (cases ty) simp_all

lemma digest_sim_header:
  assumes "digest_sim ty md st"
  shows "r_msg_digest_size md = r_msg_digest_type_size ty" "r_msg_digest_blocksize md = r_msg_digest_type_blocksize ty"
  using assms md2d.sim_header md4d.sim_header md5d.sim_header sha1d.sim_header sha224d.sim_header sha256d.sim_header
    sha384d.sim_header sha512d.sim_header
  by (cases ty; auto simp: r_msg_digest_size_def r_msg_digest_blocksize_def)+

lemma digest_sim_reset:
  assumes "digest_sim ty md st"
  shows "\<exists>md'. r_msg_digest_reset md = Some md' \<and> digest_sim ty md' (False, [])"
  using assms md2d.sim_reset md4d.sim_reset md5d.sim_reset sha1d.sim_reset sha224d.sim_reset sha256d.sim_reset
    sha384d.sim_reset sha512d.sim_reset
  by (cases ty) simp_all

lemma digest_sim_get:
  assumes "digest_sim ty md (closed, msg)" "length (digest_of ty msg) \<le> sz" "sz \<le> length buf"
  shows "r_msg_digest_get_data md (Some buf) sz
    = Some (True, Some (digest_of ty msg @ drop (length (digest_of ty msg)) buf), Some (length (digest_of ty msg)))"
  using assms md2d.sim_get(1) md4d.sim_get(1) md5d.sim_get(1) sha1d.sim_get(1) sha224d.sim_get(1) sha256d.sim_get(1)
    sha384d.sim_get(1) sha512d.sim_get(1)
  by (cases ty) simp_all

lemma md_compress_lengths:
  "length iv = 4 \<Longrightarrow> length (md_hash 64 md4_compress iv lb msg) = 4"
  "length iv = 4 \<Longrightarrow> length (md_hash 64 md5_compress iv lb msg) = 4"
  "length iv' = 5 \<Longrightarrow> length (md_hash 64 sha1_compress iv' lb msg) = 5"
  "length iv'' = 8 \<Longrightarrow> length (md_hash 64 sha256_compress iv'' lb msg) = 8"
proof -
  have f: "length iv = n \<Longrightarrow> (\<And>v b. length (f v b) = n) \<Longrightarrow> length (foldl f iv bs) = n"
    for f :: "ruint32 list \<Rightarrow> ruint8 list \<Rightarrow> ruint32 list" and iv n bs
    by (induction bs arbitrary: iv) simp_all
  show "length iv = 4 \<Longrightarrow> length (md_hash 64 md4_compress iv lb msg) = 4"
    "length iv = 4 \<Longrightarrow> length (md_hash 64 md5_compress iv lb msg) = 4"
    "length iv' = 5 \<Longrightarrow> length (md_hash 64 sha1_compress iv' lb msg) = 5"
    "length iv'' = 8 \<Longrightarrow> length (md_hash 64 sha256_compress iv'' lb msg) = 8"
    unfolding md_hash_def by (rule f; simp add: md4_compress_def md5_compress_def sha1_compress_def sha256_compress_def split: prod.splits)+
qed

lemma digest_of_length: "length (digest_of ty msg) = r_msg_digest_type_size ty"
proof (cases ty)
  case R_MSG_DIGEST_TYPE_MD2
  let ?iv = "\<lparr>md2_state = replicate 16 0, md2_checksum = replicate 16 0\<rparr>"
  let ?s = "\<lparr>md_vars = ?iv, md_len = (), md_buffer = replicate 16 0, md_bufsize = 0\<rparr>"
  have "absorbed 16 md2_compress md2_ok ?iv ?s []" by (rule absorbed_Nil) (simp_all add: md2_ok_def)
  then obtain s' :: RMd2 where "absorbed 16 md2_compress md2_ok ?iv s' msg" using md2.update_absorbs [of ?iv ?s "[]" "length msg" msg False] by auto
  then have "md2_ok (md2_hash ?iv msg)" using r_md2_final_hash by metis
  then show ?thesis using R_MSG_DIGEST_TYPE_MD2 by (simp add: md2_ok_def)
qed (simp_all add: bytes_length sha512_last_length md_compress_lengths md_iv_def sha1_iv_def sha224_iv_def sha256_iv_def sha384_iv_def sha512_iv_def)

text \<open>
  C34. A digest object of fixed size refines the abstract machine that remembers the bytes it was
  given: whatever the allocated memory held, the constructor returns an object on which any sequence
  of updates, finishes, resets and reads returns exactly what the machine returns.  Data can be given
  in any pieces, a read of an object that is not finished leaves it open, a finished object refuses
  updates until it is reset, and a buffer that is too short is refused and left alone.  The hash is
  the one of the standard, of the size the type has, save for SHA-384 and SHA-512 at the lengths of
  \<open>sha512_gap\<close>; for MD2, MD4 and MD5 the reference compresses a block with the rows of the code and is
  independent of it in the padding, the chaining and the output.
\<close>

theorem r_msg_digest_refines:
  assumes "fixed_size ty" "mem_fits ty mem" "list_all op_fits cs"
  shows "(\<exists>md. r_msg_digest_new (Some mem) ty = Some (Some md) \<and> digest_calls md cs = Some (hash_calls (digest_of ty) (False, []) cs) \<and>
      r_msg_digest_size md = r_msg_digest_type_size ty \<and> r_msg_digest_blocksize md = r_msg_digest_type_blocksize ty) \<and>
    (\<forall>msg. length (digest_of ty msg) = r_msg_digest_type_size ty) \<and>
    (\<forall>msg. \<not> sha512_gap ty (length msg) \<longrightarrow> digest_of ty msg = digest ty msg)"
proof -
  obtain md where md: "r_msg_digest_new (Some mem) ty = Some (Some md)" "digest_sim ty md (False, [])"
    using digest_new_sim [OF assms(2,1)] by blast
  then show ?thesis using digest_sim_calls [OF md(2) assms(3)] digest_sim_header [OF md(2)] digest_of_length digest_of_standard by simp
qed

theorem r_msg_digest_refines_witness:
  "\<exists>md. r_msg_digest_new (Some (Ctx_md5 \<lparr>md_vars = [], md_len = 7, md_buffer = replicate 64 3, md_bufsize = 9\<rparr>)) R_MSG_DIGEST_TYPE_MD5 = Some (Some md) \<and>
    digest_calls md [Op_update [97], Op_update [98, 99], Op_get [1], Op_finish, Op_update [100], Op_reset]
      = Some [(True, []), (True, []), (False, [1]), (True, []), (False, []), (True, [])]"
proof -
  let ?cs = "[Op_update [97], Op_update [98, 99], Op_get [1], Op_finish, Op_update [100], Op_reset]"
  have "length (digest_of R_MSG_DIGEST_TYPE_MD5 [97, 98, 99]) = 16"
    using r_msg_digest_refines [of R_MSG_DIGEST_TYPE_MD5 "Ctx_md5 \<lparr>md_vars = [], md_len = 7, md_buffer = replicate 64 3, md_bufsize = 9\<rparr>" "[]"]
    by (simp add: fixed_size_def)
  then show ?thesis
    using r_msg_digest_refines [of R_MSG_DIGEST_TYPE_MD5 "Ctx_md5 \<lparr>md_vars = [], md_len = 7, md_buffer = replicate 64 3, md_bufsize = 9\<rparr>" ?cs]
    by (auto simp: fixed_size_def)
qed

text \<open>
  C35. The final block of SHA-384 and SHA-512 loses message bytes: when a message has 113 to 119 bytes
  over whole blocks, the length is stored over the bytes from the 113th on and over the padding, so
  that two messages of the same length that differ in these bytes only have the same digest.
\<close>

theorem r_sha512_final_collides:
  assumes "ty = R_MSG_DIGEST_TYPE_SHA384 \<or> ty = R_MSG_DIGEST_TYPE_SHA512" "mem_fits ty mem"
    and "length pre mod 128 = 112" "length x = length y" "length y \<le> 7" "length pre + 7 < 2 ^ 64"
  shows "\<exists>md r. r_msg_digest_new (Some mem) ty = Some (Some md) \<and>
    digest_calls md [Op_update (pre @ x), Op_get (replicate 64 0)] = Some r \<and>
    digest_calls md [Op_update (pre @ y), Op_get (replicate 64 0)] = Some r \<and> list_all fst r"
proof -
  have f: "fixed_size ty" using assms(1) by (auto simp: fixed_size_def)
  obtain md where md: "r_msg_digest_new (Some mem) ty = Some (Some md)" "digest_sim ty md (False, [])"
    using digest_new_sim [OF assms(2) f] by blast
  have m: "(length pre + length y) mod 128 = 112 + length y"
    using assms(3,5) mod_add_left_eq [of "length pre" 128 "length y"] by simp
  have "sha512_last iv (pre @ x) = sha512_last iv (pre @ y)" for iv
  proof -
    have "112 \<le> length pre" using assms(3) by (metis mod_less_eq_dividend)
    then have "length pre + length y - (112 + length y) + 112 = length pre" by linarith
    then show ?thesis using m assms(4,5) by (simp add: sha512_last_def Let_def)
  qed
  then have "digest_of ty (pre @ x) = digest_of ty (pre @ y)" using assms(1) by auto
  moreover have "r_msg_digest_type_size ty \<le> 64" using assms(1) by auto
  ultimately show ?thesis
    using md(1) digest_sim_calls [OF md(2), of "[Op_update (pre @ x), Op_get (replicate 64 0)]"]
      digest_sim_calls [OF md(2), of "[Op_update (pre @ y), Op_get (replicate 64 0)]"] assms(4-6)
    by (auto simp: digest_of_length)
qed

theorem r_sha512_final_collides_witness:
  "\<exists>md r. r_msg_digest_new (Some (Ctx_sha512 \<lparr>md_vars = [], md_len = (0, 0), md_buffer = replicate 128 0, md_bufsize = 0\<rparr>)) R_MSG_DIGEST_TYPE_SHA512 = Some (Some md) \<and>
    digest_calls md [Op_update (replicate 112 97 @ [1]), Op_get (replicate 64 0)] = Some r \<and>
    digest_calls md [Op_update (replicate 112 97 @ [2]), Op_get (replicate 64 0)] = Some r \<and> list_all fst r"
  by (rule r_sha512_final_collides [of R_MSG_DIGEST_TYPE_SHA512 "Ctx_sha512 \<lparr>md_vars = [], md_len = (0, 0), md_buffer = replicate 128 0, md_bufsize = 0\<rparr>"
      "replicate 112 97" "[1]" "[2]"]) simp_all

section \<open>SHAKE256\<close>

text \<open>A client that gives the data in pieces, and then takes output in pieces.\<close>

fun digest_feed :: "RMsgDigest \<Rightarrow> ruint8 list list \<Rightarrow> RMsgDigest option" where
  "digest_feed md [] = Some md"
| "digest_feed md (d # ds) = do {
     (r, md) \<leftarrow> r_msg_digest_update md (Some d) (length d);
     if r then digest_feed md ds else None
   }"

fun digest_pull :: "RMsgDigest \<Rightarrow> nat list \<Rightarrow> (ruint8 list \<times> RMsgDigest) option" where
  "digest_pull md [] = Some ([], md)"
| "digest_pull md (n # ns) = do {
     (r, md, dat) \<leftarrow> r_msg_digest_squeeze (Some md) (Some (replicate n 0)) n;
     md \<leftarrow> md;
     dat \<leftarrow> dat;
     (rest, md) \<leftarrow> digest_pull md ns;
     if r then Some (dat @ rest, md) else None
   }"

lemma shake_new:
  assumes "mem_fits R_MSG_DIGEST_TYPE_SHAKE256 mem"
  shows "\<exists>s. r_msg_digest_new (Some mem) R_MSG_DIGEST_TYPE_SHAKE256 = Some (Some (shake256_digest (Ctx_shake256 s))) \<and> shake_holds s []"
proof -
  obtain s where "mem = Ctx_shake256 s" using assms by (cases mem) simp_all
  moreover have "shake_holds (r_shake256_init s) []" by (simp add: shake_holds_def r_shake256_init_def xor_block_def)
  ultimately show ?thesis by (auto simp: r_msg_digest_new_shake256_def digest_alloc_def shake256_digest_def shake256_of_def)
qed

lemma shake_feed:
  "shake_holds s msg \<Longrightarrow> \<exists>s'. digest_feed (shake256_digest (Ctx_shake256 s)) ds = Some (shake256_digest (Ctx_shake256 s')) \<and> shake_holds s' (msg @ concat ds)"
proof (induction ds arbitrary: s msg)
  case (Cons d ds)
  obtain s1 where s1: "r_shake256_update s (Some d) (length d) = Some (True, s1)" "shake_holds s1 (msg @ d)"
    using r_shake256_update_holds [OF Cons.prems, of "length d" d] by auto
  then have "digest_feed (shake256_digest (Ctx_shake256 s)) (d # ds) = digest_feed (shake256_digest (Ctx_shake256 s1)) ds"
    by (simp add: r_msg_digest_update_def shake256_digest_def shake256_of_def)
  then show ?case using Cons.IH [OF s1(2)] by auto
qed auto

abbreviation shake_final :: "RShake256 \<Rightarrow> RMsgDigest" where
  "shake_final s \<equiv> shake256_digest (Ctx_shake256 s)\<lparr>dg_is_final := True\<rparr>"

lemma shake_pull_final:
  "sk_squeeze_pos s < 136 \<Longrightarrow> length (sk_lanes s) = 25 \<Longrightarrow>
   \<exists>s'. digest_pull (shake_final s) ns = Some (shake_stream (sk_lanes s) (sk_squeeze_pos s) (sum_list ns), shake_final s')"
proof (induction ns arbitrary: s)
  case (Cons n ns)
  obtain s1 where s1: "r_shake256_squeeze s (replicate n 0) n = Some (True, s1, shake_stream (sk_lanes s) (sk_squeeze_pos s) n)"
      "(sk_lanes s1, sk_squeeze_pos s1) = shake_after (sk_lanes s) (sk_squeeze_pos s) n"
    using r_shake256_squeeze_stream [of n "replicate n 0" s] Cons.prems by auto
  have ok: "sk_squeeze_pos s1 < 136" "length (sk_lanes s1) = 25" using shake_after_ok [OF Cons.prems s1(2) [symmetric]] by simp_all
  have "r_msg_digest_squeeze (Some (shake_final s)) (Some (replicate n 0)) n
      = Some (True, Some (shake_final s1), Some (shake_stream (sk_lanes s) (sk_squeeze_pos s) n))"
    using s1(1) by (simp add: r_msg_digest_squeeze_def r_msg_digest_finish_def shake256_digest_def shake256_of_def)
  then show ?case
    using Cons.IH [OF ok] s1(2) shake_stream_add [of "sk_lanes s" "sk_squeeze_pos s" n "sum_list ns"] by (auto split: prod.splits)
qed auto

lemma shake_pull_open:
  assumes "shake_holds s msg"
  shows "\<exists>s'. sk_squeeze_pos s' < 136 \<and> length (sk_lanes s') = 25 \<and> sk_lanes s' = shake256_lanes msg \<and> sk_squeeze_pos s' = 0 \<and>
    r_msg_digest_finish (shake256_digest (Ctx_shake256 s)) = Some (True, shake_final s') \<and>
    (\<forall>n ns. digest_pull (shake256_digest (Ctx_shake256 s)) (n # ns) = digest_pull (shake_final s') (n # ns))"
proof -
  obtain s' where s': "r_shake256_final s = Some (True, s')" "sk_lanes s' = shake256_lanes msg" "sk_squeeze_pos s' = 0"
    using r_shake256_final_lanes [OF assms] by blast
  have "length (shake256_lanes msg) = 25" unfolding shake256_lanes_def by (rule shake_fold_length) simp
  moreover have fin: "r_msg_digest_finish (shake256_digest (Ctx_shake256 s)) = Some (True, shake_final s')"
    using s'(1) by (simp add: r_msg_digest_finish_def shake256_digest_def shake256_of_def)
  moreover have "r_msg_digest_squeeze (Some (shake256_digest (Ctx_shake256 s))) dat sz = r_msg_digest_squeeze (Some (shake_final s')) dat sz"
    if "dat \<noteq> None" for dat sz
    using that fin by (cases dat) (simp_all add: r_msg_digest_squeeze_def r_msg_digest_finish_def shake256_digest_def)
  ultimately show ?thesis using s'(2,3) by (intro exI [of _ s']) simp
qed

text \<open>
  C36. A SHAKE256 object is the sponge of FIPS 202: whatever the allocated memory held, data given in
  any pieces and output taken in any pieces is the stream the standard defines for the whole data,
  whose permutation is the one on the 5 by 5 array of lanes with the round constants of the linear
  feedback register.  Once output was taken the object refuses more data, and \<^verbatim>\<open>r_msg_digest_get_data\<close> refuses it always.
\<close>

theorem r_shake256_sponge:
  assumes "mem_fits R_MSG_DIGEST_TYPE_SHAKE256 mem" "ns \<noteq> []"
  shows "\<exists>md md1 md2. r_msg_digest_new (Some mem) R_MSG_DIGEST_TYPE_SHAKE256 = Some (Some md) \<and>
    digest_feed md ds = Some md1 \<and> digest_pull md1 ns = Some (shake256 (concat ds) (sum_list ns), md2) \<and>
    r_msg_digest_update md2 dat sz = Some (False, md2) \<and>
    r_msg_digest_get_data md1 dat sz = Some (False, dat, None) \<and> r_msg_digest_get_data md2 dat sz = Some (False, dat, None)"
proof -
  obtain s where s: "r_msg_digest_new (Some mem) R_MSG_DIGEST_TYPE_SHAKE256 = Some (Some (shake256_digest (Ctx_shake256 s)))" "shake_holds s []"
    using shake_new [OF assms(1)] by blast
  obtain s1 where s1: "digest_feed (shake256_digest (Ctx_shake256 s)) ds = Some (shake256_digest (Ctx_shake256 s1))" "shake_holds s1 (concat ds)"
    using shake_feed [OF s(2), of ds] by auto
  obtain s2 where s2: "sk_squeeze_pos s2 < 136" "length (sk_lanes s2) = 25" "sk_lanes s2 = shake256_lanes (concat ds)" "sk_squeeze_pos s2 = 0"
      "digest_pull (shake256_digest (Ctx_shake256 s1)) ns = digest_pull (shake_final s2) ns"
    using shake_pull_open [OF s1(2)] assms(2) by (cases ns) (auto simp del: digest_pull.simps)
  obtain s3 where "digest_pull (shake_final s2) ns = Some (shake256 (concat ds) (sum_list ns), shake_final s3)"
    using shake_pull_final [OF s2(1,2), of ns] s2(3,4) by (auto simp: shake256_def)
  then show ?thesis using s(1) s1(1) s2(5)
    by (intro exI [of _ "shake256_digest (Ctx_shake256 s)"] exI [of _ "shake256_digest (Ctx_shake256 s1)"] exI [of _ "shake_final s3"])
      (simp add: r_msg_digest_update_def r_msg_digest_get_data_def shake256_digest_def)
qed

theorem r_shake256_sponge_witness:
  "\<exists>md md1 md2. r_msg_digest_new (Some (Ctx_shake256 \<lparr>sk_lanes = replicate 25 5, sk_absorb_pos = 200, sk_squeeze_pos = 200\<rparr>)) R_MSG_DIGEST_TYPE_SHAKE256 = Some (Some md) \<and>
    digest_feed md [[97], [98, 99]] = Some md1 \<and> digest_pull md1 [3, 300] = Some (shake256 [97, 98, 99] 303, md2) \<and>
    r_msg_digest_update md2 (Some [1]) 1 = Some (False, md2)"
  using r_shake256_sponge [of "Ctx_shake256 \<lparr>sk_lanes = replicate 25 5, sk_absorb_pos = 200, sk_squeeze_pos = 200\<rparr>" "[3, 300]" "[[97], [98, 99]]" "Some [1]" 1]
  by (auto simp del: digest_feed.simps digest_pull.simps)

end
