(* ===== verification/RHmac.thy ===== *)
theory RHmac
  imports RMsgDigest
begin

text \<open>
  The keyed hash of \<^verbatim>\<open>rlib/crypto/rhmac.c\<close>, on two digest objects, and the comparison
  \<^verbatim>\<open>r_memcmp_ct\<close> of \<^verbatim>\<open>rlib/rmem.c\<close>.  The key block is an array of 32 bit words whose bytes are read and
  written through casts; they are laid out as on a little endian host, and no result depends on it.
\<close>

section \<open>Memory\<close>

text \<open>The bytes of an array of words, and the words of an array of bytes.\<close>

definition host_bytes :: "ruint32 list \<Rightarrow> ruint8 list" where
  "host_bytes ws = concat (map (le_bytes 4) ws)"

fun host_words :: "ruint8 list \<Rightarrow> ruint32 list" where
  "host_words (a # b # c # d # bs) = (ucast a OR push_bit 8 (ucast b) OR push_bit 16 (ucast c) OR push_bit 24 (ucast d)) # host_words bs"
| "host_words _ = []"

definition r_memcmp_ct :: "ruint8 list option \<Rightarrow> ruint8 list option \<Rightarrow> nat \<Rightarrow> ruint8 option" where
  "r_memcmp_ct a b sz =
     (case (a, b) of
        (None, None) \<Rightarrow> Some 0
      | (None, Some _) \<Rightarrow> Some 1
      | (Some _, None) \<Rightarrow> Some 1
      | (Some pa, Some pb) \<Rightarrow> do {
          xs \<leftarrow> those (map (fetch pa) [0..<sz]);
          ys \<leftarrow> those (map (fetch pb) [0..<sz]);
          Some (foldl (\<lambda>diff (x, y). diff OR (x XOR y)) 0 (zip xs ys))
        })"

section \<open>The operations\<close>

record RHmac =
  hm_inner :: RMsgDigest
  hm_outer :: RMsgDigest
  hm_keyblock :: "ruint32 list"
  hm_blocksize :: nat

definition hmac_pad :: "ruint32 list \<Rightarrow> nat \<Rightarrow> ruint32 \<Rightarrow> ruint32 list option" where
  "hmac_pad keyblock bs c = those (map (\<lambda>i. do { k \<leftarrow> fetch keyblock i; Some (k XOR c) }) [0..<bs div 4])"

definition r_hmac_reset :: "RHmac \<Rightarrow> RHmac option" where
  "r_hmac_reset hmac = do {
     inner \<leftarrow> r_msg_digest_reset (hm_inner hmac);
     outer \<leftarrow> r_msg_digest_reset (hm_outer hmac);
     block \<leftarrow> hmac_pad (hm_keyblock hmac) (hm_blocksize hmac) 0x36363636;
     (_, inner) \<leftarrow> r_msg_digest_update inner (Some (host_bytes block)) (hm_blocksize hmac);
     block \<leftarrow> hmac_pad (hm_keyblock hmac) (hm_blocksize hmac) 0x5c5c5c5c;
     (_, outer) \<leftarrow> r_msg_digest_update outer (Some (host_bytes block)) (hm_blocksize hmac);
     Some (hmac\<lparr>hm_inner := inner, hm_outer := outer\<rparr>)
   }"

text \<open>The key fills the zeroed key block, or its digest does.\<close>

definition hmac_set_key ::
  "RMsgDigest \<Rightarrow> ruint8 list \<Rightarrow> nat \<Rightarrow> ruint8 list option \<Rightarrow> nat \<Rightarrow> (RMsgDigest \<times> ruint8 list) option" where
  "hmac_set_key inner keyblock bs key keysize =
     (if keysize > bs then do {
        (_, inner) \<leftarrow> r_msg_digest_update inner key keysize;
        (_, keyblock, _) \<leftarrow> r_msg_digest_get_data inner (Some keyblock) bs;
        keyblock \<leftarrow> keyblock;
        Some (inner, keyblock)
      }
      else do {
        keyblock \<leftarrow> memcpy keyblock 0 (case key of Some k \<Rightarrow> k | None \<Rightarrow> []) 0 keysize;
        Some (inner, keyblock)
      })"

text \<open>
  The four allocations in their order: the object, the two digests and the key block.  The memory of
  the digests holds anything.
\<close>

record hmac_mem =
  alloc_hmac :: bool
  alloc_inner :: "md_ctx option"
  alloc_outer :: "md_ctx option"
  alloc_keyblock :: bool

definition r_hmac_new :: "hmac_mem \<Rightarrow> RMsgDigestType \<Rightarrow> ruint8 list option \<Rightarrow> nat \<Rightarrow> RHmac option option" where
  "r_hmac_new mem ty key keysize =
     (if key = None \<and> keysize > 0 then Some None
      else if \<not> alloc_hmac mem then Some None
      else do {
        inner \<leftarrow> r_msg_digest_new (alloc_inner mem) ty;
        outer \<leftarrow> r_msg_digest_new (alloc_outer mem) ty;
        (case (inner, outer) of
           (Some inner, Some outer) \<Rightarrow>
             (let bs = r_msg_digest_blocksize inner in
              if bs = 0 \<or> \<not> alloc_keyblock mem then Some None
              else do {
                let keyblock = replicate bs 0;
                (inner, keyblock) \<leftarrow> hmac_set_key inner keyblock bs key keysize;
                hmac \<leftarrow> r_hmac_reset \<lparr>hm_inner = inner, hm_outer = outer, hm_keyblock = host_words keyblock, hm_blocksize = bs\<rparr>;
                Some (Some hmac)
              })
         | _ \<Rightarrow> Some None)
      })"

definition r_hmac_size :: "RHmac option \<Rightarrow> nat" where
  "r_hmac_size hmac = (case hmac of None \<Rightarrow> 0 | Some hmac \<Rightarrow> r_msg_digest_size (hm_inner hmac))"

definition r_hmac_update :: "RHmac option \<Rightarrow> ruint8 list option \<Rightarrow> nat \<Rightarrow> (bool \<times> RHmac option) option" where
  "r_hmac_update hmac dat sz =
     (case hmac of
        None \<Rightarrow> Some (False, None)
      | Some hmac \<Rightarrow> do {
          (r, inner) \<leftarrow> r_msg_digest_update (hm_inner hmac) dat sz;
          Some (r, Some (hmac\<lparr>hm_inner := inner\<rparr>))
        })"

text \<open>The size is the out parameter of the first call, and keeps its value if that does not set it.\<close>

definition r_hmac_get_data ::
  "RHmac option \<Rightarrow> ruint8 list option \<Rightarrow> nat \<Rightarrow> (bool \<times> ruint8 list option \<times> nat option \<times> RHmac option) option" where
  "r_hmac_get_data ph dat sz =
     (case (ph, dat) of
        (Some hmac, Some _) \<Rightarrow> do {
          (r, dat, out) \<leftarrow> r_msg_digest_get_data (hm_inner hmac) dat sz;
          let sz = (case out of Some n \<Rightarrow> n | None \<Rightarrow> sz);
          if r then do {
            (r, outer) \<leftarrow> r_msg_digest_update (hm_outer hmac) dat sz;
            let hmac = hmac\<lparr>hm_outer := outer\<rparr>;
            if r then do {
              (r, dat, out) \<leftarrow> r_msg_digest_get_data (hm_outer hmac) dat sz;
              Some (r, dat, out, Some hmac)
            }
            else Some (False, dat, None, Some hmac)
          }
          else Some (False, dat, None, ph)
        }
      | _ \<Rightarrow> Some (False, dat, None, ph))"

text \<open>\<open>stk\<close> is the memory \<^verbatim>\<open>r_alloca\<close> returns for the computed tag.\<close>

definition r_hmac_verify ::
  "ruint8 list \<Rightarrow> RHmac option \<Rightarrow> ruint8 list option \<Rightarrow> nat \<Rightarrow> (bool \<times> RHmac option) option" where
  "r_hmac_verify stk ph expected_tag tag_size =
     (case (ph, expected_tag) of
        (Some hmac, Some _) \<Rightarrow>
          (let hmac_size = r_msg_digest_size (hm_inner hmac) in
           if hmac_size = 0 then Some (False, ph)
           else if tag_size > hmac_size then Some (False, ph)
           else do {
             (r, computed, got_size, ph) \<leftarrow> r_hmac_get_data ph (Some stk) hmac_size;
             if \<not> r then Some (False, ph)
             else do {
               got_size \<leftarrow> got_size;
               if got_size < tag_size then Some (False, ph)
               else do {
                 diff \<leftarrow> r_memcmp_ct computed expected_tag tag_size;
                 Some (diff = 0, ph)
               }
             }
           })
      | _ \<Rightarrow> Some (False, ph))"

section \<open>RFC 2104\<close>

definition hmac_key :: "(ruint8 list \<Rightarrow> ruint8 list) \<Rightarrow> nat \<Rightarrow> ruint8 list \<Rightarrow> ruint8 list" where
  "hmac_key h bs key = (let k = (if length key > bs then h key else key) in k @ replicate (bs - length k) 0)"

definition hmac_of :: "(ruint8 list \<Rightarrow> ruint8 list) \<Rightarrow> nat \<Rightarrow> ruint8 list \<Rightarrow> ruint8 list \<Rightarrow> ruint8 list" where
  "hmac_of h bs key msg =
     (let k = hmac_key h bs key
      in h (map ((XOR) 0x5c) k @ h (map ((XOR) 0x36) k @ msg)))"

section \<open>Words, bytes and comparison\<close>

lemma xor_word_bytes:
  "le_bytes 4 (w XOR 0x36363636 :: ruint32) = map ((XOR) 0x36) (le_bytes 4 w)"
  "le_bytes 4 (w XOR 0x5c5c5c5c :: ruint32) = map ((XOR) 0x5c) (le_bytes 4 w)"
proof -
  have n: "(909522486 :: ruint8) = 54" "(3552822 :: ruint8) = 54" "(13878 :: ruint8) = 54"
    "(1549556828 :: ruint8) = 92" "(6052956 :: ruint8) = 92" "(23644 :: ruint8) = 92" by simp_all
  show "le_bytes 4 (w XOR 0x36363636 :: ruint32) = map ((XOR) 0x36) (le_bytes 4 w)"
    "le_bytes 4 (w XOR 0x5c5c5c5c :: ruint32) = map ((XOR) 0x5c) (le_bytes 4 w)"
    by (simp_all add: le_bytes_def upt_rec drop_bit_xor unsigned_xor_eq xor.commute n)
qed

lemma word_of_bytes:
  "le_bytes 4 (ucast a OR push_bit 8 (ucast b) OR push_bit 16 (ucast c) OR push_bit 24 (ucast d) :: ruint32) = [a, b, c, d]"
proof -
  let ?w = "ucast a OR push_bit 8 (ucast b) OR push_bit 16 (ucast c) OR push_bit 24 (ucast d) :: ruint32"
  have "ucast (drop_bit 0 ?w) = a" "ucast (drop_bit 8 ?w) = b" "ucast (drop_bit 16 ?w) = c" "ucast (drop_bit 24 ?w) = d"
    by (rule bit_word_eqI; auto simp: bit_simps dest: bit_imp_le_length)+
  then show ?thesis by (simp add: le_bytes_def upt_rec)
qed

lemma host_bytes_words: "length bs mod 4 = 0 \<Longrightarrow> host_bytes (host_words bs) = bs"
proof (induction bs rule: host_words.induct)
  case (1 a b c d bs)
  have "length bs mod 4 = 0" using 1(2) by (simp add: mod_Suc split: if_splits)
  then show ?case using 1(1) word_of_bytes [of a b c d] by (simp add: host_bytes_def)
qed (simp_all add: host_bytes_def)

lemma host_words_length: "length (host_words bs) = length bs div 4"
  by (induction bs rule: host_words.induct) simp_all

lemma hmac_pad_bytes:
  assumes "length bs mod 4 = 0"
  shows "\<exists>ws. hmac_pad (host_words bs) (length bs) 0x36363636 = Some ws \<and> host_bytes ws = map ((XOR) 0x36) bs"
    and "\<exists>ws. hmac_pad (host_words bs) (length bs) 0x5c5c5c5c = Some ws \<and> host_bytes ws = map ((XOR) 0x5c) bs"
proof -
  have pad: "hmac_pad ws (4 * length ws) c = Some (map (\<lambda>w. w XOR c) ws)" for ws :: "ruint32 list" and c
  proof -
    have "map (\<lambda>i. do { k \<leftarrow> fetch ws i; Some (k XOR c) }) [0..<length ws] = map (\<lambda>w. Some (w XOR c)) ws"
      by (rule nth_equalityI) simp_all
    then show ?thesis by (simp add: hmac_pad_def those_Some)
  qed
  have n: "length bs = 4 * length (host_words bs)" using assms mult_div_mod_eq [of 4 "length bs"] by (simp add: host_words_length)
  have by36: "host_bytes (map (\<lambda>w. w XOR 0x36363636) ws) = map ((XOR) 0x36) (host_bytes ws)"
    and by5c: "host_bytes (map (\<lambda>w. w XOR 0x5c5c5c5c) ws) = map ((XOR) 0x5c) (host_bytes ws)" for ws
    by (induction ws) (simp_all add: host_bytes_def xor_word_bytes)
  show "\<exists>ws. hmac_pad (host_words bs) (length bs) 0x36363636 = Some ws \<and> host_bytes ws = map ((XOR) 0x36) bs"
    and "\<exists>ws. hmac_pad (host_words bs) (length bs) 0x5c5c5c5c = Some ws \<and> host_bytes ws = map ((XOR) 0x5c) bs"
    unfolding n pad using by36 [of "host_words bs"] by5c [of "host_words bs"] host_bytes_words [OF assms] by simp_all
qed

lemma bytes_fetched: "n \<le> length xs \<Longrightarrow> those (map (fetch xs) [0..<n]) = Some (take n xs)"
  using fetch_block [of 0 n xs] by simp

lemma or_diff_zero: "foldl (\<lambda>diff (x, y). diff OR (x XOR y)) d ps = 0 \<longleftrightarrow> d = 0 \<and> (\<forall>(x, y) \<in> set ps. x = y)"
  for d :: ruint8
proof (induction ps arbitrary: d)
  case (Cons p ps)
  have or0: "a OR b = 0 \<longleftrightarrow> a = 0 \<and> b = 0" for a b :: ruint8
    by (metis or_eq_0_iff)
  have x0: "x XOR y = 0 \<longleftrightarrow> x = y" for x y :: ruint8
    by (metis xor.assoc xor.left_neutral xor.right_neutral xor_self_eq)
  show ?case using Cons [of "d OR (fst p XOR snd p)"] by (cases p) (simp add: or0 x0)
qed simp

lemma r_memcmp_ct_equal:
  assumes "n \<le> length a" "n \<le> length b"
  shows "\<exists>d. r_memcmp_ct (Some a) (Some b) n = Some d \<and> (d = 0 \<longleftrightarrow> take n a = take n b)"
proof -
  have "(\<forall>(x, y) \<in> set (zip xs ys). x = y) \<longleftrightarrow> xs = ys" if "length xs = length ys" for xs ys :: "ruint8 list"
    using that by (induction xs ys rule: list_induct2) auto
  then show ?thesis using assms by (simp add: r_memcmp_ct_def bytes_fetched or_diff_zero)
qed

section \<open>Correctness\<close>

abbreviation block_key :: "RMsgDigestType \<Rightarrow> ruint8 list \<Rightarrow> ruint8 list" where
  "block_key ty key \<equiv> hmac_key (digest_of ty) (r_msg_digest_type_blocksize ty) key"

lemma size_le_blocksize: "r_msg_digest_type_size ty \<le> r_msg_digest_type_blocksize ty"
  by (cases ty) simp_all

lemma blocksize_words: "r_msg_digest_type_blocksize ty mod 4 = 0" "r_msg_digest_type_blocksize ty < 2 ^ 64"
  by (cases ty; simp)+

lemma block_key_length: "length (block_key ty key) = r_msg_digest_type_blocksize ty"
  using size_le_blocksize [of ty] by (simp add: hmac_key_def Let_def digest_of_length)

text \<open>An object with a key, and one that has also been given a message since its last reset.\<close>

definition hmac_keyed :: "RMsgDigestType \<Rightarrow> ruint8 list \<Rightarrow> RHmac \<Rightarrow> bool" where
  "hmac_keyed ty key h \<longleftrightarrow> (\<exists>st. digest_sim ty (hm_inner h) st) \<and> (\<exists>st. digest_sim ty (hm_outer h) st) \<and>
     hm_keyblock h = host_words (block_key ty key) \<and> hm_blocksize h = r_msg_digest_type_blocksize ty"

definition hmac_holds :: "RMsgDigestType \<Rightarrow> ruint8 list \<Rightarrow> RHmac \<Rightarrow> ruint8 list \<Rightarrow> bool" where
  "hmac_holds ty key h msg \<longleftrightarrow> hmac_keyed ty key h \<and> digest_sim ty (hm_inner h) (False, map ((XOR) 0x36) (block_key ty key) @ msg) \<and>
     digest_sim ty (hm_outer h) (False, map ((XOR) 0x5c) (block_key ty key))"

lemma r_hmac_reset_holds:
  assumes "hmac_keyed ty key h"
  shows "\<exists>h'. r_hmac_reset h = Some h' \<and> hmac_holds ty key h' []"
proof -
  let ?k = "block_key ty key" and ?bs = "r_msg_digest_type_blocksize ty"
  obtain st1 st2 where h: "digest_sim ty (hm_inner h) st1" "digest_sim ty (hm_outer h) st2"
      "hm_keyblock h = host_words ?k" "hm_blocksize h = ?bs" using assms by (auto simp: hmac_keyed_def)
  have k: "length ?k mod 4 = 0" by (simp only: block_key_length blocksize_words)
  obtain i1 where i1: "r_msg_digest_reset (hm_inner h) = Some i1" "digest_sim ty i1 (False, [])" using digest_sim_reset [OF h(1)] by blast
  obtain o1 where o1: "r_msg_digest_reset (hm_outer h) = Some o1" "digest_sim ty o1 (False, [])" using digest_sim_reset [OF h(2)] by blast
  obtain ws vs where p: "hmac_pad (host_words ?k) ?bs 0x36363636 = Some ws" "host_bytes ws = map ((XOR) 0x36) ?k"
      "hmac_pad (host_words ?k) ?bs 0x5c5c5c5c = Some vs" "host_bytes vs = map ((XOR) 0x5c) ?k"
    using hmac_pad_bytes [OF k] by (auto simp: block_key_length)
  obtain i2 where i2: "r_msg_digest_update i1 (Some (host_bytes ws)) ?bs = Some (True, i2)" "digest_sim ty i2 (False, map ((XOR) 0x36) ?k)"
    using digest_sim_update [OF i1(2), of ?bs "host_bytes ws"] p(2) blocksize_words(2) by (auto simp: block_key_length take_map)
  obtain o2 where o2: "r_msg_digest_update o1 (Some (host_bytes vs)) ?bs = Some (True, o2)" "digest_sim ty o2 (False, map ((XOR) 0x5c) ?k)"
    using digest_sim_update [OF o1(2), of ?bs "host_bytes vs"] p(4) blocksize_words(2) by (auto simp: block_key_length take_map)
  have "r_hmac_reset h = Some (h\<lparr>hm_inner := i2, hm_outer := o2\<rparr>)"
    using i1(1) o1(1) p(1,3) i2(1) o2(1) h(3,4) by (simp add: r_hmac_reset_def)
  then show ?thesis using i2(2) o2(2) h(3,4) by (auto simp: hmac_holds_def hmac_keyed_def)
qed

lemma r_hmac_new_holds:
  assumes ty: "fixed_size ty" and mem: "alloc_hmac mem" "alloc_keyblock mem" "alloc_inner mem = Some ci" "alloc_outer mem = Some co"
    "mem_fits ty ci" "mem_fits ty co" and key: "length key < 2 ^ 64"
  shows "\<exists>h. r_hmac_new mem ty (Some key) (length key) = Some (Some h) \<and> hmac_holds ty key h []"
proof -
  let ?bs = "r_msg_digest_type_blocksize ty" and ?n = "r_msg_digest_type_size ty"
  obtain i where i: "r_msg_digest_new (Some ci) ty = Some (Some i)" "digest_sim ty i (False, [])" using digest_new_sim [OF mem(5) ty] by blast
  obtain u where u: "r_msg_digest_new (Some co) ty = Some (Some u)" "digest_sim ty u (False, [])" using digest_new_sim [OF mem(6) ty] by blast
  have bs: "r_msg_digest_blocksize i = ?bs" by (rule digest_sim_header(2) [OF i(2)])
  have pos: "0 < ?bs" using ty by (cases ty) (simp_all add: fixed_size_def)
  obtain i' where i': "hmac_set_key i (replicate ?bs 0) ?bs (Some key) (length key) = Some (i', block_key ty key)" "\<exists>st. digest_sim ty i' st"
  proof (cases "length key > ?bs")
    case True
    obtain i1 where i1: "r_msg_digest_update i (Some key) (length key) = Some (True, i1)" "digest_sim ty i1 (False, key)"
      using digest_sim_update [OF i(2), of "length key" key] key by auto
    have "r_msg_digest_get_data i1 (Some (replicate ?bs 0)) ?bs = Some (True, Some (block_key ty key), Some ?n)"
      using digest_sim_get [OF i1(2), of ?bs "replicate ?bs 0"] size_le_blocksize [of ty] True
      by (simp add: digest_of_length hmac_key_def Let_def)
    then show ?thesis using that [of i1] True i1 by (auto simp: hmac_set_key_def)
  next
    case False
    then show ?thesis using that [of i] i(2) by (auto simp: hmac_set_key_def hmac_key_def Let_def)
  qed
  let ?h = "\<lparr>hm_inner = i', hm_outer = u, hm_keyblock = host_words (block_key ty key), hm_blocksize = ?bs\<rparr>"
  obtain h where h: "r_hmac_reset ?h = Some h" "hmac_holds ty key h []"
    using r_hmac_reset_holds [of ty key ?h] i'(2) u(2) by (auto simp: hmac_keyed_def)
  have "r_hmac_new mem ty (Some key) (length key) = Some (Some h)"
    using i(1) u(1) mem(1-4) bs pos i'(1) h(1) by (simp add: r_hmac_new_def Let_def)
  then show ?thesis using h(2) by blast
qed

lemma r_hmac_update_holds:
  assumes "hmac_holds ty key h msg" "sz \<le> length dat" "sz < 2 ^ 64"
  shows "\<exists>h'. r_hmac_update (Some h) (Some dat) sz = Some (True, Some h') \<and> hmac_holds ty key h' (msg @ take sz dat)"
proof -
  obtain i where "r_msg_digest_update (hm_inner h) (Some dat) sz = Some (True, i)"
      "digest_sim ty i (False, map ((XOR) 0x36) (block_key ty key) @ msg @ take sz dat)"
    using digest_sim_update [of ty "hm_inner h" "map ((XOR) 0x36) (block_key ty key) @ msg", OF _ assms(2,3)] assms(1)
    by (auto simp: hmac_holds_def)
  then show ?thesis using assms(1) by (auto simp: r_hmac_update_def hmac_holds_def hmac_keyed_def)
qed

abbreviation code_hmac :: "RMsgDigestType \<Rightarrow> ruint8 list \<Rightarrow> ruint8 list \<Rightarrow> ruint8 list" where
  "code_hmac ty \<equiv> hmac_of (digest_of ty) (r_msg_digest_type_blocksize ty)"

lemma r_hmac_get_data_holds:
  assumes h: "hmac_holds ty key h msg" and sz: "r_msg_digest_type_size ty \<le> sz" "sz \<le> length buf"
  shows "\<exists>h'. r_hmac_get_data (Some h) (Some buf) sz
      = Some (True, Some (code_hmac ty key msg @ drop (r_msg_digest_type_size ty) buf), Some (r_msg_digest_type_size ty), Some h') \<and>
    hmac_keyed ty key h' \<and> hm_inner h' = hm_inner h \<and>
    digest_sim ty (hm_outer h') (False, map ((XOR) 0x5c) (block_key ty key) @ digest_of ty (map ((XOR) 0x36) (block_key ty key) @ msg))"
proof -
  let ?n = "r_msg_digest_type_size ty" and ?in = "map ((XOR) 0x36) (block_key ty key) @ msg"
  let ?out = "map ((XOR) 0x5c) (block_key ty key)" and ?buf = "digest_of ty (map ((XOR) 0x36) (block_key ty key) @ msg) @ drop (r_msg_digest_type_size ty) buf"
  have sims: "digest_sim ty (hm_inner h) (False, ?in)" "digest_sim ty (hm_outer h) (False, ?out)" "hmac_keyed ty key h"
    using h by (simp_all add: hmac_holds_def)
  have g: "r_msg_digest_get_data (hm_inner h) (Some buf) sz = Some (True, Some ?buf, Some ?n)"
    using digest_sim_get [OF sims(1), of sz buf] sz by (simp add: digest_of_length)
  have n: "?n < 2 ^ 64" "?n \<le> length ?buf" using size_le_blocksize [of ty] blocksize_words(2) [of ty] by (simp_all add: digest_of_length)
  obtain u where u: "r_msg_digest_update (hm_outer h) (Some ?buf) ?n = Some (True, u)" "digest_sim ty u (False, ?out @ digest_of ty ?in)"
    using digest_sim_update [OF sims(2) n(2,1)] by (auto simp: digest_of_length)
  have t: "digest_of ty (?out @ digest_of ty ?in) = code_hmac ty key msg" by (simp add: hmac_of_def Let_def)
  have "r_msg_digest_get_data u (Some ?buf) ?n = Some (True, Some (code_hmac ty key msg @ drop ?n buf), Some ?n)"
    using digest_sim_get [OF u(2), of ?n ?buf] n(2) by (simp only: t [symmetric] digest_of_length) (simp add: digest_of_length)
  then have "r_hmac_get_data (Some h) (Some buf) sz = Some (True, Some (code_hmac ty key msg @ drop ?n buf), Some ?n, Some (h\<lparr>hm_outer := u\<rparr>))"
    using g u(1) by (simp add: r_hmac_get_data_def Let_def)
  moreover have "hmac_keyed ty key (h\<lparr>hm_outer := u\<rparr>)" using sims(3) u(2) by (auto simp: hmac_keyed_def)
  ultimately show ?thesis using u(2) by auto
qed

lemma r_hmac_verify_holds:
  assumes h: "hmac_holds ty key h msg" and stk: "length stk = r_msg_digest_type_size ty" and ty: "fixed_size ty"
  shows "\<exists>h'. r_hmac_verify stk (Some h) (Some tag) (length tag) = Some (tag = take (length tag) (code_hmac ty key msg), Some h') \<and> hmac_keyed ty key h'"
proof -
  let ?n = "r_msg_digest_type_size ty" and ?t = "code_hmac ty key msg"
  have len: "length ?t = ?n" by (simp add: hmac_of_def Let_def digest_of_length)
  have "\<exists>st. digest_sim ty (hm_inner h) st" using h by (auto simp: hmac_holds_def)
  then have sz: "r_msg_digest_size (hm_inner h) = ?n" by (rule exE) (rule digest_sim_header(1))
  have pos: "0 < ?n" using ty by (cases ty) (simp_all add: fixed_size_def)
  show ?thesis
  proof (cases "length tag > ?n")
    case True
    then have "length tag \<noteq> length (take (length tag) ?t)" using len by simp
    then have "tag \<noteq> take (length tag) ?t" by metis
    then show ?thesis using True sz pos h by (auto simp: r_hmac_verify_def Let_def hmac_holds_def)
  next
    case False
    obtain h' where h': "r_hmac_get_data (Some h) (Some stk) ?n = Some (True, Some ?t, Some ?n, Some h')" "hmac_keyed ty key h'"
      using r_hmac_get_data_holds [OF h, of ?n stk] stk by auto
    obtain d where d: "r_memcmp_ct (Some ?t) (Some tag) (length tag) = Some d" "d = 0 \<longleftrightarrow> take (length tag) ?t = tag"
      using r_memcmp_ct_equal [of "length tag" ?t tag] False len by auto
    show ?thesis using False sz pos h' d by (auto simp: r_hmac_verify_def Let_def)
  qed
qed

section \<open>Tags of messages\<close>

text \<open>A client that gives a message in pieces, takes the tag, and resets the object for the next message.\<close>

fun hmac_feed :: "RHmac \<Rightarrow> ruint8 list list \<Rightarrow> RHmac option" where
  "hmac_feed h [] = Some h"
| "hmac_feed h (d # ds) = do {
     (r, h) \<leftarrow> r_hmac_update (Some h) (Some d) (length d);
     h \<leftarrow> h;
     if r then hmac_feed h ds else None
   }"

fun hmac_tags :: "RHmac \<Rightarrow> ruint8 list list list \<Rightarrow> ruint8 list list option" where
  "hmac_tags h [] = Some []"
| "hmac_tags h (ds # msgs) = do {
     h \<leftarrow> hmac_feed h ds;
     let n = r_hmac_size (Some h);
     (r, tag, _, h) \<leftarrow> r_hmac_get_data (Some h) (Some (replicate n 0)) n;
     tag \<leftarrow> tag;
     h \<leftarrow> h;
     h \<leftarrow> r_hmac_reset h;
     rest \<leftarrow> hmac_tags h msgs;
     if r then Some (tag # rest) else None
   }"

lemma hmac_feed_holds:
  "hmac_holds ty key h msg \<Longrightarrow> list_all (\<lambda>d. length d < 2 ^ 64) ds \<Longrightarrow>
   \<exists>h'. hmac_feed h ds = Some h' \<and> hmac_holds ty key h' (msg @ concat ds)"
proof (induction ds arbitrary: h msg)
  case (Cons d ds)
  obtain h1 where h1: "r_hmac_update (Some h) (Some d) (length d) = Some (True, Some h1)" "hmac_holds ty key h1 (msg @ d)"
    using r_hmac_update_holds [OF Cons.prems(1), of "length d" d] Cons.prems(2) by auto
  show ?case using Cons.IH [OF h1(2)] Cons.prems(2) h1(1) by auto
qed auto

lemma hmac_holds_size: "hmac_holds ty key h msg \<Longrightarrow> r_hmac_size (Some h) = r_msg_digest_type_size ty"
  by (auto simp: hmac_holds_def r_hmac_size_def digest_sim_header)

lemma hmac_tags_holds:
  "hmac_holds ty key h [] \<Longrightarrow> list_all (list_all (\<lambda>d. length d < 2 ^ 64)) msgs \<Longrightarrow>
   hmac_tags h msgs = Some (map (\<lambda>ds. code_hmac ty key (concat ds)) msgs)"
proof (induction msgs arbitrary: h)
  case (Cons ds msgs)
  let ?n = "r_msg_digest_type_size ty"
  obtain h1 where h1: "hmac_feed h ds = Some h1" "hmac_holds ty key h1 (concat ds)"
    using hmac_feed_holds [OF Cons.prems(1), of ds] Cons.prems(2) by auto
  obtain h2 where h2: "r_hmac_get_data (Some h1) (Some (replicate ?n 0)) ?n = Some (True, Some (code_hmac ty key (concat ds)), Some ?n, Some h2)"
      "hmac_keyed ty key h2"
    using r_hmac_get_data_holds [OF h1(2), of ?n "replicate ?n 0"] by auto
  obtain h3 where h3: "r_hmac_reset h2 = Some h3" "hmac_holds ty key h3 []" using r_hmac_reset_holds [OF h2(2)] by blast
  show ?case using h1(1) hmac_holds_size [OF h1(2)] h2(1) h3(1) Cons.IH [OF h3(2)] Cons.prems(2) by (simp add: Let_def)
qed simp

lemma code_hmac_standard:
  assumes "\<not> sha512_gap ty (length msg)" "\<not> sha512_gap ty (length key)"
  shows "code_hmac ty key msg = hmac_of (digest ty) (r_msg_digest_type_blocksize ty) key msg"
proof -
  let ?bs = "r_msg_digest_type_blocksize ty"
  have k: "block_key ty key = hmac_key (digest ty) ?bs key"
    using digest_of_standard [OF assms(2)] by (simp add: hmac_key_def Let_def)
  have gap: "sha512_gap ty (?bs + n) \<longleftrightarrow> sha512_gap ty n" for n by (cases ty) (simp_all add: sha512_gap_def)
  have small: "\<not> sha512_gap ty (r_msg_digest_type_size ty)" by (cases ty) (simp_all add: sha512_gap_def)
  have i: "digest_of ty (map f (block_key ty key) @ m) = digest ty (map f (block_key ty key) @ m)" if "\<not> sha512_gap ty (length m)" for f m
    by (rule digest_of_standard) (use that gap in \<open>simp add: block_key_length\<close>)
  have "\<not> sha512_gap ty (length (digest_of ty (map ((XOR) 0x36) (block_key ty key) @ msg)))" using small by (simp add: digest_of_length)
  from i [OF this, of "(XOR) 0x5c"] i [OF assms(1), of "(XOR) 0x36"] show ?thesis by (simp add: hmac_of_def Let_def k [symmetric])
qed



text \<open>
  C38. Verification accepts exactly the prefixes of the tag: on an object that was given a message in
  any pieces it returns true for an expected tag of any length if and only if that is the start of
  the computed one, so also for the empty tag, and false for one longer than the hash; the constant
  time comparison it uses is zero exactly for equal bytes.
\<close>

theorem r_hmac_verify_prefix:
  assumes "fixed_size ty" "mem_fits ty ci" "mem_fits ty co" "length key < 2 ^ 64" "list_all (\<lambda>d. length d < 2 ^ 64) ds"
    and "length stk = r_msg_digest_type_size ty"
  shows "(\<exists>h h' h''. r_hmac_new \<lparr>alloc_hmac = True, alloc_inner = Some ci, alloc_outer = Some co, alloc_keyblock = True\<rparr> ty (Some key) (length key) = Some (Some h) \<and>
      hmac_feed h ds = Some h' \<and>
      r_hmac_verify stk (Some h') (Some tag) (length tag)
        = Some (tag = take (length tag) (hmac_of (digest_of ty) (r_msg_digest_type_blocksize ty) key (concat ds)), h'')) \<and>
    r_hmac_verify stk None (Some tag) n = Some (False, None) \<and> r_hmac_verify stk hm None n = Some (False, hm) \<and>
    (\<exists>d. r_memcmp_ct (Some tag) (Some tag') (min (length tag) (length tag')) = Some d \<and>
      (d = 0 \<longleftrightarrow> take (length tag') tag = take (length tag) tag'))"
proof -
  let ?m = "\<lparr>alloc_hmac = True, alloc_inner = Some ci, alloc_outer = Some co, alloc_keyblock = True\<rparr>"
  obtain h where h: "r_hmac_new ?m ty (Some key) (length key) = Some (Some h)" "hmac_holds ty key h []"
    using r_hmac_new_holds [OF assms(1), of ?m ci co key] assms(2-4) by auto
  obtain h' where h': "hmac_feed h ds = Some h'" "hmac_holds ty key h' (concat ds)" using hmac_feed_holds [OF h(2) assms(5)] by auto
  have cmp: "\<exists>d. r_memcmp_ct (Some tag) (Some tag') (min (length tag) (length tag')) = Some d \<and>
      (d = 0 \<longleftrightarrow> take (length tag') tag = take (length tag) tag')"
    using r_memcmp_ct_equal [of "min (length tag) (length tag')" tag tag'] by (auto simp: min_def split: if_splits)
  show ?thesis
    using h(1) h'(1) r_hmac_verify_holds [OF h'(2) assms(6,1), of tag] cmp
    by (auto simp: r_hmac_verify_def split: option.splits)
qed

theorem r_hmac_verify_prefix_witness:
  "\<exists>h h' h''. r_hmac_new \<lparr>alloc_hmac = True, alloc_inner = Some (Ctx_md5 \<lparr>md_vars = [], md_len = 0, md_buffer = replicate 64 0, md_bufsize = 0\<rparr>),
      alloc_outer = Some (Ctx_md5 \<lparr>md_vars = [], md_len = 0, md_buffer = replicate 64 9, md_bufsize = 1\<rparr>), alloc_keyblock = True\<rparr>
      R_MSG_DIGEST_TYPE_MD5 (Some [5]) 1 = Some (Some h) \<and> hmac_feed h [[97], [98]] = Some h' \<and>
    r_hmac_verify (replicate 16 7) (Some h') (Some []) 0 = Some (True, h'')"
  using r_hmac_verify_prefix [of R_MSG_DIGEST_TYPE_MD5 "Ctx_md5 \<lparr>md_vars = [], md_len = 0, md_buffer = replicate 64 0, md_bufsize = 0\<rparr>"
      "Ctx_md5 \<lparr>md_vars = [], md_len = 0, md_buffer = replicate 64 9, md_bufsize = 1\<rparr>" "[5]" "[[97], [98]]" "replicate 16 7" "[]", THEN conjunct1]
  by (auto simp: fixed_size_def simp del: hmac_feed.simps)

text \<open>A second read without a reset has the first inner hash absorbed twice.\<close>

lemma r_hmac_get_data_twice:
  assumes h: "hmac_holds ty key h msg"
  shows "\<exists>h' h''. r_hmac_get_data (Some h) (Some (replicate 64 0)) 64
      = Some (True, Some (code_hmac ty key msg @ replicate (64 - r_msg_digest_type_size ty) 0), Some (r_msg_digest_type_size ty), Some h') \<and>
    r_hmac_get_data (Some h') (Some (replicate 64 0)) 64
      = Some (True, Some (digest_of ty (map ((XOR) 0x5c) (block_key ty key) @
          digest_of ty (map ((XOR) 0x36) (block_key ty key) @ msg) @ digest_of ty (map ((XOR) 0x36) (block_key ty key) @ msg)) @
          replicate (64 - r_msg_digest_type_size ty) 0), Some (r_msg_digest_type_size ty), h'')"
proof -
  let ?n = "r_msg_digest_type_size ty" and ?in = "map ((XOR) 0x36) (block_key ty key) @ msg" and ?out = "map ((XOR) 0x5c) (block_key ty key)"
  have n: "?n \<le> 64" "?n < 2 ^ 64" by (cases ty; simp)+
  obtain h' where h': "r_hmac_get_data (Some h) (Some (replicate 64 0)) 64
      = Some (True, Some (code_hmac ty key msg @ replicate (64 - ?n) 0), Some ?n, Some h')" "hm_inner h' = hm_inner h"
      "digest_sim ty (hm_outer h') (False, ?out @ digest_of ty ?in)"
    using r_hmac_get_data_holds [OF h, of 64 "replicate 64 0"] n by auto
  let ?buf = "digest_of ty ?in @ replicate (64 - ?n) 0"
  have i: "digest_sim ty (hm_inner h') (False, ?in)" using h h'(2) by (simp add: hmac_holds_def)
  have g: "r_msg_digest_get_data (hm_inner h') (Some (replicate 64 0)) 64 = Some (True, Some ?buf, Some ?n)"
    using digest_sim_get [OF i, of 64 "replicate 64 0"] n by (simp add: digest_of_length)
  obtain u where u: "r_msg_digest_update (hm_outer h') (Some ?buf) ?n = Some (True, u)" "digest_sim ty u (False, ?out @ digest_of ty ?in @ digest_of ty ?in)"
    using digest_sim_update [OF h'(3), of ?n ?buf] n(2) by (auto simp: digest_of_length)
  have "r_msg_digest_get_data u (Some ?buf) ?n
      = Some (True, Some (digest_of ty (?out @ digest_of ty ?in @ digest_of ty ?in) @ replicate (64 - ?n) 0), Some ?n)"
    using digest_sim_get [OF u(2), of ?n ?buf] by (simp add: digest_of_length)
  then show ?thesis using h'(1) g u(1) by (auto simp: r_hmac_get_data_def Let_def)
qed

end
