(* ===== verification/RBase64.thy ===== *)
theory RBase64
  imports RUnicodeSpec
begin

text \<open>
  Base64 of \<^verbatim>\<open>rlib/rbase64.c\<close>: the tables, encoding and decoding into a buffer, and the allocating forms
  with and without line breaks.  Text is a list of bytes; writing through a pointer that is advanced
  is a checked store at an index.
\<close>

section \<open>Tables\<close>

definition base64_enc_table :: "ruint8 list" where
  "base64_enc_table = map (\<lambda>c. of_nat (of_char c))
     ''ABCDEFGHIJKLMNOPQRSTUVWXYZabcdefghijklmnopqrstuvwxyz0123456789+/''"

abbreviation R_BASE64_BYTE_SPACE :: ruint8 where
  "R_BASE64_BYTE_SPACE \<equiv> 111"

definition base64_dec_table :: "ruint8 list" where
  "base64_dec_table = [
   255, 255, 255, 255, 255, 255, 255, 255, 255, 111, 111, 255, 111, 111, 255, 255,
   255, 255, 255, 255, 255, 255, 255, 255, 255, 255, 255, 255, 255, 255, 255, 255,
   111, 255, 255, 255, 255, 255, 255, 255, 255, 255, 255, 62, 255, 255, 255, 63,
   52, 53, 54, 55, 56, 57, 58, 59, 60, 61, 255, 255, 255, 214, 255, 255,
   255, 0, 1, 2, 3, 4, 5, 6, 7, 8, 9, 10, 11, 12, 13, 14,
   15, 16, 17, 18, 19, 20, 21, 22, 23, 24, 25, 255, 255, 255, 255, 255,
   255, 26, 27, 28, 29, 30, 31, 32, 33, 34, 35, 36, 37, 38, 39, 40,
   41, 42, 43, 44, 45, 46, 47, 48, 49, 50, 51, 255, 255, 255, 255, 255,
   255, 255, 255, 255, 255, 255, 255, 255, 255, 255, 255, 255, 255, 255, 255, 255,
   255, 255, 255, 255, 255, 255, 255, 255, 255, 255, 255, 255, 255, 255, 255, 255,
   255, 255, 255, 255, 255, 255, 255, 255, 255, 255, 255, 255, 255, 255, 255, 255,
   255, 255, 255, 255, 255, 255, 255, 255, 255, 255, 255, 255, 255, 255, 255, 255,
   255, 255, 255, 255, 255, 255, 255, 255, 255, 255, 255, 255, 255, 255, 255, 255,
   255, 255, 255, 255, 255, 255, 255, 255, 255, 255, 255, 255, 255, 255, 255, 255,
   255, 255, 255, 255, 255, 255, 255, 255, 255, 255, 255, 255, 255, 255, 255, 255,
   255, 255, 255, 255, 255, 255, 255, 255, 255, 255, 255, 255, 255, 255, 255, 255]"

definition r_base64_is_valid_char :: "ruint8 \<Rightarrow> bool" where
  "r_base64_is_valid_char ch \<longleftrightarrow> base64_dec_table ! unat ch < 64"

section \<open>Encoding\<close>

text \<open>Consecutive stores through an advancing pointer.\<close>

definition put_bytes :: "ruint8 list \<Rightarrow> nat \<Rightarrow> ruint8 list \<Rightarrow> ruint8 list option" where
  "put_bytes dst p bs = memcpy dst p bs 0 (length bs)"

definition enc_char :: "ruint8 \<Rightarrow> ruint8" where
  "enc_char i = base64_enc_table ! unat i"

text \<open>The characters written for three, two and one bytes.\<close>

definition enc_quad :: "ruint8 \<Rightarrow> ruint8 \<Rightarrow> ruint8 \<Rightarrow> ruint8 list" where
  "enc_quad a b c =
     [enc_char (drop_bit 2 (a AND 0xfc)),
      enc_char (push_bit 4 (a AND 0x03) OR drop_bit 4 (b AND 0xf0)),
      enc_char (push_bit 2 (b AND 0x0f) OR drop_bit 6 (c AND 0xc0)),
      enc_char (c AND 0x3f)]"

definition enc_two :: "ruint8 \<Rightarrow> ruint8 \<Rightarrow> ruint8 list" where
  "enc_two a b =
     [enc_char (drop_bit 2 (a AND 0xfc)),
      enc_char (push_bit 4 (a AND 0x03) OR drop_bit 4 (b AND 0xf0)),
      enc_char (push_bit 2 (b AND 0x0f)),
      61]"

definition enc_one :: "ruint8 \<Rightarrow> ruint8 list" where
  "enc_one a =
     [enc_char (drop_bit 2 (a AND 0xfc)),
      enc_char (push_bit 4 (a AND 0x03)),
      61,
      61]"

fun r_base64_encode_loop ::
  "ruint8 list \<Rightarrow> nat \<Rightarrow> nat \<Rightarrow> ruint8 list \<Rightarrow> nat \<Rightarrow> nat \<Rightarrow> (ruint8 list \<times> nat \<times> nat \<times> nat \<times> nat) option" where
  "r_base64_encode_loop dst p dsize src q sz =
     (if sz \<ge> 3 \<and> dsize \<ge> 4 then do {
        a \<leftarrow> fetch src q;
        b \<leftarrow> fetch src (q + 1);
        c \<leftarrow> fetch src (q + 2);
        dst \<leftarrow> put_bytes dst p (enc_quad a b c);
        r_base64_encode_loop dst (p + 4) (dsize - 4) src (q + 3) (sz - 3)
      }
      else Some (dst, p, dsize, q, sz))"

declare r_base64_encode_loop.simps [simp del]

definition enc_rest :: "ruint8 list \<Rightarrow> nat \<Rightarrow> ruint8 list \<Rightarrow> nat \<Rightarrow> nat \<Rightarrow> (ruint8 list \<times> nat) option" where
  "enc_rest dst p src q sz =
     (if sz = 2 then do {
        a \<leftarrow> fetch src q;
        b \<leftarrow> fetch src (q + 1);
        dst \<leftarrow> put_bytes dst p (enc_two a b);
        Some (dst, p + 4)
      }
      else if sz = 1 then do {
        a \<leftarrow> fetch src q;
        dst \<leftarrow> put_bytes dst p (enc_one a);
        Some (dst, p + 4)
      }
      else Some (dst, p))"

definition r_base64_encode ::
  "ruint8 list option \<Rightarrow> nat \<Rightarrow> ruint8 list option \<Rightarrow> nat \<Rightarrow> (nat \<times> ruint8 list option) option" where
  "r_base64_encode dst dsize dat sz =
     (case (dst, dat) of
        (Some buf, Some src) \<Rightarrow> do {
          (buf, p, dsize, q, sz) \<leftarrow> r_base64_encode_loop buf 0 dsize src 0 sz;
          (buf, p) \<leftarrow> (if dsize \<ge> 4 then enc_rest buf p src q sz else Some (buf, p));
          Some (p, Some buf)
        }
      | _ \<Rightarrow> Some (0, dst))"

text \<open>
  The allocating forms.  \<open>mem s\<close> is what the allocation of \<open>s\<close> bytes returns; sizes wrap at 64 bits.  A
  result is the string and the size stored through the out pointer.
\<close>

definition r_base64_encode_dup ::
  "(nat \<Rightarrow> ruint8 list option) \<Rightarrow> ruint8 list option \<Rightarrow> nat \<Rightarrow> (ruint8 list \<times> nat) option option" where
  "r_base64_encode_dup mem dat sz =
     (if dat \<noteq> None \<and> sz \<noteq> 0 then
        (let s = ((sz + 2) mod 2 ^ 64 div 3 * 4 + 1) mod 2 ^ 64 in
         if s > sz then
           (case mem s of
              None \<Rightarrow> Some None
            | Some ret \<Rightarrow> do {
                (n, ret) \<leftarrow> r_base64_encode (Some ret) s dat sz;
                ret \<leftarrow> ret;
                if n = s - 1 then do {
                  ret \<leftarrow> store ret (s - 1) 0;
                  Some (Some (ret, s - 1))
                }
                else Some None
              })
         else Some None)
      else Some None)"

fun encode_lines_loop ::
  "ruint8 list \<Rightarrow> nat \<Rightarrow> ruint8 list \<Rightarrow> nat \<Rightarrow> nat \<Rightarrow> nat \<Rightarrow> nat \<Rightarrow> (ruint8 list \<times> nat \<times> nat \<times> nat) option" where
  "encode_lines_loop dst p src q sz linesize lpos =
     (if sz \<ge> 3 then do {
        a \<leftarrow> fetch src q;
        b \<leftarrow> fetch src (q + 1);
        c \<leftarrow> fetch src (q + 2);
        dst \<leftarrow> put_bytes dst p (enc_quad a b c);
        let p = p + 4;
        let lpos = lpos + 4;
        if lpos \<ge> linesize then
          (if sz > 3 then do {
             dst \<leftarrow> put_bytes dst p [10];
             encode_lines_loop dst (p + 1) src (q + 3) (sz - 3) linesize 0
           }
           else encode_lines_loop dst p src (q + 3) (sz - 3) linesize 0)
        else encode_lines_loop dst p src (q + 3) (sz - 3) linesize lpos
      }
      else Some (dst, p, q, sz))"

declare encode_lines_loop.simps [simp del]

definition r_base64_encode_dup_full ::
  "(nat \<Rightarrow> ruint8 list option) \<Rightarrow> ruint8 list option \<Rightarrow> nat \<Rightarrow> nat \<Rightarrow> (ruint8 list \<times> nat) option option" where
  "r_base64_encode_dup_full mem dat sz linesize =
     (if linesize = 0 then r_base64_encode_dup mem dat sz
      else (case dat of
          None \<Rightarrow> Some None
        | Some src \<Rightarrow>
            if sz = 0 then Some None
            else
              (let s = (sz + 2) mod 2 ^ 64 div 3 * 4 mod 2 ^ 64;
                   l = (linesize + 3) mod 2 ^ 64 div 4 * 4 in
               if l = 0 then None
               else
                 (case mem ((s + s div l + 1) mod 2 ^ 64) of
                    None \<Rightarrow> Some None
                  | Some ret \<Rightarrow> do {
                      (ret, p, q, sz) \<leftarrow> encode_lines_loop ret 0 src 0 sz linesize 0;
                      (ret, p) \<leftarrow> enc_rest ret p src q sz;
                      ret \<leftarrow> store ret p 0;
                      Some (Some (ret, p))
                    }))))"

section \<open>Decoding\<close>

text \<open>
  The inner loop fills four digits from the text at \<open>s\<close>; it ends with \<open>True\<close> when it jumps to the tail.
\<close>

function fill_scratch ::
  "ruint8 list \<Rightarrow> nat \<Rightarrow> nat \<Rightarrow> nat \<Rightarrow> ruint8 list \<Rightarrow> (nat \<times> nat \<times> ruint8 list \<times> bool) option" where
  "fill_scratch src s e i scratch =
     (if i < 4 then
        if s \<ge> e then Some (s, i, scratch, True)
        else do {
          ch \<leftarrow> fetch src s;
          c \<leftarrow> fetch base64_dec_table (unat ch);
          if c < 64 then do {
            scratch \<leftarrow> store scratch i c;
            fill_scratch src (s + 1) e (i + 1) scratch
          }
          else if c = R_BASE64_BYTE_SPACE then fill_scratch src (s + 1) e i scratch
          else Some (s + 1, i, scratch, True)
        }
      else Some (s, i, scratch, False))"
  by pat_completeness auto
termination
  by (relation "measure (\<lambda>(src, s, e, i, scratch). e - s)") auto

declare fill_scratch.simps [simp del]

definition dec_byte0 :: "ruint8 list \<Rightarrow> ruint8" where
  "dec_byte0 scratch = (push_bit 2 (scratch ! 0) AND 0xfc) OR (drop_bit 4 (scratch ! 1) AND 0x03)"

definition dec_byte1 :: "ruint8 list \<Rightarrow> ruint8" where
  "dec_byte1 scratch = (push_bit 4 (scratch ! 1) AND 0xf0) OR (drop_bit 2 (scratch ! 2) AND 0x0f)"

definition dec_byte2 :: "ruint8 list \<Rightarrow> ruint8" where
  "dec_byte2 scratch = (push_bit 6 (scratch ! 2) AND 0xc0) OR (drop_bit 0 (scratch ! 3) AND 0x3f)"

text \<open>A byte of the tail is stored if there is room for it.\<close>

definition put_tail :: "ruint8 list \<Rightarrow> nat \<Rightarrow> nat \<Rightarrow> ruint8 \<Rightarrow> (ruint8 list \<times> nat) option" where
  "put_tail dst dsize p v = (if p < dsize then do { dst \<leftarrow> store dst p v; Some (dst, p + 1) } else Some (dst, p))"

definition decode_tail :: "ruint8 list \<Rightarrow> nat \<Rightarrow> nat \<Rightarrow> nat \<Rightarrow> ruint8 list \<Rightarrow> (ruint8 list \<times> nat) option" where
  "decode_tail dst dsize p i scratch =
     (if i = 3 then do {
        (dst, p) \<leftarrow> put_tail dst dsize p (dec_byte0 scratch);
        put_tail dst dsize p (dec_byte1 scratch)
      }
      else if i = 2 then put_tail dst dsize p (dec_byte0 scratch)
      else Some (dst, p))"

text \<open>The inner loop advances whenever it fills the digits, so the outer one ends.\<close>

lemma fill_scratch_advances: "fill_scratch src s e i scratch = Some (s', i', scratch', False) \<Longrightarrow> s + 4 \<le> s' + i"
proof (induction src s e i scratch rule: fill_scratch.induct)
  case (1 src s e i scratch)
  show ?case using 1(3) 1(1,2) by (subst (asm) fill_scratch.simps) (fastforce split: if_splits Option.bind_splits)
qed

function r_base64_decode_loop ::
  "ruint8 list \<Rightarrow> nat \<Rightarrow> nat \<Rightarrow> ruint8 list \<Rightarrow> nat \<Rightarrow> nat \<Rightarrow> ruint8 list \<Rightarrow> (ruint8 list \<times> nat) option" where
  "r_base64_decode_loop src s e dst dsize p scratch =
     (if s < e then
        (case fill_scratch src s e 0 scratch of
           None \<Rightarrow> None
         | Some (s', i, scratch, True) \<Rightarrow> decode_tail dst dsize p i scratch
         | Some (s', i, scratch, False) \<Rightarrow>
             if p + 3 > dsize then Some (dst, p)
             else do {
               dst \<leftarrow> put_bytes dst p [dec_byte0 scratch, dec_byte1 scratch, dec_byte2 scratch];
               r_base64_decode_loop src s' e dst dsize (p + 3) scratch
             })
      else Some (dst, p))"
  by pat_completeness auto
termination
  by (relation "measure (\<lambda>(src, s, e, dst, dsize, p, scratch). e - s)") (auto dest!: fill_scratch_advances)

declare r_base64_decode_loop.simps [simp del]

definition r_base64_decode ::
  "ruint8 list \<Rightarrow> nat \<Rightarrow> ruint8 list option \<Rightarrow> int \<Rightarrow> (nat \<times> ruint8 list) option" where
  "r_base64_decode dst dsize dat sz =
     (case dat of
        None \<Rightarrow> Some (0, dst)
      | Some src \<Rightarrow> do {
          n \<leftarrow> (if sz < 0 then r_strlen dat else Some (nat sz));
          (dst, p) \<leftarrow> r_base64_decode_loop src 0 n dst dsize 0 [0, 0, 0, 0];
          Some (p, dst)
        })"

definition r_base64_decode_dup ::
  "(nat \<Rightarrow> ruint8 list option) \<Rightarrow> ruint8 list option \<Rightarrow> int \<Rightarrow> (ruint8 list \<times> nat) option option" where
  "r_base64_decode_dup mem dat sz =
     (case dat of
        None \<Rightarrow> Some None
      | Some src \<Rightarrow> do {
          n \<leftarrow> (if sz < 0 then r_strlen dat else Some (nat sz));
          if n = 0 then Some None
          else
            (case mem ((n div 4 + 1) * 3) of
               None \<Rightarrow> Some None
             | Some ret \<Rightarrow> do {
                 (m, ret) \<leftarrow> r_base64_decode ret ((n div 4 + 1) * 3) dat (int n);
                 ret \<leftarrow> store ret m 0;
                 Some (Some (ret, m))
               })
        })"

section \<open>RFC 4648\<close>

text \<open>The alphabet, and the digits of a text: white space is skipped and anything else ends it.\<close>

definition b64_char :: "nat \<Rightarrow> ruint8" where
  "b64_char n = of_nat (if n < 26 then n + 65 else if n < 52 then n + 71 else if n < 62 then n - 4 else if n = 62 then 43 else 47)"

definition b64_digit :: "ruint8 \<Rightarrow> nat option" where
  "b64_digit ch = (let c = unat ch in
     if 65 \<le> c \<and> c \<le> 90 then Some (c - 65)
     else if 97 \<le> c \<and> c \<le> 122 then Some (c - 71)
     else if 48 \<le> c \<and> c \<le> 57 then Some (c + 4)
     else if c = 43 then Some 62 else if c = 47 then Some 63 else None)"

definition b64_space :: "ruint8 \<Rightarrow> bool" where
  "b64_space ch \<longleftrightarrow> ch \<in> {9, 10, 12, 13, 32}"

fun b64_digits :: "ruint8 list \<Rightarrow> nat list" where
  "b64_digits [] = []"
| "b64_digits (c # cs) = (case b64_digit c of Some d \<Rightarrow> d # b64_digits cs | None \<Rightarrow> if b64_space c then b64_digits cs else [])"

text \<open>Three bytes are a number of four digits to the base 64; what is missing of them is zero bits.\<close>

fun b64_sextets :: "ruint8 list \<Rightarrow> nat list" where
  "b64_sextets (a # b # c # bs) =
     (let n = unat a * 65536 + unat b * 256 + unat c in [n div 262144, n div 4096 mod 64, n div 64 mod 64, n mod 64]) @ b64_sextets bs"
| "b64_sextets [a, b] = (let n = unat a * 65536 + unat b * 256 in [n div 262144, n div 4096 mod 64, n div 64 mod 64])"
| "b64_sextets [a] = (let n = unat a * 65536 in [n div 262144, n div 4096 mod 64])"
| "b64_sextets [] = []"

definition b64_encode :: "ruint8 list \<Rightarrow> ruint8 list" where
  "b64_encode bs = (let cs = map b64_char (b64_sextets bs) in cs @ replicate ((4 - length cs mod 4) mod 4) 61)"

fun b64_bytes :: "nat list \<Rightarrow> ruint8 list" where
  "b64_bytes (a # b # c # d # ds) =
     (let n = a * 262144 + b * 4096 + c * 64 + d in [of_nat (n div 65536), of_nat (n div 256), of_nat n]) @ b64_bytes ds"
| "b64_bytes [a, b, c] = (let n = a * 4096 + b * 64 + c in [of_nat (n div 1024), of_nat (n div 4)])"
| "b64_bytes [a, b] = [of_nat ((a * 64 + b) div 16)]"
| "b64_bytes _ = []"

text \<open>What fits into \<open>n\<close> bytes: whole groups of three, or all of these and as much of the rest.\<close>

definition b64_fit :: "nat \<Rightarrow> nat list \<Rightarrow> ruint8 list" where
  "b64_fit n ds = (if length ds div 4 * 3 \<le> n then take n (b64_bytes ds) else take (n div 3 * 3) (b64_bytes ds))"

text \<open>A line break after every \<open>l\<close> characters that others follow, the first after \<open>k\<close>.\<close>

function b64_wrap :: "nat \<Rightarrow> nat \<Rightarrow> ruint8 list \<Rightarrow> ruint8 list" where
  "b64_wrap l k cs = (if 0 < k \<and> k < length cs then take k cs @ 10 # b64_wrap l l (drop k cs) else cs)"
  by pat_completeness auto
termination
  by (relation "measure (\<lambda>(l, k, cs). length cs)") auto

declare b64_wrap.simps [simp del]

section \<open>Tables and bit fields\<close>

lemma all_bytes: "list_all P (map of_nat [0..<256]) \<Longrightarrow> P (b :: ruint8)"
proof -
  assume a: "list_all P (map of_nat [0..<256])"
  have "b = of_nat (unat b)" "unat b < 256" using byte_less [of b] by simp_all
  then have "b \<in> set (map of_nat [0..<256])" by (metis atLeastLessThan_iff image_eqI list.set_map set_upt zero_le)
  then show "P b" using a by (simp only: list_all_iff)
qed

lemma enc_char_code: "n < 64 \<Longrightarrow> base64_enc_table ! n = b64_char n"
proof -
  have "map b64_char [0..<64] = base64_enc_table" by code_simp
  then show "n < 64 \<Longrightarrow> base64_enc_table ! n = b64_char n" by (metis add_0 length_map length_upt minus_nat.diff_0 nth_map nth_upt)
qed

lemma dec_table_code:
  "base64_dec_table ! unat c = (case b64_digit c of Some d \<Rightarrow> of_nat d | None \<Rightarrow> if b64_space c then 111 else if c = 61 then 214 else 255)"
  by (rule all_bytes) code_simp

lemma length_dec_table: "length base64_dec_table = 256"
  by (simp add: base64_dec_table_def)

lemma b64_digit_less: "b64_digit c = Some d \<Longrightarrow> d < 64"
  by (auto simp: b64_digit_def Let_def split: if_splits)

lemma b64_digit_char: "n < 64 \<Longrightarrow> b64_digit (b64_char n) = Some n"
proof -
  have "map (\<lambda>n. b64_digit (b64_char n)) [0..<64] = map Some [0..<64]" by code_simp
  then show "n < 64 \<Longrightarrow> b64_digit (b64_char n) = Some n" by (simp only: map_eq_conv set_upt) simp
qed

lemma byte_fields:
  fixes a :: ruint8
  shows "unat (drop_bit 2 (a AND 0xfc)) = unat a div 4" "unat (push_bit 4 (a AND 0x03)) = unat a mod 4 * 16"
    "unat (drop_bit 4 (a AND 0xf0)) = unat a div 16" "unat (push_bit 2 (a AND 0x0f)) = unat a mod 16 * 4"
    "unat (drop_bit 6 (a AND 0xc0)) = unat a div 64" "unat (a AND 0x3f) = unat a mod 64"
proof -
  have m: "(0xfc :: ruint8) = NOT (mask 2)" "(0xf0 :: ruint8) = NOT (mask 4)" "(0xc0 :: ruint8) = NOT (mask 6)"
    "(0x03 :: ruint8) = mask 2" "(0x0f :: ruint8) = mask 4" "(0x3f :: ruint8) = mask 6" by (simp_all add: mask_eq_exp_minus_1)
  show "unat (drop_bit 2 (a AND 0xfc)) = unat a div 4" "unat (drop_bit 4 (a AND 0xf0)) = unat a div 16"
    "unat (drop_bit 6 (a AND 0xc0)) = unat a div 64" "unat (a AND 0x3f) = unat a mod 64"
    unfolding m unat_drop_bit_eq unat_and_high unat_mask_eq_mod by (simp_all add: drop_bit_eq_div)
  have l: "unat a mod 4 * 16 < 256" "unat a mod 16 * 4 < 256" by linarith+
  have "unat (push_bit 4 (a AND mask 2)) = unat (a AND mask 2) * 2 ^ 4" "unat (push_bit 2 (a AND mask 4)) = unat (a AND mask 4) * 2 ^ 2"
    by (rule unat_push_bit, use l in \<open>simp add: unat_mask_eq_mod\<close>)+
  then show "unat (push_bit 4 (a AND 0x03)) = unat a mod 4 * 16" "unat (push_bit 2 (a AND 0x0f)) = unat a mod 16 * 4"
    unfolding m unat_mask_eq_mod by simp_all
qed

lemma digit_fields:
  fixes v :: ruint8
  shows "unat (push_bit 2 v AND 0xfc) = unat v mod 64 * 4" "unat (drop_bit 4 v AND 0x03) = unat v div 16 mod 4"
    "unat (push_bit 4 v AND 0xf0) = unat v mod 16 * 16" "unat (drop_bit 2 v AND 0x0f) = unat v div 4 mod 16"
    "unat (push_bit 6 v AND 0xc0) = unat v mod 4 * 64" "unat (drop_bit 0 v AND 0x3f) = unat v mod 64"
proof -
  have m: "(0xfc :: ruint8) = NOT (mask 2)" "(0xf0 :: ruint8) = NOT (mask 4)" "(0xc0 :: ruint8) = NOT (mask 6)"
    "(0x03 :: ruint8) = mask 2" "(0x0f :: ruint8) = mask 4" "(0x3f :: ruint8) = mask 6" by (simp_all add: mask_eq_exp_minus_1)
  have p: "unat (push_bit 2 v) = unat v mod 64 * 4" "unat (push_bit 4 v) = unat v mod 16 * 16" "unat (push_bit 6 v) = unat v mod 4 * 64"
    using mod_mult_mult2 [of "unat v" 4 64] mod_mult_mult2 [of "unat v" 16 16] mod_mult_mult2 [of "unat v" 64 4]
    unfolding unsigned_push_bit_eq by (simp_all add: push_bit_eq_mult take_bit_eq_mod)
  show "unat (push_bit 2 v AND 0xfc) = unat v mod 64 * 4" "unat (drop_bit 4 v AND 0x03) = unat v div 16 mod 4"
    "unat (push_bit 4 v AND 0xf0) = unat v mod 16 * 16" "unat (drop_bit 2 v AND 0x0f) = unat v div 4 mod 16"
    "unat (push_bit 6 v AND 0xc0) = unat v mod 4 * 64" "unat (drop_bit 0 v AND 0x3f) = unat v mod 64"
    unfolding m unat_and_high unat_mask_eq_mod p unat_drop_bit_eq by (simp_all add: drop_bit_eq_div)
qed

text \<open>Numbers of four digits to the base 64, and of three to the base 256.\<close>

lemma digits64:
  fixes p q r s :: nat
  assumes "q < 64" "r < 64" "s < 64"
  shows "(p * 262144 + q * 4096 + r * 64 + s) div 262144 = p" "(p * 262144 + q * 4096 + r * 64 + s) div 4096 mod 64 = q"
    "(p * 262144 + q * 4096 + r * 64 + s) div 64 mod 64 = r" "(p * 262144 + q * 4096 + r * 64 + s) mod 64 = s"
proof -
  have "p * 262144 + q * 4096 + r * 64 + s = 262144 * p + (q * 4096 + r * 64 + s)" "q * 4096 + r * 64 + s < 262144" using assms by simp_all
  then show "(p * 262144 + q * 4096 + r * 64 + s) div 262144 = p" by (metis add.right_neutral div_less div_mult_self4 zero_neq_numeral)
  have "p * 262144 + q * 4096 + r * 64 + s = 4096 * (64 * p + q) + (r * 64 + s)" "r * 64 + s < 4096" using assms by simp_all
  then have "(p * 262144 + q * 4096 + r * 64 + s) div 4096 = 64 * p + q" by (metis add.right_neutral div_less div_mult_self4 zero_neq_numeral)
  then show "(p * 262144 + q * 4096 + r * 64 + s) div 4096 mod 64 = q" using assms(1) by simp
  have "p * 262144 + q * 4096 + r * 64 + s = 64 * (64 * (64 * p + q) + r) + s" by simp
  then have "(p * 262144 + q * 4096 + r * 64 + s) div 64 = 64 * (64 * p + q) + r" "(p * 262144 + q * 4096 + r * 64 + s) mod 64 = s"
    using assms(3) by (metis add.right_neutral div_less div_mult_self4 zero_neq_numeral, metis mod_less mod_mult_self4)
  then show "(p * 262144 + q * 4096 + r * 64 + s) div 64 mod 64 = r" "(p * 262144 + q * 4096 + r * 64 + s) mod 64 = s"
    using assms(2) by (metis mod_less mod_mult_self4, simp)
qed

lemma three_bytes:
  fixes a b c :: ruint8
  shows "unat a * 65536 + unat b * 256 + unat c
    = unat a div 4 * 262144 + (unat a mod 4 * 16 + unat b div 16) * 4096 + (unat b mod 16 * 4 + unat c div 64) * 64 + unat c mod 64"
proof -
  have "4 * p + q = x \<Longrightarrow> 16 * r + s = y \<Longrightarrow> 64 * t + u = z \<Longrightarrow>
    x * 65536 + y * 256 + z = p * 262144 + (q * 16 + r) * 4096 + (s * 4 + t) * 64 + u" for p q r s t u x y z :: nat by simp
  then show ?thesis using mult_div_mod_eq [of 4 "unat a"] mult_div_mod_eq [of 16 "unat b"] mult_div_mod_eq [of 64 "unat c"] by blast
qed

lemma sextet_less:
  fixes a b :: ruint8
  shows "unat a div 4 < 64" "unat a mod 4 * 16 + unat b div 16 < 64" "unat a mod 16 * 4 + unat b div 64 < 64" "unat a mod 64 < 64"
proof -
  have "unat a < 64 * 4" "unat b < 16 * 16" "unat b < 4 * 64" using byte_less [of a] byte_less [of b] by simp_all
  then have "unat a div 4 < 64" "unat b div 16 < 16" "unat b div 64 < 4" by (simp_all only: less_mult_imp_div_less)
  moreover have "unat a mod 4 < 4" "unat a mod 16 < 16" "unat a mod 64 < 64" by simp_all
  ultimately show "unat a div 4 < 64" "unat a mod 4 * 16 + unat b div 16 < 64" "unat a mod 16 * 4 + unat b div 64 < 64" "unat a mod 64 < 64"
    by linarith+
qed

lemma enc_fields:
  fixes a b :: ruint8
  shows "enc_char (drop_bit 2 (a AND 0xfc)) = b64_char (unat a div 4)"
    "enc_char (push_bit 4 (a AND 0x03) OR drop_bit 4 (b AND 0xf0)) = b64_char (unat a mod 4 * 16 + unat b div 16)"
    "enc_char (push_bit 2 (a AND 0x0f) OR drop_bit 6 (b AND 0xc0)) = b64_char (unat a mod 16 * 4 + unat b div 64)"
    "enc_char (a AND 0x3f) = b64_char (unat a mod 64)"
    "enc_char (push_bit 2 (a AND 0x0f)) = b64_char (unat a mod 16 * 4)"
    "enc_char (push_bit 4 (a AND 0x03)) = b64_char (unat a mod 4 * 16)"
proof -
  have "unat (push_bit 4 (a AND 0x03) OR drop_bit 4 (b AND 0xf0)) = unat a mod 4 * 16 + unat b div 16"
    using unat_or_add(1) [of "drop_bit 4 (b AND 0xf0)" 4 "push_bit 4 (a AND 0x03)" "unat a mod 4"] byte_less [of b] by (simp only: byte_fields) simp
  moreover have "unat (push_bit 2 (a AND 0x0f) OR drop_bit 6 (b AND 0xc0)) = unat a mod 16 * 4 + unat b div 64"
    using unat_or_add(1) [of "drop_bit 6 (b AND 0xc0)" 2 "push_bit 2 (a AND 0x0f)" "unat a mod 16"] byte_less [of b] by (simp only: byte_fields) simp
  moreover have "unat a mod 16 * 4 < 64" "unat a mod 4 * 16 < 64" by linarith+
  ultimately show "enc_char (drop_bit 2 (a AND 0xfc)) = b64_char (unat a div 4)"
    "enc_char (push_bit 4 (a AND 0x03) OR drop_bit 4 (b AND 0xf0)) = b64_char (unat a mod 4 * 16 + unat b div 16)"
    "enc_char (push_bit 2 (a AND 0x0f) OR drop_bit 6 (b AND 0xc0)) = b64_char (unat a mod 16 * 4 + unat b div 64)"
    "enc_char (a AND 0x3f) = b64_char (unat a mod 64)"
    "enc_char (push_bit 2 (a AND 0x0f)) = b64_char (unat a mod 16 * 4)"
    "enc_char (push_bit 4 (a AND 0x03)) = b64_char (unat a mod 4 * 16)"
    unfolding enc_char_def by (simp_all only: byte_fields enc_char_code sextet_less)
qed

lemma enc_quad_code: "enc_quad a b c = map b64_char (b64_sextets [a, b, c])"
  unfolding enc_quad_def enc_fields b64_sextets.simps Let_def three_bytes digits64 [OF sextet_less(2-4)] by simp

lemma enc_two_code: "enc_two a b = map b64_char (b64_sextets [a, b]) @ [61]"
proof -
  have n: "unat a * 65536 + unat b * 256 = unat a div 4 * 262144 + (unat a mod 4 * 16 + unat b div 16) * 4096 + unat b mod 16 * 4 * 64 + 0"
    using three_bytes [of a b 0] by simp
  have "unat b mod 16 * 4 < 64" "(0 :: nat) < 64" by linarith+
  note d = digits64 [OF sextet_less(2) [of a b] this, of "unat a div 4"]
  show ?thesis unfolding enc_two_def enc_fields b64_sextets.simps Let_def n d by simp
qed

lemma enc_one_code: "enc_one a = map b64_char (b64_sextets [a]) @ [61, 61]"
proof -
  have n: "unat a * 65536 = unat a div 4 * 262144 + unat a mod 4 * 16 * 4096 + 0 * 64 + 0"
    using three_bytes [of a 0 0] by simp
  have "unat a mod 4 * 16 < 64" "(0 :: nat) < 64" by linarith+
  note d = digits64 [OF this(1) this(2) this(2), of "unat a div 4"]
  show ?thesis unfolding enc_one_def enc_fields b64_sextets.simps Let_def n d by simp
qed

lemma of_nat_mod_byte: "(of_nat (n mod 256) :: ruint8) = of_nat n"
  by (simp add: word_unat_eq_iff unsigned_of_nat take_bit_eq_mod)

lemma dec_numbers:
  fixes x y z w :: nat
  assumes "y < 64" "z < 64" "w < 64"
  shows "(x * 64 + y) div 16 = x * 4 + y div 16" "(x * 4096 + y * 64 + z) div 4 mod 256 = y mod 16 * 16 + z div 4"
    "(x * 262144 + y * 4096 + z * 64 + w) mod 256 = z mod 4 * 64 + w"
proof -
  have "x * 64 + y = 16 * (x * 4) + y" by simp
  then show "(x * 64 + y) div 16 = x * 4 + y div 16" by (metis div_mult_self4 zero_neq_numeral)
  have "x * 4096 + y * 64 + z = 4 * (x * 1024 + y * 16) + z" by simp
  then have "(x * 4096 + y * 64 + z) div 4 = x * 1024 + y * 16 + z div 4" by (metis div_mult_self4 zero_neq_numeral)
  also have "\<dots> = 256 * (x * 4 + y div 16) + (y mod 16 * 16 + z div 4)"
  proof -
    have "16 * p + q = y \<Longrightarrow> x * 1024 + y * 16 + r = 256 * (x * 4 + p) + (q * 16 + r)" for p q r by simp
    then show ?thesis using mult_div_mod_eq [of 16 y] by blast
  qed
  finally have "(x * 4096 + y * 64 + z) div 4 = 256 * (x * 4 + y div 16) + (y mod 16 * 16 + z div 4)" .
  moreover have "y mod 16 * 16 + z div 4 < 256"
  proof -
    have "y mod 16 < 16" "z div 4 < 16" using assms(2) by simp_all
    then show ?thesis by linarith
  qed
  ultimately show "(x * 4096 + y * 64 + z) div 4 mod 256 = y mod 16 * 16 + z div 4" by (metis mod_less mod_mult_self4)
  have "x * 262144 + y * 4096 + z * 64 + w = 256 * (x * 1024 + y * 16 + z div 4) + (z mod 4 * 64 + w)"
  proof -
    have "4 * p + q = z \<Longrightarrow> x * 262144 + y * 4096 + z * 64 + w = 256 * (x * 1024 + y * 16 + p) + (q * 64 + w)" for p q by simp
    then show ?thesis using mult_div_mod_eq [of 4 z] by blast
  qed
  moreover have "z mod 4 * 64 + w < 256"
  proof -
    have "z mod 4 < 4" by simp
    then show ?thesis using assms(3) by linarith
  qed
  ultimately show "(x * 262144 + y * 4096 + z * 64 + w) mod 256 = z mod 4 * 64 + w" by (metis mod_less mod_mult_self4)
qed

lemma dec_bytes_code:
  assumes "unat (v ! 0) = x" "unat (v ! 1) = y" "unat (v ! 2) = z" "x < 64" "y < 64" "z < 64"
  shows "dec_byte0 v = of_nat ((x * 64 + y) div 16)" "dec_byte1 v = of_nat ((x * 4096 + y * 64 + z) div 4)"
    "unat (v ! 3) = w \<Longrightarrow> w < 64 \<Longrightarrow> dec_byte2 v = of_nat (x * 262144 + y * 4096 + z * 64 + w)"
proof -
  have "unat (dec_byte0 v) = x mod 64 * 4 + y div 16 mod 4"
    unfolding dec_byte0_def
    using unat_or_add(1) [of "drop_bit 4 (v ! 1) AND 0x03" 2 "push_bit 2 (v ! 0) AND 0xfc" "x mod 64"] assms(1,2) by (simp only: digit_fields) simp
  also have "\<dots> = (x * 64 + y) div 16" using assms(4,5) dec_numbers(1) [OF assms(5,6), of 0 x] by simp
  finally have "of_nat (unat (dec_byte0 v)) = (of_nat ((x * 64 + y) div 16) :: ruint8)" by simp
  then show "dec_byte0 v = of_nat ((x * 64 + y) div 16)" by simp
  have "unat (dec_byte1 v) = y mod 16 * 16 + z div 4 mod 16"
    unfolding dec_byte1_def
    using unat_or_add(1) [of "drop_bit 2 (v ! 2) AND 0x0f" 4 "push_bit 4 (v ! 1) AND 0xf0" "y mod 16"] assms(2,3) by (simp only: digit_fields) simp
  also have "\<dots> = (x * 4096 + y * 64 + z) div 4 mod 256" using assms(4-6) dec_numbers(2) [OF assms(5,6), of 0 x] by simp
  finally have "of_nat (unat (dec_byte1 v)) = (of_nat ((x * 4096 + y * 64 + z) div 4 mod 256) :: ruint8)" by simp
  then show "dec_byte1 v = of_nat ((x * 4096 + y * 64 + z) div 4)" by (simp add: of_nat_mod_byte)
  assume w: "unat (v ! 3) = w" "w < 64"
  have "unat (dec_byte2 v) = z mod 4 * 64 + w mod 64"
    unfolding dec_byte2_def
    using unat_or_add(1) [of "drop_bit 0 (v ! 3) AND 0x3f" 6 "push_bit 6 (v ! 2) AND 0xc0" "z mod 4"] assms(3) w(1) by (simp only: digit_fields) simp
  also have "\<dots> = (x * 262144 + y * 4096 + z * 64 + w) mod 256" using assms(6) w(2) dec_numbers(3) [OF assms(5,6) w(2), of x] by simp
  finally have "of_nat (unat (dec_byte2 v)) = (of_nat ((x * 262144 + y * 4096 + z * 64 + w) mod 256) :: ruint8)" by simp
  then show "dec_byte2 v = of_nat (x * 262144 + y * 4096 + z * 64 + w)" by (simp add: of_nat_mod_byte)
qed

end
