(* ===== verification/RBase64Spec.thy ===== *)
theory RBase64Spec
  imports RBase64 RUnicodeText
begin

text \<open>
  The functions of \<^verbatim>\<open>rlib/rbase64.c\<close> against RFC 4648: what encoding stores, with and without line
  breaks, what decoding stores for any text and any buffer, and that decoding inverts encoding.
\<close>

section \<open>Encoding is RFC 4648\<close>

lemma enc_chars_length [simp]: "length (enc_quad a b c) = 4" "length (enc_two a b) = 4" "length (enc_one a) = 4"
  by (simp_all add: enc_quad_def enc_two_def enc_one_def)

lemma b64_encode_groups:
  "b64_encode [] = []" "b64_encode [a] = enc_one a" "b64_encode [a, b] = enc_two a b"
  "b64_encode (a # b # c # bs) = enc_quad a b c @ b64_encode bs"
proof -
  have l: "length (b64_sextets [a]) = 2" "length (b64_sextets [a, b]) = 3" "length (b64_sextets [a, b, c]) = 4"
    and s: "b64_sextets (a # b # c # bs) = b64_sextets [a, b, c] @ b64_sextets bs"
    by (simp_all only: b64_sextets.simps Let_def append_Nil2 list.size)
  show "b64_encode [] = []" by (simp add: b64_encode_def)
  show "b64_encode [a] = enc_one a" "b64_encode [a, b] = enc_two a b" "b64_encode (a # b # c # bs) = enc_quad a b c @ b64_encode bs"
    unfolding enc_quad_code enc_two_code enc_one_code b64_encode_def s Let_def
    by (simp_all add: l numeral_2_eq_2 del: b64_sextets.simps)
qed

lemma b64_encode_length: "length (b64_encode bs) = (length bs + 2) div 3 * 4"
proof (induction bs rule: b64_sextets.induct)
  case (1 a b c bs)
  have "(length (a # b # c # bs) + 2) div 3 = (length bs + 2 + 3 * 1) div 3" by simp
  also have "\<dots> = Suc ((length bs + 2) div 3)" by (subst div_mult_self2) simp_all
  finally show ?case using 1 by (simp add: b64_encode_groups)
qed (simp_all add: b64_encode_groups)

lemma drop_three: "q + 3 \<le> length src \<Longrightarrow> drop q src = src ! q # src ! (q + 1) # src ! (q + 2) # drop (q + 3) src"
  using Cons_nth_drop_Suc [of q src] Cons_nth_drop_Suc [of "Suc q" src] Cons_nth_drop_Suc [of "Suc (Suc q)" src]
  by (simp add: numeral_3_eq_3)

text \<open>The bytes \<open>out\<close> stored from \<open>p\<close> on, and two stores in a row.\<close>

definition stored :: "ruint8 list \<Rightarrow> nat \<Rightarrow> ruint8 list \<Rightarrow> ruint8 list" where
  "stored dst p out = take p dst @ out @ drop (p + length out) dst"

lemma stored_length [simp]: "p + length out \<le> length dst \<Longrightarrow> length (stored dst p out) = length dst"
  by (simp add: stored_def)

lemma stored_Nil [simp]: "stored dst p [] = dst"
  by (simp add: stored_def)

lemma stored_append:
  assumes "p + length xs + length ys \<le> length dst" "q = p + length xs"
  shows "stored (stored dst p xs) q ys = stored dst p (xs @ ys)"
  using assms by (simp add: stored_def ac_simps)

lemma put_bytes_stored [simp]: "p + length bs \<le> length dst \<Longrightarrow> put_bytes dst p bs = Some (stored dst p bs)"
  by (simp add: put_bytes_def stored_def)

lemma enc_rest_code:
  assumes "q + sz \<le> length src" "sz < 3" "p + length (b64_encode (take sz (drop q src))) \<le> length dst"
  shows "enc_rest dst p src q sz = (let out = b64_encode (take sz (drop q src)) in Some (stored dst p out, p + length out))"
proof -
  consider "sz = 0" | "sz = 1" | "sz = 2" using assms(2) by linarith
  then show ?thesis
  proof cases
    case 2
    then have "take sz (drop q src) = [src ! q]" using assms(1) by (simp add: take_Suc_conv_app_nth)
    then show ?thesis using 2 assms by (simp add: enc_rest_def b64_encode_groups)
  next
    case 3
    then have "take sz (drop q src) = [src ! q, src ! (q + 1)]" using assms(1) by (simp add: take_Suc_conv_app_nth numeral_2_eq_2)
    then show ?thesis using 3 assms by (simp add: enc_rest_def b64_encode_groups)
  qed (simp add: enc_rest_def b64_encode_groups)
qed

lemma r_base64_encode_loop_code:
  "q + sz \<le> length src \<Longrightarrow> p + dsize \<le> length dst \<Longrightarrow>
   (do {
      (buf, p, dsize, q, sz) \<leftarrow> r_base64_encode_loop dst p dsize src q sz;
      if dsize \<ge> 4 then enc_rest buf p src q sz else Some (buf, p)
    }) = (let out = take (dsize div 4 * 4) (b64_encode (take sz (drop q src))) in Some (stored dst p out, p + length out))"
proof (induction dst p dsize src q sz rule: r_base64_encode_loop.induct)
  case (1 dst p dsize src q sz)
  show ?case
  proof (cases "sz \<ge> 3 \<and> dsize \<ge> 4")
    case True
    let ?quad = "enc_quad (src ! q) (src ! (q + 1)) (src ! (q + 2))" and ?enc = "b64_encode (take (sz - 3) (drop (q + 3) src))"
    have q: "q < length src" "q + 1 < length src" "q + 2 < length src" and p: "p + length ?quad \<le> length dst" using True 1(2,3) by simp_all
    have "take sz (drop q src) = src ! q # src ! (q + 1) # src ! (q + 2) # take (sz - 3) (drop (q + 3) src)"
    proof -
      have "take (3 + n) (x # y # z # xs) = x # y # z # take n xs" for n and x y z :: ruint8 and xs by (simp add: numeral_3_eq_3)
      from this [of "sz - 3"] show ?thesis using drop_three [of q src] True 1(2) by simp
    qed
    then have enc: "b64_encode (take sz (drop q src)) = ?quad @ ?enc" by (simp add: b64_encode_groups)
    have d: "dsize div 4 * 4 = 4 + (dsize - 4) div 4 * 4" using True by (simp add: le_div_geq)
    let ?out = "take ((dsize - 4) div 4 * 4) ?enc"
    have o: "length ?out \<le> dsize - 4" by simp
    have "p + length ?quad + length ?out \<le> length dst" using o True 1(3) enc_chars_length(1) [of "src ! q" "src ! (q + 1)" "src ! (q + 2)"] by linarith
    then have "stored (stored dst p ?quad) (p + 4) ?out = stored dst p (?quad @ ?out)" by (rule stored_append) simp
    moreover have "take (dsize div 4 * 4) (?quad @ ?enc) = ?quad @ ?out" unfolding d by simp
    moreover have IH: "(do {
        (buf, p, dsize, q, sz) \<leftarrow> r_base64_encode_loop (stored dst p ?quad) (p + 4) (dsize - 4) src (q + 3) (sz - 3);
        if dsize \<ge> 4 then enc_rest buf p src q sz else Some (buf, p)
      }) = Some (stored (stored dst p ?quad) (p + 4) ?out, p + 4 + length ?out)"
      using 1(1) [OF True fetch_in [OF q(1)] fetch_in [OF q(2)] fetch_in [OF q(3)] put_bytes_stored [OF p]] True 1(2,3) by (simp add: Let_def)
    moreover have "r_base64_encode_loop dst p dsize src q sz = r_base64_encode_loop (stored dst p ?quad) (p + 4) (dsize - 4) src (q + 3) (sz - 3)"
      using True q p by (subst r_base64_encode_loop.simps) simp
    ultimately show ?thesis by (simp add: enc Let_def)
  next
    case False
    then have l: "r_base64_encode_loop dst p dsize src q sz = Some (dst, p, dsize, q, sz)" by (subst r_base64_encode_loop.simps) auto
    show ?thesis
    proof (cases "dsize \<ge> 4")
      case True
      then have sz: "sz < 3" using False by simp
      have "length (b64_encode (take sz (drop q src))) \<le> 4" using sz 1(2) by (simp add: b64_encode_length)
      moreover have "4 \<le> dsize div 4 * 4" using True by (simp add: le_div_geq)
      ultimately have "enc_rest dst p src q sz = (let out = b64_encode (take sz (drop q src)) in Some (stored dst p out, p + length out))"
          "take (dsize div 4 * 4) (b64_encode (take sz (drop q src))) = b64_encode (take sz (drop q src))"
        using enc_rest_code [OF 1(2) sz, of p dst] True 1(3) by simp_all
      then show ?thesis using l True by simp
    qed (use l in simp)
  qed
qed

text \<open>Line breaks: where they go, how many there are, and that a decoder does not see them.\<close>

lemma b64_wrap_step:
  assumes "length xs = 4" "4 \<le> k"
  shows "b64_wrap l k (xs @ ys) = (if k = 4 then if ys = [] then xs else xs @ 10 # b64_wrap l l ys else xs @ b64_wrap l (k - 4) ys)"
  using assms by (subst b64_wrap.simps; subst b64_wrap.simps [of l "k - 4"]) auto

lemma b64_wrap_short: "length cs \<le> k \<Longrightarrow> b64_wrap l k cs = cs"
  by (subst b64_wrap.simps) simp

lemma b64_wrap_length: "0 < l \<Longrightarrow> length (b64_wrap l l cs) \<le> length cs + length cs div l"
proof (induction "length cs" arbitrary: cs rule: less_induct)
  case less
  show ?case
  proof (cases "l < length cs")
    case True
    then have "length (b64_wrap l l (drop l cs)) \<le> length cs - l + (length cs - l) div l" using less.hyps [of "drop l cs"] less.prems by simp
    moreover have "length cs div l = Suc ((length cs - l) div l)" using True less.prems by (simp add: le_div_geq)
    ultimately show ?thesis using True less.prems by (subst b64_wrap.simps) simp
  qed (simp add: b64_wrap_short)
qed

lemma b64_digits_newline: "b64_digits (xs @ 10 # ys) = b64_digits (xs @ ys)"
proof (induction xs)
  case Nil
  then show ?case by (simp add: b64_digit_def b64_space_def)
qed (simp split: option.splits)

lemma b64_digits_wrap: "b64_digits (xs @ b64_wrap l k cs) = b64_digits (xs @ cs)"
proof (induction l k cs arbitrary: xs rule: b64_wrap.induct)
  case (1 l k cs)
  show ?case
  proof (cases "0 < k \<and> k < length cs")
    case True
    then have "b64_digits (xs @ b64_wrap l k cs) = b64_digits ((xs @ take k cs) @ b64_wrap l l (drop k cs))"
      using b64_digits_newline [of "xs @ take k cs"] by (subst b64_wrap.simps) simp
    also have "\<dots> = b64_digits (xs @ cs)" using 1 [OF True, of "xs @ take k cs"] by simp
    finally show ?thesis .
  qed (subst b64_wrap.simps, auto)
qed

text \<open>The characters of a line are a multiple of four.\<close>

definition line_chars :: "nat \<Rightarrow> nat" where
  "line_chars n = (n + 3) div 4 * 4"

lemma line_chars: "n \<le> line_chars n" "line_chars n < n + 4" "line_chars n mod 4 = 0" "0 < n \<Longrightarrow> 4 \<le> line_chars n"
proof -
  have "n + 3 = line_chars n + (n + 3) mod 4" unfolding line_chars_def by simp
  moreover have "(n + 3) mod 4 < 4" by simp
  ultimately show "n \<le> line_chars n" "line_chars n < n + 4" by linarith+
  show "line_chars n mod 4 = 0" by (simp add: line_chars_def)
  then show "0 < n \<Longrightarrow> 4 \<le> line_chars n" using \<open>n \<le> line_chars n\<close> by (cases "line_chars n < 4") simp_all
qed

lemma line_full:
  assumes "lpos mod 4 = 0" "lpos < n"
  shows "n \<le> lpos + 4 \<longleftrightarrow> line_chars n - lpos = 4" "4 \<le> line_chars n - lpos" "\<not> n \<le> lpos + 4 \<Longrightarrow> 4 < line_chars n - lpos"
proof -
  have "(line_chars n - lpos) mod 4 = 0" using assms line_chars(1,3) [of n] by (metis le_trans less_imp_le mod_0_imp_dvd dvd_diff_nat dvd_imp_mod_0)
  moreover have "lpos < line_chars n" "line_chars n < n + 4" using assms(2) line_chars(1,2) [of n] by linarith+
  moreover have "m mod 4 = 0 \<Longrightarrow> 0 < m \<Longrightarrow> m = 4 \<or> 8 \<le> m" for m :: nat
  proof -
    assume "m mod 4 = 0" "0 < m"
    then obtain j where "m = 4 * j" "0 < j" by auto
    then show ?thesis by (cases "j = 1") simp_all
  qed
  ultimately have "line_chars n - lpos = 4 \<or> 8 \<le> line_chars n - lpos" "line_chars n < n + 4" "lpos < line_chars n" "n \<le> line_chars n"
    using line_chars(1) [of n] by auto
  then show "n \<le> lpos + 4 \<longleftrightarrow> line_chars n - lpos = 4" "4 \<le> line_chars n - lpos" "\<not> n \<le> lpos + 4 \<Longrightarrow> 4 < line_chars n - lpos" by linarith+
qed

lemma encode_lines_loop_code:
  "q + sz \<le> length src \<Longrightarrow> lpos mod 4 = 0 \<Longrightarrow> lpos < linesize \<Longrightarrow>
   p + length (b64_wrap (line_chars linesize) (line_chars linesize - lpos) (b64_encode (take sz (drop q src)))) \<le> length dst \<Longrightarrow>
   (do {
      (buf, p, q, sz) \<leftarrow> encode_lines_loop dst p src q sz linesize lpos;
      enc_rest buf p src q sz
    }) = (let out = b64_wrap (line_chars linesize) (line_chars linesize - lpos) (b64_encode (take sz (drop q src)))
          in Some (stored dst p out, p + length out))"
proof (induction sz arbitrary: dst p q lpos rule: less_induct)
  case (less sz)
  let ?L = "line_chars linesize"
  show ?case
  proof (cases "sz \<ge> 3")
    case True
    let ?quad = "enc_quad (src ! q) (src ! (q + 1)) (src ! (q + 2))" and ?enc = "b64_encode (take (sz - 3) (drop (q + 3) src))"
    have q: "q < length src" "q + 1 < length src" "q + 2 < length src" using True less.prems(1) by simp_all
    have enc: "b64_encode (take sz (drop q src)) = ?quad @ ?enc"
    proof -
      have "take (3 + n) (x # y # z # xs) = x # y # z # take n xs" for n and x y z :: ruint8 and xs by (simp add: numeral_3_eq_3)
      from this [of "sz - 3"] show ?thesis using drop_three [of q src] True less.prems(1) by (simp add: b64_encode_groups)
    qed
    have empty: "?enc = [] \<longleftrightarrow> sz = 3" 
    proof -
      have "length ?enc = (sz - 3 + 2) div 3 * 4" using True less.prems(1) by (simp add: b64_encode_length)
      then show ?thesis using True by (cases "sz = 3") (auto simp: div_eq_0_iff simp flip: length_0_conv)
    qed
    note full = line_full [OF less.prems(2,3)]
    let ?out = "b64_wrap ?L (?L - lpos) (?quad @ ?enc)"
    have dec: "sz - 3 < sz" using True by simp
    have src: "q + 3 + (sz - 3) \<le> length src" using True less.prems(1) by simp
    have room: "p + length ?out \<le> length dst" using less.prems(4) by (simp only: enc)
    note wrap = b64_wrap_step [OF enc_chars_length(1) full(2), of ?L "src ! q" "src ! (q + 1)" "src ! (q + 2)" ?enc]
    have p: "p + length ?quad \<le> length dst" using room unfolding wrap by (simp split: if_splits)
    have step: "encode_lines_loop dst p src q sz linesize lpos = (let dst = stored dst p ?quad in
        if lpos + 4 \<ge> linesize then
          (if sz > 3 then do {
             dst \<leftarrow> put_bytes dst (p + 4) [10];
             encode_lines_loop dst (p + 4 + 1) src (q + 3) (sz - 3) linesize 0
           }
           else encode_lines_loop dst (p + 4) src (q + 3) (sz - 3) linesize 0)
        else encode_lines_loop dst (p + 4) src (q + 3) (sz - 3) linesize (lpos + 4))"
      using True q p by (subst encode_lines_loop.simps) (simp add: Let_def)
    have L: "0 < linesize" "?L - 0 = ?L" using less.prems(3) by simp_all
    consider (more) "lpos + 4 \<ge> linesize" "sz > 3" | (last) "lpos + 4 \<ge> linesize" "sz = 3" | (within) "\<not> lpos + 4 \<ge> linesize"
      using True by linarith
    then show ?thesis
    proof cases
      case more
      then have out: "?out = ?quad @ [10] @ b64_wrap ?L ?L ?enc" using full(1) empty unfolding wrap by simp
      then have r: "p + 4 + 1 + length (b64_wrap ?L ?L ?enc) \<le> length dst" using room by simp
      have two: "stored (stored dst p ?quad) (p + 4) [10] = stored dst p (?quad @ [10])"
        by (rule stored_append) (use r in simp_all)
      have "p + 4 + length [10 :: ruint8] \<le> length (stored dst p ?quad)" using r p by simp
      then have st: "put_bytes (stored dst p ?quad) (p + 4) [10] = Some (stored dst p (?quad @ [10]))"
        by (simp only: put_bytes_stored two)
      have "stored (stored dst p (?quad @ [10])) (p + 4 + 1) (b64_wrap ?L ?L ?enc) = stored dst p ?out"
        unfolding out using stored_append [of p "?quad @ [10]" "b64_wrap ?L ?L ?enc" dst "p + 4 + 1"] r by simp
      note st2 = this
      have len: "p + 4 + 1 + length (b64_wrap ?L ?L ?enc) = p + length ?out" unfolding out by simp
      have loop: "encode_lines_loop dst p src q sz linesize lpos
          = encode_lines_loop (stored dst p (?quad @ [10])) (p + 4 + 1) src (q + 3) (sz - 3) linesize 0"
        unfolding step Let_def using more st by (simp only: if_True bind.bind_lunit simp_thms)
      have r': "p + 4 + 1 + length (b64_wrap ?L (?L - 0) ?enc) \<le> length (stored dst p (?quad @ [10]))" using r by simp
      have z: "0 mod 4 = (0 :: nat)" by simp
      show ?thesis unfolding loop enc Let_def st2 [symmetric] len [symmetric]
        by (rule less.IH [OF dec src z L(1) r', unfolded Let_def L(2)])
    next
      case last
      then have out: "?out = ?quad" and e: "?enc = []" using full(1) empty unfolding wrap by simp_all
      have "encode_lines_loop dst p src q sz linesize lpos = encode_lines_loop (stored dst p ?quad) (p + 4) src (q + 3) (sz - 3) linesize 0"
        unfolding step Let_def using last by (simp only: if_True if_False less_irrefl simp_thms)
      moreover have "encode_lines_loop (stored dst p ?quad) (p + 4) src (q + 3) (sz - 3) linesize 0 = Some (stored dst p ?quad, p + 4, q + 3, 0)"
        using last by (subst encode_lines_loop.simps) simp
      ultimately have loop: "encode_lines_loop dst p src q sz linesize lpos = Some (stored dst p ?quad, p + 4, q + 3, 0)" by (rule trans)
      show ?thesis unfolding loop enc out Let_def by (simp add: enc_rest_def)
    next
      case within
      have ne: "?L - lpos \<noteq> 4" using full(1) within by blast
      have k: "?L - lpos - 4 = ?L - (lpos + 4)" by simp
      have out: "?out = ?quad @ b64_wrap ?L (?L - (lpos + 4)) ?enc" unfolding wrap k using ne by (simp only: if_False)
      have r: "p + 4 + length (b64_wrap ?L (?L - (lpos + 4)) ?enc) \<le> length dst"
        using room unfolding out length_append enc_chars_length by (simp only: add.assoc)
      have "stored (stored dst p ?quad) (p + 4) (b64_wrap ?L (?L - (lpos + 4)) ?enc) = stored dst p ?out"
        unfolding out by (rule stored_append) (use r in \<open>simp_all only: enc_chars_length\<close>)
      note st2 = this
      have len: "p + 4 + length (b64_wrap ?L (?L - (lpos + 4)) ?enc) = p + length ?out" unfolding out length_append enc_chars_length by (simp only: add.assoc)
      have loop: "encode_lines_loop dst p src q sz linesize lpos
          = encode_lines_loop (stored dst p ?quad) (p + 4) src (q + 3) (sz - 3) linesize (lpos + 4)"
        unfolding step Let_def using within by (simp only: if_False simp_thms)
      have r': "p + 4 + length (b64_wrap ?L (?L - (lpos + 4)) ?enc) \<le> length (stored dst p ?quad)" using r by (simp only: stored_length [OF p])
      have z: "(lpos + 4) mod 4 = 0" "lpos + 4 < linesize" using less.prems(2) within by simp_all
      show ?thesis unfolding loop enc Let_def st2 [symmetric] len [symmetric]
        by (rule less.IH [OF dec src z r', unfolded Let_def])
    qed
  next
    case False
    then have "encode_lines_loop dst p src q sz linesize lpos = Some (dst, p, q, sz)" by (subst encode_lines_loop.simps) simp
    moreover have "length (b64_encode (take sz (drop q src))) \<le> 4" using False less.prems(1) by (simp add: b64_encode_length)
    then have "b64_wrap ?L (?L - lpos) (b64_encode (take sz (drop q src))) = b64_encode (take sz (drop q src))"
      using line_full(2) [OF less.prems(2,3)] by (intro b64_wrap_short) linarith
    ultimately show ?thesis using enc_rest_code [of q sz src p dst] False less.prems(1,4) by simp
  qed
qed

section \<open>Decoding\<close>

text \<open>The digits left in the text from \<open>s\<close> on.\<close>

abbreviation digits_from :: "ruint8 list \<Rightarrow> nat \<Rightarrow> nat \<Rightarrow> nat list" where
  "digits_from src s e \<equiv> b64_digits (take (e - s) (drop s src))"

lemma digits_from_step:
  assumes "s < e" "e \<le> length src"
  shows "digits_from src s e = (case b64_digit (src ! s) of Some d \<Rightarrow> d # digits_from src (s + 1) e
    | None \<Rightarrow> if b64_space (src ! s) then digits_from src (s + 1) e else [])"
proof -
  have "drop s src = src ! s # drop (s + 1) src" using Cons_nth_drop_Suc [of s src] assms by simp
  moreover have "e - s = Suc (e - (s + 1))" using assms(1) by simp
  ultimately show ?thesis by (simp split: option.split)
qed

text \<open>The digits collected: the first \<open>i\<close> entries of the scratch area.\<close>

definition collected :: "ruint8 list \<Rightarrow> nat \<Rightarrow> nat list" where
  "collected scratch i = map unat (take i scratch)"

lemma collected_store:
  assumes "i < length scratch" "d < 64"
  shows "collected (scratch[i := of_nat d]) (i + 1) = collected scratch i @ [d]"
proof -
  have "unat (of_nat d :: ruint8) = d" using assms(2) by (simp add: unat_of_nat)
  then show ?thesis using assms(1) by (simp add: collected_def take_Suc_conv_app_nth)
qed

lemma dec_table_digit:
  "b64_digit c = Some d \<Longrightarrow> base64_dec_table ! unat c = of_nat d \<and> (of_nat d :: ruint8) < 64"
  "b64_digit c = None \<Longrightarrow> b64_space c \<Longrightarrow> base64_dec_table ! unat c = 111"
  "b64_digit c = None \<Longrightarrow> \<not> b64_space c \<Longrightarrow> \<not> base64_dec_table ! unat c < 64 \<and> base64_dec_table ! unat c \<noteq> 111"
  by (auto simp: dec_table_code word_less_nat_alt unat_of_nat dest: b64_digit_less)

lemma fill_scratch_code:
  assumes "e \<le> length src"
  shows "i \<le> 4 \<Longrightarrow> length scratch = 4 \<Longrightarrow> s \<le> e \<Longrightarrow> digits_from src s e = ds \<Longrightarrow>
    \<exists>s' scratch'. fill_scratch src s e i scratch = Some (s', min 4 (i + length ds), scratch', i + length ds < 4) \<and>
      length scratch' = 4 \<and> s' \<le> e \<and> collected scratch' (min 4 (i + length ds)) = collected scratch i @ take (4 - i) ds \<and>
      (4 \<le> i + length ds \<longrightarrow> digits_from src s' e = drop (4 - i) ds)"
proof (induction "e - s" arbitrary: s i scratch ds)
  case 0
  then have "s = e" "ds = []" by simp_all
  then show ?case using 0(2-4) by (subst fill_scratch.simps) auto
next
  case (Suc n)
  let ?c = "src ! s"
  have s: "s < e" "s < length src" "s + 1 \<le> e" and n: "n = e - (s + 1)" using Suc.hyps(2) assms by linarith+
  have f: "fetch src s = Some ?c" "fetch base64_dec_table (unat ?c) = Some (base64_dec_table ! unat ?c)"
    using s(2) byte_less [of ?c] by (simp_all add: length_dec_table)
  note step = digits_from_step [OF s(1) assms, unfolded Suc.prems(4)]
  consider (full) "\<not> i < 4" | (digit) d where "i < 4" "b64_digit ?c = Some d"
    | (space) "i < 4" "b64_digit ?c = None" "b64_space ?c" | (stop) "i < 4" "b64_digit ?c = None" "\<not> b64_space ?c"
    by (cases "b64_digit ?c") auto
  then show ?case
  proof cases
    case full
    then have "i = 4" using Suc.prems(1) by simp
    then show ?thesis using Suc.prems by (intro exI [of _ s] exI [of _ scratch]) (subst fill_scratch.simps, simp)
  next
    case (digit d)
    let ?ds = "digits_from src (s + 1) e" and ?scratch = "scratch[i := of_nat d]"
    have ds: "ds = d # ?ds" using step digit(2) by simp
    have "fill_scratch src s e i scratch = fill_scratch src (s + 1) e (i + 1) ?scratch"
      using digit(1) s f dec_table_digit(1) [OF digit(2)] Suc.prems(2) by (subst fill_scratch.simps) simp
    moreover obtain s' scratch' where "fill_scratch src (s + 1) e (i + 1) ?scratch = Some (s', min 4 (i + 1 + length ?ds), scratch', i + 1 + length ?ds < 4)"
        "length scratch' = 4" "s' \<le> e" "collected scratch' (min 4 (i + 1 + length ?ds)) = collected ?scratch (i + 1) @ take (4 - (i + 1)) ?ds"
        "4 \<le> i + 1 + length ?ds \<longrightarrow> digits_from src s' e = drop (4 - (i + 1)) ?ds"
      using Suc.hyps(1) [OF n, of "i + 1" ?scratch ?ds] digit(1) Suc.prems(2) s(3) by auto
    moreover have "collected ?scratch (i + 1) = collected scratch i @ [d]"
      using collected_store [of i scratch d, OF _ b64_digit_less [OF digit(2)]] digit(1) Suc.prems(2) by simp
    moreover have "4 - i = Suc (4 - (i + 1))" "i + length ds = i + 1 + length ?ds" using digit(1) ds by simp_all
    moreover have "take (4 - i) ds = d # take (4 - (i + 1)) ?ds" "drop (4 - i) ds = drop (4 - (i + 1)) ?ds"
      using ds \<open>4 - i = Suc (4 - (i + 1))\<close> by (simp_all only: take_Suc_Cons drop_Suc_Cons)
    ultimately show ?thesis by (intro exI [of _ s'] exI [of _ scratch']) (simp only: append.assoc append.simps simp_thms)
  next
    case space
    have "fill_scratch src s e i scratch = fill_scratch src (s + 1) e i scratch"
      using space(1) s f dec_table_digit(2) [OF space(2,3)] Suc.prems(2) by (subst fill_scratch.simps) simp
    moreover have "digits_from src (s + 1) e = ds" using step space(2,3) by simp
    ultimately show ?thesis using Suc.hyps(1) [OF n Suc.prems(1,2) s(3)] by simp
  next
    case stop
    have "fill_scratch src s e i scratch = Some (s + 1, i, scratch, True)"
      using stop(1) s f dec_table_digit(3) [OF stop(2,3)] Suc.prems(2) by (subst fill_scratch.simps) auto
    moreover have "ds = []" using step stop(2,3) by simp
    ultimately show ?thesis using stop(1) Suc.prems(2) s(3) by (intro exI [of _ "s + 1"] exI [of _ scratch]) simp
  qed
qed

lemma b64_fit_groups:
  "b64_fit n (a # b # c # d # ds) = (if 3 \<le> n then b64_bytes [a, b, c, d] @ b64_fit (n - 3) ds else [])"
  "length es < 4 \<Longrightarrow> b64_fit n es = take n (b64_bytes es)"
proof -
  have b: "b64_bytes (a # b # c # d # ds) = b64_bytes [a, b, c, d] @ b64_bytes ds" by (simp add: Let_def)
  have l: "length (b64_bytes [a, b, c, d]) = 3" by (simp add: Let_def)
  have k: "length (a # b # c # d # ds) div 4 = Suc (length ds div 4)" by simp
  show "b64_fit n (a # b # c # d # ds) = (if 3 \<le> n then b64_bytes [a, b, c, d] @ b64_fit (n - 3) ds else [])"
  proof (cases "3 \<le> n")
    case True
    then have "n div 3 * 3 = 3 + (n - 3) div 3 * 3" by (simp add: le_div_geq)
    moreover have "take (3 + m) (b64_bytes [a, b, c, d] @ b64_bytes ds) = b64_bytes [a, b, c, d] @ take m (b64_bytes ds)" for m
      using l by (simp only: take_append take_all_iff) simp
    note this [of "n - 3"] this [of "(n - 3) div 3 * 3"]
    moreover have "3 + (n - 3) = n" using True by simp
    moreover have "Suc m * 3 \<le> n \<longleftrightarrow> m * 3 \<le> n - 3" for m using True by auto
    ultimately show ?thesis using True unfolding b64_fit_def k b by (cases "length ds div 4 * 3 \<le> n - 3") (simp_all only: if_True if_False)
  next
    case False
    then have "\<not> Suc (length ds div 4) * 3 \<le> n" "n div 3 = 0" by simp_all
    then show ?thesis unfolding b64_fit_def k using False by (simp only: if_False mult_zero_left take0)
  qed
  show "length es < 4 \<Longrightarrow> b64_fit n es = take n (b64_bytes es)" by (simp add: b64_fit_def)
qed

lemma b64_fit_length: "length (b64_fit n ds) \<le> n"
proof -
  have "n div 3 * 3 \<le> n" by simp
  then show ?thesis by (auto simp: b64_fit_def intro: order_trans [OF min.cobounded2])
qed

lemma digits_less: "d \<in> set (b64_digits cs) \<Longrightarrow> d < 64"
  by (induction cs) (auto split: option.splits if_splits dest: b64_digit_less)

lemma dec_group_code:
  assumes "length v = 4" "collected v 4 = [x, y, z, w]" "x < 64" "y < 64" "z < 64" "w < 64"
  shows "[dec_byte0 v, dec_byte1 v, dec_byte2 v] = b64_bytes [x, y, z, w]"
proof -
  obtain v0 v1 v2 v3 where v: "v = [v0, v1, v2, v3]" using assms(1) by (auto simp: numeral_eq_Suc length_Suc_conv)
  have u: "unat (v ! 0) = x" "unat (v ! 1) = y" "unat (v ! 2) = z" "unat (v ! 3) = w" using assms(2) by (simp_all add: collected_def v)
  let ?n = "x * 262144 + y * 4096 + z * 64 + w"
  have "?n = 4096 * (x * 64 + y) + (z * 64 + w)" "z * 64 + w < 4096" "?n = 64 * (x * 4096 + y * 64 + z) + w" using assms(5,6) by simp_all
  then have "?n div 4096 = x * 64 + y" "?n div 64 = x * 4096 + y * 64 + z"
    using assms(6) by (metis add.right_neutral div_less div_mult_self4 zero_neq_numeral)+
  moreover have "?n div 65536 = ?n div 4096 div 16" "?n div 256 = ?n div 64 div 4" by (simp_all only: div_mult2_eq [symmetric]) simp_all
  ultimately show ?thesis using dec_bytes_code [OF u(1-3) assms(3-5)] u(4) assms(6) by (simp only: b64_bytes.simps Let_def append_Nil2)
qed

lemma decode_tail_code:
  assumes "length v = 4" "collected v (length ds) = ds" "length ds < 4" "\<And>d. d \<in> set ds \<Longrightarrow> d < 64" "p \<le> dsize" "dsize \<le> length dst"
  shows "decode_tail dst dsize p (length ds) v = (let out = b64_fit (dsize - p) ds in Some (stored dst p out, p + length out))"
proof -
  obtain v0 v1 v2 v3 where v: "v = [v0, v1, v2, v3]" using assms(1) by (auto simp: numeral_eq_Suc length_Suc_conv)
  have b0: "dec_byte0 v = dec_byte0 [v0, v1, 0, 0]" by (simp add: dec_byte0_def v)
  have put: "put_tail dst dsize p b = Some (stored dst p (take (dsize - p) [b]), p + length (take (dsize - p) [b]))"
    if "p \<le> dsize" "dsize \<le> length dst" for dst p b
    using that by (simp add: put_tail_def stored_def upd_conv_take_nth_drop take_Cons' numeral_eq_Suc)
  consider "ds = []" | x where "ds = [x]" | x y where "ds = [x, y]" | x y z where "ds = [x, y, z]"
    using assms(3) by (cases ds rule: b64_bytes.cases) auto
  then show ?thesis
  proof cases
    case (3 x y)
    then have "unat v0 = x" "unat v1 = y" using assms(2) by (simp_all add: collected_def v)
    then have "dec_byte0 v = of_nat ((x * 64 + y) div 16)"
      unfolding b0 using dec_bytes_code(1) [of "[v0, v1, 0, 0]" x y 0] assms(4) 3 by simp
    then show ?thesis using 3 put [OF assms(5,6)] by (simp add: decode_tail_def b64_fit_groups(2) Let_def)
  next
    case (4 x y z)
    then have "unat (v ! 0) = x" "unat (v ! 1) = y" "unat (v ! 2) = z" "x < 64" "y < 64" "z < 64"
      using assms(2,4) by (simp_all add: collected_def v)
    note d' = dec_bytes_code(1,2) [OF this]
    define out where "out = [of_nat ((x * 64 + y) div 16), of_nat ((x * 4096 + y * 64 + z) div 4) :: ruint8]"
    have d: "dec_byte0 v = out ! 0" "dec_byte1 v = out ! 1" unfolding d' out_def by (simp_all only: nth_Cons_0 nth_Cons_Suc One_nat_def)
    have "x * 4096 + y * 64 + z = 64 * (x * 64 + y) + z" "z < 64" using assms(4) 4 by simp_all
    then have "(x * 4096 + y * 64 + z) div 64 = x * 64 + y" by (metis add.right_neutral div_less div_mult_self4 zero_neq_numeral)
    then have "(x * 4096 + y * 64 + z) div 1024 = (x * 64 + y) div 16" using div_mult2_eq [of "x * 4096 + y * 64 + z" 64 16] by simp
    then have o: "b64_fit (dsize - p) ds = take (dsize - p) out" using 4 by (simp add: b64_fit_groups(2) Let_def out_def)
    show ?thesis
    proof (cases "p < dsize")
      case True
      then obtain m where m: "dsize - p = Suc m" by (cases "dsize - p") simp_all
      then have m1: "dsize - (p + 1) = m" by simp
      have r: "p + length [out ! 0] + length (take m [out ! 1]) \<le> length dst" using m assms(6) by simp
      have "stored (stored dst p [out ! 0]) (p + 1) (take m [out ! 1]) = stored dst p ([out ! 0] @ take m [out ! 1])"
        by (rule stored_append [OF r]) simp
      moreover have "put_tail dst dsize p (out ! 0) = Some (stored dst p [out ! 0], p + 1)" using put [OF assms(5,6)] m by simp
      moreover have "put_tail (stored dst p [out ! 0]) dsize (p + 1) (out ! 1)
          = Some (stored (stored dst p [out ! 0]) (p + 1) (take m [out ! 1]), p + 1 + length (take m [out ! 1]))"
        using put [of "p + 1" "stored dst p [out ! 0]" "out ! 1"] True assms(6) m1 by simp
      moreover have "take (Suc m) out = [out ! 0] @ take m [out ! 1]"
        unfolding out_def by (simp only: take_Suc_Cons nth_Cons_0 nth_Cons_Suc One_nat_def append.simps)
      moreover have "length ds = 3" using 4 by simp
      ultimately show ?thesis unfolding o decode_tail_def d unfolding m by simp
    next
      case False
      then show ?thesis using 4 unfolding o by (simp add: decode_tail_def put_tail_def)
    qed
  qed (simp_all add: decode_tail_def b64_fit_groups(2))
qed

lemma r_base64_decode_loop_code:
  assumes "e \<le> length src"
  shows "s \<le> e \<Longrightarrow> p \<le> dsize \<Longrightarrow> dsize \<le> length dst \<Longrightarrow> length v = 4 \<Longrightarrow> digits_from src s e = ds \<Longrightarrow>
    r_base64_decode_loop src s e dst dsize p v = (let out = b64_fit (dsize - p) ds in Some (stored dst p out, p + length out))"
proof (induction "length ds" arbitrary: s p dst v ds rule: less_induct)
  case less
  obtain s' v' where fill: "fill_scratch src s e 0 v = Some (s', min 4 (length ds), v', length ds < 4)" "length v' = 4" "s' \<le> e"
      "collected v' (min 4 (length ds)) = take 4 ds" "4 \<le> length ds \<longrightarrow> digits_from src s' e = drop 4 ds"
    using fill_scratch_code [OF assms, of 0 v s ds] less.prems(1,4,5) by (auto simp: collected_def)
  have dl: "d \<in> set ds \<Longrightarrow> d < 64" for d using less.prems(5) digits_less by blast
  show ?case
  proof (cases "length ds < 4")
    case True
    show ?thesis
    proof (cases "s < e")
      case s: True
      have "r_base64_decode_loop src s e dst dsize p v = decode_tail dst dsize p (length ds) v'"
        using s fill(1) True by (subst r_base64_decode_loop.simps) simp
      then show ?thesis using decode_tail_code [OF fill(2) _ True dl less.prems(2,3)] fill(4) True by simp
    next
      case False
      then have "ds = []" using less.prems(1,5) by simp
      then show ?thesis using False by (subst r_base64_decode_loop.simps) (simp add: b64_fit_groups(2))
    qed
  next
    case False
    then obtain x y z w es where ds: "ds = x # y # z # w # es" by (cases ds rule: b64_bytes.cases) auto
    have s: "s < e" using less.prems(1,5) ds by (cases "s = e") simp_all
    have "min 4 (length ds) = 4" "take 4 ds = [x, y, z, w]" using False by (simp, simp add: ds)
    then have c: "collected v' 4 = [x, y, z, w]" using fill(4) by (simp only:)
    have g: "[dec_byte0 v', dec_byte1 v', dec_byte2 v'] = b64_bytes [x, y, z, w]" (is "?g = _")
      by (rule dec_group_code [OF fill(2) c]) (use ds dl in simp_all)
    show ?thesis
    proof (cases "p + 3 > dsize")
      case True
      then have "r_base64_decode_loop src s e dst dsize p v = Some (dst, p)" using s fill(1) False by (subst r_base64_decode_loop.simps) simp
      moreover have "b64_fit (dsize - p) ds = []" unfolding ds b64_fit_groups(1) using True by simp
      ultimately show ?thesis by simp
    next
      case room: False
      let ?out = "b64_fit (dsize - p - 3) es"
      have p: "p + length ?g \<le> length dst" "p + 3 \<le> dsize" "dsize \<le> length (stored dst p ?g)" using room less.prems(3) by simp_all
      have "r_base64_decode_loop src s e dst dsize p v = r_base64_decode_loop src s' e (stored dst p ?g) dsize (p + 3) v'"
        using s fill(1) False room put_bytes_stored [OF p(1)] by (subst r_base64_decode_loop.simps) simp
      also have "\<dots> = Some (stored (stored dst p ?g) (p + 3) ?out, p + 3 + length ?out)"
        using less.hyps [OF _ fill(3) p(2,3) fill(2)] fill(5) ds by (simp add: Let_def)
      also have "stored (stored dst p ?g) (p + 3) ?out = stored dst p (?g @ ?out)"
      proof (rule stored_append)
        show "p + length ?g + length ?out \<le> length dst" using b64_fit_length [of "dsize - p - 3" es] p(2) less.prems(3) by simp
      qed simp
      finally have l: "r_base64_decode_loop src s e dst dsize p v = Some (stored dst p (?g @ ?out), p + 3 + length ?out)" .
      have three: "3 \<le> dsize - p" using p(2) by simp
      have fit: "b64_fit (dsize - p) ds = ?g @ ?out" unfolding ds b64_fit_groups(1) g [symmetric] using three by (simp only: if_True)
      have "p + 3 + length ?out = p + length (?g @ ?out)" by simp
      then show ?thesis unfolding l fit Let_def by (simp only:)
    qed
  qed
qed

section \<open>Decoding inverts encoding\<close>

lemma sextets_less: "d \<in> set (b64_sextets bs) \<Longrightarrow> d < 64"
proof (induction bs rule: b64_sextets.induct)
  case (1 a b c bs)
  let ?n = "unat a * 65536 + unat b * 256 + unat c"
  have "?n < 64 * 262144" using byte_less [of a] byte_less [of b] byte_less [of c] by simp
  then have "?n div 262144 < 64" by (rule less_mult_imp_div_less)
  then show ?case using 1 by (auto simp: Let_def)
next
  case (2 a b)
  have "unat a * 65536 + unat b * 256 < 64 * 262144" using byte_less [of a] byte_less [of b] by simp
  then have "(unat a * 65536 + unat b * 256) div 262144 < 64" by (rule less_mult_imp_div_less)
  then show ?case using 2 by (auto simp: Let_def)
next
  case (3 a)
  have "unat a * 65536 < 64 * 262144" using byte_less [of a] by simp
  then have "(unat a * 65536) div 262144 < 64" by (rule less_mult_imp_div_less)
  then show ?case using 3 by (auto simp: Let_def)
qed simp

lemma b64_digits_encode: "b64_digits (b64_encode bs) = b64_sextets bs"
proof -
  have pad: "b64_digits (replicate k 61) = []" for k by (cases k) (simp_all add: b64_digit_def b64_space_def)
  have "(\<And>d. d \<in> set ds \<Longrightarrow> d < 64) \<Longrightarrow> b64_digits (map b64_char ds @ replicate k 61) = ds" for ds k
    by (induction ds) (simp_all add: pad b64_digit_char)
  then show ?thesis unfolding b64_encode_def Let_def using sextets_less by blast
qed

lemma number_digits:
  fixes n :: nat
  shows "n div 262144 * 64 + n div 4096 mod 64 = n div 4096"
    "n div 262144 * 4096 + n div 4096 mod 64 * 64 + n div 64 mod 64 = n div 64"
    "n div 262144 * 262144 + n div 4096 mod 64 * 4096 + n div 64 mod 64 * 64 + n mod 64 = n"
proof -
  have d: "n div 4096 = n div 64 div 64" "n div 262144 = n div 64 div 64 div 64" by (simp_all add: div_mult2_eq [symmetric])
  have "64 * q + r = m \<Longrightarrow> 64 * s + t = q \<Longrightarrow> 64 * u + w = s \<Longrightarrow>
    u * 64 + w = s \<and> u * 4096 + w * 64 + t = q \<and> u * 262144 + w * 4096 + t * 64 + r = m" for q r s t u w m :: nat by simp
  from this [OF mult_div_mod_eq mult_div_mod_eq mult_div_mod_eq]
  show "n div 262144 * 64 + n div 4096 mod 64 = n div 4096"
    "n div 262144 * 4096 + n div 4096 mod 64 * 64 + n div 64 mod 64 = n div 64"
    "n div 262144 * 262144 + n div 4096 mod 64 * 4096 + n div 64 mod 64 * 64 + n mod 64 = n" unfolding d by blast+
qed

lemma number_bytes:
  fixes a b c :: ruint8
  shows "(of_nat ((unat a * 65536 + unat b * 256 + unat c) div 65536) :: ruint8) = a"
    "(of_nat ((unat a * 65536 + unat b * 256 + unat c) div 256) :: ruint8) = b"
    "(of_nat (unat a * 65536 + unat b * 256 + unat c) :: ruint8) = c"
proof -
  define n where "n = unat a * 65536 + unat b * 256 + unat c"
  have z: "(256 :: ruint8) = 0" "(65536 :: ruint8) = 0" by simp_all
  have "n = 65536 * unat a + (unat b * 256 + unat c)" "unat b * 256 + unat c < 65536" "n = 256 * (unat a * 256 + unat b) + unat c" "unat c < 256"
    using byte_less [of b] byte_less [of c] unfolding n_def by simp_all
  then have "n div 65536 = unat a" "n div 256 = unat a * 256 + unat b" by (metis add.right_neutral div_less div_mult_self4 zero_neq_numeral)+
  then show "(of_nat ((unat a * 65536 + unat b * 256 + unat c) div 65536) :: ruint8) = a"
      "(of_nat ((unat a * 65536 + unat b * 256 + unat c) div 256) :: ruint8) = b"
    unfolding n_def [symmetric] by (simp_all add: z)
  show "(of_nat (unat a * 65536 + unat b * 256 + unat c) :: ruint8) = c" by (simp add: z)
qed

lemma b64_bytes_sextets: "b64_bytes (b64_sextets bs) = bs"
proof (induction bs rule: b64_sextets.induct)
  case (1 a b c bs)
  then show ?case using number_bytes [of a b c]
    by (simp only: b64_sextets.simps b64_bytes.simps Let_def append.simps number_digits(3))
next
  case (2 a b)
  have "m div 1024 = n div 65536" "m div 4 = n div 256" if "m = n div 64" for m n :: nat
    using that by (simp_all add: div_mult2_eq [symmetric])
  then show ?case using number_bytes [of a b 0]
    by (simp only: b64_sextets.simps b64_bytes.simps Let_def append.simps number_digits(2) unsigned_0 add_0_right)
next
  case (3 a)
  have "m div 16 = n div 65536" if "m = n div 4096" for m n :: nat using that by (simp add: div_mult2_eq [symmetric])
  then show ?case using number_bytes(1) [of a 0 0]
    by (simp only: b64_sextets.simps b64_bytes.simps Let_def append.simps number_digits(1) unsigned_0 add_0_right mult_zero_left)
qed simp

section \<open>The functions\<close>

lemma r_base64_encode_code:
  assumes "sz \<le> length src" "dsize \<le> length dst"
  shows "r_base64_encode (Some dst) dsize (Some src) sz
    = (let out = take (dsize div 4 * 4) (b64_encode (take sz src)) in Some (length out, Some (stored dst 0 out)))"
proof -
  have "r_base64_encode (Some dst) dsize (Some src) sz = do {
      (buf, p) \<leftarrow> do {
        (buf, p, dsize, q, sz) \<leftarrow> r_base64_encode_loop dst 0 dsize src 0 sz;
        if dsize \<ge> 4 then enc_rest buf p src q sz else Some (buf, p)
      };
      Some (p, Some buf)
    }" by (simp add: r_base64_encode_def split_def)
  then show ?thesis using r_base64_encode_loop_code [of 0 sz src 0 dsize dst] assms by (simp add: Let_def)
qed

text \<open>A terminator stored behind the text.\<close>

lemma stored_terminated:
  assumes "length out < length buf"
  shows "store (stored buf 0 out) (length out) 0 = Some (out @ 0 # drop (length out + 1) buf)"
proof -
  have "stored buf 0 out = out @ buf ! length out # drop (length out + 1) buf"
    using Cons_nth_drop_Suc [OF assms] by (simp add: stored_def)
  then show ?thesis by simp
qed

lemma r_base64_encode_dup_code:
  assumes "alloc_ok mem" "src \<noteq> []" "length src < 2 ^ 62"
  shows "\<exists>rest. r_base64_encode_dup mem (Some src) (length src) = Some (Some (b64_encode src @ 0 # rest, length (b64_encode src)))"
proof -
  let ?s = "(length src + 2) div 3 * 4 + 1"
  obtain buf where buf: "mem ?s = Some buf" "length buf = ?s" using assms(1) unfolding alloc_ok_def by blast
  have m: "(length src + 2) mod 2 ^ 64 = length src + 2" "?s mod 2 ^ 64 = ?s" using assms(3) by simp_all
  have "length src + 2 = 3 * ((length src + 2) div 3) + (length src + 2) mod 3" "(length src + 2) mod 3 < 3" by simp_all
  then have s: "?s > length src" by linarith
  have "?s div 4 * 4 = length (b64_encode src)" by (simp add: b64_encode_length)
  then have "r_base64_encode (Some buf) ?s (Some src) (length src) = Some (?s - 1, Some (stored buf 0 (b64_encode src)))"
    using r_base64_encode_code [of "length src" src ?s buf] buf(2) by (simp add: b64_encode_length)
  moreover have "store (stored buf 0 (b64_encode src)) (?s - 1) 0 = Some (b64_encode src @ 0 # drop ?s buf)"
    using stored_terminated [of "b64_encode src" buf] buf(2) by (simp add: b64_encode_length)
  ultimately show ?thesis using assms(2) buf(1) s unfolding r_base64_encode_dup_def m Let_def
    by (simp add: b64_encode_length)
qed

definition base64_text :: "nat \<Rightarrow> ruint8 list \<Rightarrow> ruint8 list" where
  "base64_text linesize bs = (if linesize = 0 then b64_encode bs else b64_wrap (line_chars linesize) (line_chars linesize) (b64_encode bs))"

lemma r_base64_encode_dup_full_code:
  assumes "alloc_ok mem" "src \<noteq> []" "length src < 2 ^ 62" "linesize + 3 < 2 ^ 64"
  shows "\<exists>rest. r_base64_encode_dup_full mem (Some src) (length src) linesize
    = Some (Some (base64_text linesize src @ 0 # rest, length (base64_text linesize src)))"
proof (cases "linesize = 0")
  case True
  then show ?thesis using r_base64_encode_dup_code [OF assms(1-3)] by (simp add: r_base64_encode_dup_full_def base64_text_def)
next
  case False
  let ?s = "(length src + 2) div 3 * 4" and ?L = "line_chars linesize" and ?t = "base64_text linesize src"
  have L: "4 \<le> ?L" using line_chars(4) [of linesize] False by simp
  obtain buf where buf: "mem (?s + ?s div ?L + 1) = Some buf" "length buf = ?s + ?s div ?L + 1" using assms(1) unfolding alloc_ok_def by blast
  have "?s div ?L \<le> ?s" by simp
  then have m: "(length src + 2) mod 2 ^ 64 = length src + 2" "?s mod 2 ^ 64 = ?s" "(?s + ?s div ?L + 1) mod 2 ^ 64 = ?s + ?s div ?L + 1"
      "(linesize + 3) mod 2 ^ 64 div 4 * 4 = ?L"
    using assms(3,4) by (simp_all add: line_chars_def)
  have t: "?t = b64_wrap ?L ?L (b64_encode src)" using False by (simp add: base64_text_def)
  have len: "length ?t < length buf" using b64_wrap_length [of ?L "b64_encode src"] L buf(2) unfolding t b64_encode_length by simp
  have "(do {
      (ret, p, q, sz) \<leftarrow> encode_lines_loop buf 0 src 0 (length src) linesize 0;
      enc_rest ret p src q sz
    }) = Some (stored buf 0 ?t, length ?t)"
    using encode_lines_loop_code [of 0 "length src" src 0 linesize 0 buf] len False by (simp add: t Let_def)
  moreover have "r_base64_encode_dup_full mem (Some src) (length src) linesize = do {
      (ret, p) \<leftarrow> do {
        (ret, p, q, sz) \<leftarrow> encode_lines_loop buf 0 src 0 (length src) linesize 0;
        enc_rest ret p src q sz
      };
      ret \<leftarrow> store ret p 0;
      Some (Some (ret, p))
    }" using False assms(2) L buf(1) unfolding r_base64_encode_dup_full_def m Let_def by (simp add: split_def)
  ultimately show ?thesis using stored_terminated [OF len] by simp
qed

lemma r_base64_decode_code:
  assumes "dsize \<le> length dst" "n \<le> length src" "(if sz < 0 then r_strlen (Some src) else Some (nat sz)) = Some n"
  shows "r_base64_decode dst dsize (Some src) sz
    = (let out = b64_fit dsize (b64_digits (take n src)) in Some (length out, stored dst 0 out))"
  unfolding r_base64_decode_def option.case assms(3)
  using r_base64_decode_loop_code [OF assms(2), of 0 0 dsize dst "[0, 0, 0, 0]"] assms(1) by (simp add: Let_def)

lemma b64_bytes_length: "length (b64_bytes ds) \<le> length ds div 4 * 3 + 2"
proof (induction ds rule: b64_bytes.induct)
  case (1 a b c d ds)
  have "length (a # b # c # d # ds) div 4 = Suc (length ds div 4)" by simp
  then show ?case using 1 by (simp only: b64_bytes.simps Let_def length_append list.size) simp
qed (simp_all add: Let_def)

lemma b64_digits_length: "length (b64_digits cs) \<le> length cs"
  by (induction cs) (auto split: option.splits)

lemma r_base64_decode_dup_code:
  assumes "alloc_ok mem" "n \<le> length src" "n \<noteq> 0" "(if sz < 0 then r_strlen (Some src) else Some (nat sz)) = Some n"
  shows "\<exists>rest. r_base64_decode_dup mem (Some src) sz
    = (let out = b64_bytes (b64_digits (take n src)) in Some (Some (out @ 0 # rest, length out)))"
proof -
  let ?ds = "b64_digits (take n src)" and ?d = "(n div 4 + 1) * 3"
  obtain buf where buf: "mem ?d = Some buf" "length buf = ?d" using assms(1) unfolding alloc_ok_def by blast
  have "length ?ds \<le> n" using b64_digits_length [of "take n src"] assms(2) by simp
  then have k: "length ?ds div 4 \<le> n div 4" by (rule div_le_mono)
  have "x \<le> y \<Longrightarrow> l \<le> x * 3 + 2 \<Longrightarrow> b = (y + 1) * 3 \<Longrightarrow> l < b" for x y l b :: nat by simp
  from this [OF k b64_bytes_length buf(2)] have len: "length (b64_bytes ?ds) < length buf" .
  then have "b64_fit ?d ?ds = b64_bytes ?ds" using k buf(2) by (simp add: b64_fit_def)
  then have "r_base64_decode buf ?d (Some src) (int n) = Some (length (b64_bytes ?ds), stored buf 0 (b64_bytes ?ds))"
    using r_base64_decode_code [of ?d buf n src "int n"] buf(2) assms(2) by (simp add: Let_def)
  then show ?thesis unfolding r_base64_decode_dup_def option.case assms(4)
    using assms(3) buf(1) stored_terminated [OF len] by (simp add: Let_def)
qed

lemma base64_text_digits: "b64_digits (base64_text linesize bs) = b64_sextets bs"
  using b64_digits_wrap [of "[]"] by (simp add: base64_text_def b64_digits_encode)

lemma base64_text_chars: "bs \<noteq> [] \<Longrightarrow> base64_text linesize bs \<noteq> []" "0 \<notin> set (base64_text linesize bs)"
proof -
  have "length (b64_encode bs) \<noteq> 0" if "bs \<noteq> []" using that by (simp add: b64_encode_length div_eq_0_iff)
  moreover have "b64_wrap l k cs = [] \<Longrightarrow> cs = []" for l k cs by (subst (asm) b64_wrap.simps) (simp split: if_splits)
  ultimately show "bs \<noteq> [] \<Longrightarrow> base64_text linesize bs \<noteq> []" unfolding base64_text_def by (metis list.size(3))
  have "b64_char d \<noteq> 0" if "d < 64" for d
    using b64_digit_char [OF that] by (auto simp: b64_digit_def)
  then have e: "0 \<notin> set (b64_encode bs)" unfolding b64_encode_def Let_def using sextets_less [of _ bs] by auto
  have "0 \<notin> set cs \<Longrightarrow> 0 \<notin> set (b64_wrap l k cs)" for l k cs
    by (induction l k cs rule: b64_wrap.induct) (subst b64_wrap.simps, auto dest: in_set_takeD in_set_dropD)
  with e show "0 \<notin> set (base64_text linesize bs)" unfolding base64_text_def by simp
qed

lemma r_base64_is_valid_char_code: "r_base64_is_valid_char ch \<longleftrightarrow> b64_digit ch \<noteq> None"
  using dec_table_digit [of ch] by (cases "b64_digit ch"; cases "b64_space ch") (auto simp: r_base64_is_valid_char_def)

lemma r_base64_null:
  "r_base64_encode None dsize dat sz = Some (0, None)" "r_base64_encode dst dsize None sz = Some (0, dst)"
  "r_base64_decode buf dsize None ssize = Some (0, buf)" "r_base64_decode_dup mem None ssize = Some None"
  "r_base64_encode_dup_full mem None sz linesize = Some None" "r_base64_encode_dup_full mem dat 0 linesize = Some None"
  by (auto simp: r_base64_encode_def r_base64_decode_def r_base64_decode_dup_def r_base64_encode_dup_full_def r_base64_encode_dup_def
      split: option.splits)

text \<open>A line length that wraps to zero when it is rounded makes the encoder divide by zero.\<close>

lemma r_base64_encode_dup_full_wraps:
  assumes "src \<noteq> []" "linesize < 2 ^ 64" "2 ^ 64 \<le> linesize + 3"
  shows "r_base64_encode_dup_full mem (Some src) (length src) linesize = None"
proof -
  have "(linesize + 3) mod 2 ^ 64 = linesize + 3 - 2 ^ 64" using assms(2,3) by (simp add: mod_if)
  moreover have "linesize + 3 - 2 ^ 64 < 4" using assms(2) by simp
  ultimately have "(linesize + 3) mod 2 ^ 64 div 4 * 4 = 0" by simp
  then show ?thesis using assms(1,3) unfolding r_base64_encode_dup_full_def Let_def by auto
qed

section \<open>Round trip and bounds\<close>

text \<open>
  C39.  With or without line breaks, encoding returns the text of RFC 4648, zero-terminated and with
  its length, and decoding that string returns the data: for every non-empty data that fits into
  memory and every line length whose rounding to a multiple of four does not wrap.
\<close>

theorem r_base64_roundtrip:
  assumes "alloc_ok mem" "src \<noteq> []" "length src < 2 ^ 62" "linesize + 3 < 2 ^ 64"
  shows "\<exists>rest rest'. r_base64_encode_dup_full mem (Some src) (length src) linesize
        = Some (Some (base64_text linesize src @ 0 # rest, length (base64_text linesize src))) \<and>
      r_base64_decode_dup mem (Some (base64_text linesize src @ 0 # rest)) (- 1) = Some (Some (src @ 0 # rest', length src))"
proof -
  let ?t = "base64_text linesize src"
  obtain rest where r: "r_base64_encode_dup_full mem (Some src) (length src) linesize = Some (Some (?t @ 0 # rest, length ?t))"
    using r_base64_encode_dup_full_code [OF assms] by blast
  have n: "(if - 1 < (0 :: int) then r_strlen (Some (?t @ 0 # rest)) else Some (nat (- 1))) = Some (length ?t)"
    by (simp add: r_strlen_def c_strlen_append base64_text_chars(2))
  have l: "length ?t \<le> length (?t @ 0 # rest)" "length ?t \<noteq> 0" using base64_text_chars(1) [OF assms(2)] by simp_all
  have "take (length ?t) (?t @ 0 # rest) = ?t" by simp
  then have "\<exists>rest'. r_base64_decode_dup mem (Some (?t @ 0 # rest)) (- 1) = Some (Some (src @ 0 # rest', length src))"
    using r_base64_decode_dup_code [OF assms(1) l n] by (simp only: base64_text_digits b64_bytes_sextets Let_def)
  then show ?thesis using r by blast
qed

theorem r_base64_roundtrip_witness:
  "\<exists>rest rest'. r_base64_encode_dup_full (\<lambda>n. Some (replicate n 0)) (Some [77, 97, 110, 33]) 4 4
        = Some (Some ([84, 87, 70, 117, 10, 73, 81, 61, 61] @ 0 # rest, 9)) \<and>
      r_base64_decode_dup (\<lambda>n. Some (replicate n 0)) (Some ([84, 87, 70, 117, 10, 73, 81, 61, 61] @ 0 # rest)) (- 1)
        = Some (Some ([77, 97, 110, 33] @ 0 # rest', 4))"
proof -
  have r: "replicate 2 (61 :: ruint8) = [61, 61]" by (simp add: numeral_2_eq_2)
  have e: "b64_encode [77, 97, 110, 33] = [84, 87, 70, 117, 73, 81, 61, 61]"
    by (simp add: b64_encode_def Let_def b64_char_def r)
  have "b64_wrap 4 4 [84, 87, 70, 117, 73, 81, 61, 61] = [84, 87, 70, 117, 10, 73, 81, 61, 61]"
    by (subst b64_wrap.simps) (simp add: b64_wrap_short)
  then have t: "base64_text 4 [77, 97, 110, 33] = [84, 87, 70, 117, 10, 73, 81, 61, 61]"
    by (simp add: base64_text_def line_chars_def e)
  have h: "alloc_ok (\<lambda>n. Some (replicate n (0 :: ruint8)))" "[77, 97, 110, 33 :: ruint8] \<noteq> []"
      "length [77, 97, 110, 33 :: ruint8] < 2 ^ 62" "4 + 3 < (2 :: nat) ^ 64"
    by (simp_all add: alloc_ok_def)
  have l: "length [77, 97, 110, 33 :: ruint8] = 4" "length [84, 87, 70, 117, 10, 73, 81, 61, 61 :: ruint8] = 9" by simp_all
  show ?thesis using r_base64_roundtrip [OF h] unfolding t l .
qed

text \<open>
  C40.  Decoding any text into any buffer ends, reads nothing behind the text and writes nothing behind
  the \<open>dsize\<close> bytes it was given: it stores the bytes of the digits up to the first character that is
  neither a digit nor white space, as whole groups of three while they fit and then as much of a
  shorter last group as fits, and leaves the rest of the buffer alone.
\<close>

theorem r_base64_decode_bounded:
  assumes "dsize \<le> length dst" "n \<le> length src"
  shows "r_base64_decode dst dsize (Some src) (int n)
      = (let out = b64_fit dsize (b64_digits (take n src)) in Some (length out, out @ drop (length out) dst)) \<and>
    length (b64_fit dsize (b64_digits (take n src))) \<le> dsize"
  using r_base64_decode_code [OF assms, of "int n"] by (simp add: b64_fit_length stored_def)

theorem r_base64_decode_bounded_witness:
  "r_base64_decode [1, 2, 3, 4, 5] 4 (Some [84, 87, 32, 70, 117, 73, 81, 61, 61]) 9 = Some (4, [77, 97, 110, 33, 5])"
proof -
  have "b64_fit 4 (b64_digits (take 9 [84, 87, 32, 70, 117, 73, 81, 61, 61])) = [77, 97, 110, 33]"
    by (simp add: b64_fit_def b64_digit_def b64_space_def Let_def)
  then show ?thesis using r_base64_decode_bounded [of 4 "[1, 2, 3, 4, 5]" 9 "[84, 87, 32, 70, 117, 73, 81, 61, 61]"] by simp
qed

end
