(* ===== verification/Spec2Isabelle.thy ===== *)
theory Spec2Isabelle
  imports RHashTable RHashSet RQueue RTimeoutCBList RUnicodeWire RHmac RBase64Spec
begin

text \<open>
  A verification library for \<^verbatim>\<open>rlib\<close>, a C library of data structures, text and binary formats,
  cryptography and networking.

  \<^bold>\<open>How the code is modelled.\<close>  C functions are functions of HOL in the order in which the source has
  them.  A structure is a record and an enumeration a datatype; machine integers whose width matters
  are words, and sizes that index memory are natural numbers.  Memory is explicit: an array is a list
  accessed by the checked operations of \<^verbatim>\<open>RPrelude\<close> (\<open>fetch\<close>, \<open>store\<close>, \<open>memcpy\<close>, \<open>memmove\<close>, \<open>memfill\<close>),
  and linked nodes live in a store from addresses to cells, so that aliasing and freed nodes are
  visible.  A function whose C code may not return (an access outside an allocation, a freed node, a
  call through a null pointer, a division by zero, an endless loop) has an option type, and \<open>None\<close>
  means that.  An equation \<open>f x = Some y\<close> therefore contains memory safety and termination.  Allocation
  is a parameter where the code tests it: the constructors and the allocating conversions take its
  outcome, and the old contents of the memory are arbitrary.  Where the code uses an allocation
  untested it is taken to be served: the node of a list or queue, and the bucket array of a hash
  container that is resized.  Callbacks are parameters or are recorded as a list of calls.

  \<^bold>\<open>The parts, and the theories that hold them.\<close>

  \<^item> Hash containers, \<^verbatim>\<open>rlib/data/rhashfuncs.c\<close>, \<^verbatim>\<open>rhashtable.c\<close>, \<^verbatim>\<open>rhashset.c\<close> and
    \<^verbatim>\<open>include/rlib/data/rdictionary.h\<close>: \<^verbatim>\<open>RHash\<close> has the hash functions, the probe sequence and the
    bucket invariant (locale \<open>oa_buckets\<close>), \<^verbatim>\<open>RHashTable\<close> the table and the dictionary, \<^verbatim>\<open>RHashSet\<close>
    the set.  A table with tombstones refines a map and a set a mathematical set, over any sequence of
    calls, with the documented result codes except that an overwriting insertion is not reported as
    one; insertion, removal, predicate removal and traversal notify exactly the entries they say.
  \<^item> Lists, \<^verbatim>\<open>rlib/data/rlist.c\<close> and its macros: \<^verbatim>\<open>RDll\<close> has doubly linked segments in a store (locale
    \<open>dnode\<close>), \<^verbatim>\<open>RList\<close> and \<^verbatim>\<open>RSList\<close> the doubly and singly linked lists, \<^verbatim>\<open>RCBList\<close> the callback
    lists.  Every operation edits exactly the nodes it names and keeps the segment well formed.
  \<^item> Queues, \<^verbatim>\<open>include/rlib/data/rqueue.h\<close> and \<^verbatim>\<open>rlib/data/rqueuering.c\<close>: \<^verbatim>\<open>RQueue\<close> interprets the
    locale \<open>fifo_queue\<close> for the list-backed queue and for the ring buffer, which refine a list and a
    bounded list, also at the capacities the ring constructor cuts, and has the callback queue.
  \<^item> Timeouts, \<^verbatim>\<open>rlib/data/rtimeoutcblist.c\<close>: \<^verbatim>\<open>RTimeoutCBList\<close>, a sorted callback list on the same
    segments.
  \<^item> Unicode, \<^verbatim>\<open>rlib/charset/runicode.c\<close>: \<^verbatim>\<open>RUnicode\<close> has the conversions, validators and counters,
    \<^verbatim>\<open>RUnicodeSpec\<close> the encoding forms (locales \<open>decoder\<close> and \<open>codec\<close>), \<^verbatim>\<open>RUnicodeConv\<close> the proof that the
    conversions transcode, \<^verbatim>\<open>RUnicodeText\<close> whole texts and round trips, \<^verbatim>\<open>RUnicodeWire\<close> the byte order
    aware forms and WTF-8.
  \<^item> Digests, \<^verbatim>\<open>rlib/crypto/rmsgdigest.c\<close>: \<^verbatim>\<open>RDigest\<close> has byte order, buffering and padding (locale
    \<open>block_hash\<close>), \<^verbatim>\<open>RMdSha\<close> the algorithms MD2, MD4, MD5, SHA-1 and SHA-2, \<^verbatim>\<open>RSha\<close> the block functions
    against FIPS 180-4 (locales \<open>schedule_ring\<close> and \<open>sha2_macro\<close>), \<^verbatim>\<open>RMdHash\<close> the digests of whole
    messages (locale \<open>md64\<close>), \<^verbatim>\<open>RShake\<close> SHAKE256 against FIPS 202, and \<^verbatim>\<open>RMsgDigest\<close> the objects and
    their dispatch (locale \<open>fixed_digest\<close>), which refine an abstract machine over the absorbed bytes.
    For MD2, MD4 and MD5 the reference takes the compression of a block from the code and is
    independent in padding, buffering and output only.
  \<^item> Keyed hashes, \<^verbatim>\<open>rlib/crypto/rhmac.c\<close> and \<^verbatim>\<open>r_memcmp_ct\<close> of \<^verbatim>\<open>rlib/rmem.c\<close>: \<^verbatim>\<open>RHmac\<close> composes the
    digest objects to RFC 2104 tags and their verification.
  \<^item> Base64, \<^verbatim>\<open>rlib/rbase64.c\<close>: \<^verbatim>\<open>RBase64\<close> has the functions and RFC 4648, \<^verbatim>\<open>RBase64Spec\<close> the proof that the
    encoder writes its text, with line breaks at the rounded line length, that the decoder inverts it,
    and that the decoder stays inside the text and the buffer for any input.

  \<^bold>\<open>How they interact.\<close>  The dictionary is a hash table of strings.  The callback queue and the timeout
  list are lists of callback contexts.  The keyed hash drives two digest objects through the dispatch
  only, and its proofs use the relation between an object and its absorbed bytes, not the algorithms.

  \<^bold>\<open>Loops and bounds.\<close>  Loops are structural recursion, functions with a termination measure, or partial
  functions in the option monad whose results are proved to exist; no fuel is used.  Sizes are those
  of a 64 bit host; where a size wraps, the wrap is part of the definition.  Bytes of words in memory
  are laid out as on a little endian host where the code casts between them (SHAKE256, the key block of
  the keyed hash); loads and stores with a named byte order are independent of the host.

  \<^bold>\<open>What the model showed.\<close>  Beside correctness, some theorems state where the code does not do what it
  means to, or not what its documentation says: an overwriting insertion that is not reported, a null
  equality function called on a hash collision, a use after free in a removal over a singly linked
  list, a ring size that is cut to 32 bits, destroy notifiers of a cancelled timeout that wait for the
  last reference, a timeout that cancels itself, positions
  reported with an overflow and the empty string in the Unicode conversions, message bytes lost from
  the last block of SHA-384 and SHA-512, and a division by zero for the largest line lengths of Base64.

  \<^bold>\<open>Not modelled.\<close>  Inside the parts above: functions that only wipe and release (\<^verbatim>\<open>r_msg_digest_free\<close>,
  \<^verbatim>\<open>r_hmac_free\<close>), hexadecimal formatting of a digest, and the lookup of a digest by name.  Beside
  them: code that calls the operating system (sockets, files, threads, clocks, the event loop, the
  console), where no source gives the behaviour; code whose meaning depends on the interleaving of
  threads (hazard pointers, task queue, thread pool, atomic reference counts); tables the build
  generates (Unicode properties); processor intrinsics; and what is built on these (TLS, WebRTC,
  HTTP).  The big integers and the public-key cryptography on them, the ciphers, ASN.1, JSON, the
  packet formats, the binary formats, bit sets, pointer arrays and strings are sequential code that
  can be modelled in the same way and is left to further work.
\<close>

end
